theory Spec2Isabelle
  imports Main
begin

section \<open>Data model of the taskbar (ui/taskbar.js)\<close>

text \<open>
  Applications (\<open>Shell.App\<close>) and components are JavaScript objects compared by identity.
  An application is a natural number; a button is an address \<open>bid\<close> into a store of
  \<open>appButton\<close> objects, so that \<open>destroy()\<close> on a button is seen through every reference
  to it. JavaScript numbers that hold pixel coordinates and indices are integers.
\<close>

type_synonym app = nat
type_synonym bid = nat

record rect =
  rect_x :: int
  rect_y :: int
  rect_width :: int
  rect_height :: int

record appButton =
  app :: app
  isFavorite :: bool
  isValid :: bool

type_synonym store = "bid \<Rightarrow> appButton"

text \<open>A reference to a component: an \<open>AppButton\<close>, the taskbar's one \<open>Separator\<close>,
  or a component of any other class.\<close>

datatype component = AppButton bid | Separator | Other nat

subsection \<open>JavaScript \<open>Map\<close> and \<open>Set\<close>, in insertion order\<close>

text \<open>A \<open>Map\<close> is a list of entries with distinct keys, in insertion order:
  \<open>set\<close> on a present key replaces the value in place, on a new key appends.
  A \<open>Set\<close> is a list without duplicates in insertion order.\<close>

fun mapSet :: "('k \<times> 'v) list \<Rightarrow> 'k \<Rightarrow> 'v \<Rightarrow> ('k \<times> 'v) list" where
  "mapSet [] k v = [(k, v)]"
| "mapSet ((k', v') # m) k v = (if k' = k then (k, v) # m else (k', v') # mapSet m k v)"

definition mapHas :: "('k \<times> 'v) list \<Rightarrow> 'k \<Rightarrow> bool" where
  "mapHas m k = (k \<in> set (map fst m))"

definition mapGet :: "('k \<times> 'v) list \<Rightarrow> 'k \<Rightarrow> 'v option" where
  "mapGet m k = map_of m k"

definition mapDelete :: "('k \<times> 'v) list \<Rightarrow> 'k \<Rightarrow> ('k \<times> 'v) list" where
  "mapDelete m k = filter (\<lambda>e. fst e \<noteq> k) m"

definition setAdd :: "'a list \<Rightarrow> 'a \<Rightarrow> 'a list" where
  "setAdd s v = (if v \<in> set s then s else s @ [v])"

definition setUnion :: "'a list \<Rightarrow> 'a list \<Rightarrow> 'a list" where
  "setUnion s t = foldl setAdd s t"

section \<open>TaskbarAllocation\<close>

definition APP_ALLOCATION_THRESHOLD :: nat where
  "APP_ALLOCATION_THRESHOLD = 2"

text \<open>\<open>Delay\<close> (core/enums.js) and \<open>AnimationDuration\<close> (ui/base/animation.js) are enums
  whose values are not in the sources; only their names are used.\<close>

datatype delay = Redraw | Scheduled | Queue

datatype duration = NoDuration | Faster | Slower

record taskbarAllocation =
  isDragMode :: bool
  isUpdating :: bool
  hasActor :: bool
  allocation :: "(component \<times> int) list option"
  hasJob :: bool

text \<open>The getter \<open>#allocationSize\<close>: the loop over the entries of \<open>#allocation\<close>, with the
  local map \<open>apps\<close> counting the buttons seen for each application.\<close>

fun allocationLoop :: "store \<Rightarrow> (component \<times> int) list \<Rightarrow> (app \<rightharpoonup> nat) \<Rightarrow> int \<Rightarrow> int" where
  "allocationLoop h [] apps result = result"
| "allocationLoop h ((source, sz) # rest) apps result =
     (case source of
        AppButton b \<Rightarrow>
          (let a = app (h b);
               count = (case apps a of None \<Rightarrow> 0 | Some c \<Rightarrow> c)
           in if count \<ge> APP_ALLOCATION_THRESHOLD then allocationLoop h rest apps result
              else allocationLoop h rest (apps(a \<mapsto> count + 1)) (result + sz))
      | _ \<Rightarrow> allocationLoop h rest apps (result + sz))"

definition allocationSize :: "store \<Rightarrow> (component \<times> int) list option \<Rightarrow> int" where
  "allocationSize h alloc =
     (case alloc of
        None \<Rightarrow> 0
      | Some m \<Rightarrow> if m = [] then 0 else allocationLoop h m Map.empty 0)"

text \<open>\<open>add(source)\<close> and \<open>remove(source)\<close>. A null \<open>source\<close> is \<open>None\<close>; \<open>getRect\<close> is
  the \<open>rect\<close> getter of the component, which yields null for a component without
  geometry. The \<open>Job\<close> class (core/context/jobs.js) is not in the sources: the call
  \<open>this.#job?.reset(delay).queue(() => this.update())\<close> is returned as the delay with
  which the update was scheduled, \<open>None\<close> when no such call was made.\<close>

definition schedule :: "taskbarAllocation \<Rightarrow> delay \<Rightarrow> delay option" where
  "schedule t d = (if hasJob t then Some d else None)"

definition allocationAdd ::
  "(component \<Rightarrow> rect option) \<Rightarrow> component option \<Rightarrow> taskbarAllocation
     \<Rightarrow> taskbarAllocation \<times> delay option" where
  "allocationAdd getRect source t =
     (case source of
        None \<Rightarrow> (t, None)
      | Some src \<Rightarrow>
          (case allocation t of
             None \<Rightarrow> (t, None)
           | Some m \<Rightarrow>
               (case getRect src of
                  None \<Rightarrow> (t, None)
                | Some r \<Rightarrow>
                    (t\<lparr>allocation := Some (mapSet m src (rect_width r))\<rparr>, schedule t Redraw))))"

definition allocationRemove ::
  "component option \<Rightarrow> taskbarAllocation \<Rightarrow> taskbarAllocation \<times> delay option" where
  "allocationRemove source t =
     (case source of
        None \<Rightarrow> (t, None)
      | Some src \<Rightarrow>
          (case allocation t of
             None \<Rightarrow> (t, None)
           | Some m \<Rightarrow>
               if \<not> mapHas m src then (t, None)
               else (t\<lparr>allocation := Some (mapDelete m src)\<rparr>,
                     schedule t (if isDragMode t then Scheduled else Redraw))))"

text \<open>\<open>update()\<close> is an async function with one \<open>await\<close>. It is two steps: the part up
  to the \<open>await\<close> (or to a \<open>return\<close> before it), and the part after the awaited scroll job
  has resolved. Each step yields the calls it makes on the actor and on the taskbar's
  scroll view, in order. \<open>scrollView\<close> holds what \<open>update\<close> reads from \<open>#taskbar\<close>;
  \<open>scrollJob\<close> tells whether \<open>scrollToPosition\<close> returns a job (it returns null when no
  scroll is needed).\<close>

record scrollView =
  pageSize :: int
  scrollSize :: int
  scrollPosition :: int

datatype effect =
    RemoveAllTransitions
  | SetScrollLimit int
  | ScrollToPosition int bool
  | Animate int duration "delay option"

datatype updateOutcome = Returned | AwaitingScroll int duration "delay option"

definition allocate :: "taskbarAllocation \<Rightarrow> int \<Rightarrow> duration \<Rightarrow> delay option \<Rightarrow> effect list" where
  "allocate t w d dl = (if \<not> hasActor t then [] else [Animate w d dl])"

definition allocationUpdate ::
  "store \<Rightarrow> scrollView option \<Rightarrow> bool \<Rightarrow> taskbarAllocation
     \<Rightarrow> taskbarAllocation \<times> effect list \<times> updateOutcome" where
  "allocationUpdate h taskbar scrollJob t =
     (case taskbar of
        None \<Rightarrow> (t, [], Returned)
      | Some tb \<Rightarrow>
          if allocation t = None \<or> \<not> hasActor t then (t, [], Returned)
          else
            (let t1 = t\<lparr>isUpdating := False\<rparr>;
                 w = allocationSize h (allocation t);
                 scrollOffset = max 0 (w - pageSize tb);
                 d = (if w \<ge> scrollSize tb then (if isDragMode t then NoDuration else Faster)
                      else Slower);
                 dl = (if w \<ge> scrollSize tb then None else Some Queue);
                 pre = [RemoveAllTransitions, SetScrollLimit scrollOffset]
             in if scrollOffset > scrollPosition tb then (t1, pre @ allocate t1 w d dl, Returned)
                else if \<not> scrollJob
                  then (t1, pre @ [ScrollToPosition scrollOffset True] @ allocate t1 w d dl, Returned)
                else (t1\<lparr>isUpdating := True\<rparr>, pre @ [ScrollToPosition scrollOffset True],
                      AwaitingScroll w d dl)))"

definition allocationUpdateResume ::
  "bool \<Rightarrow> int \<Rightarrow> duration \<Rightarrow> delay option \<Rightarrow> taskbarAllocation
     \<Rightarrow> taskbarAllocation \<times> effect list" where
  "allocationUpdateResume scrollJobResult w d dl t =
     (if \<not> scrollJobResult \<or> \<not> isUpdating t then (t, [])
      else (t\<lparr>isUpdating := False\<rparr>, allocate (t\<lparr>isUpdating := False\<rparr>) w d dl))"

text \<open>Predicates and sample data used to state the properties of \<open>#allocationSize\<close>.\<close>

definition boundTo :: "store \<Rightarrow> app \<Rightarrow> component \<times> int \<Rightarrow> bool" where
  "boundTo h a e = (case fst e of AppButton b \<Rightarrow> app (h b) = a | _ \<Rightarrow> False)"

definition isAppButton :: "component \<times> int \<Rightarrow> bool" where
  "isAppButton e = (case fst e of AppButton b \<Rightarrow> True | _ \<Rightarrow> False)"

definition seen :: "(app \<rightharpoonup> nat) \<Rightarrow> app \<Rightarrow> nat" where
  "seen apps a = (case apps a of None \<Rightarrow> 0 | Some c \<Rightarrow> c)"

definition sampleStore :: store where
  "sampleStore = (\<lambda>b. \<lparr>app = (if b < 3 then 7 else b), isFavorite = False, isValid = True\<rparr>)"

definition sampleAllocation :: "(component \<times> int) list" where
  "sampleAllocation =
     [(AppButton 0, 10), (Separator, 3), (AppButton 1, 10), (AppButton 5, 4), (AppButton 2, 10)]"

text \<open>Sample states of the allocation manager.\<close>

definition sampleManager :: taskbarAllocation where
  "sampleManager =
     \<lparr>isDragMode = True, isUpdating = False, hasActor = True,
      allocation = Some [(AppButton 0, 10), (Separator, 3)], hasJob = True\<rparr>"

definition wideManager :: taskbarAllocation where
  "wideManager =
     \<lparr>isDragMode = False, isUpdating = False, hasActor = True,
      allocation = Some [(Other 0, 100)], hasJob = True\<rparr>"

definition narrowView :: scrollView where
  "narrowView = \<lparr>pageSize = 50, scrollSize = 200, scrollPosition = 0\<rparr>"

definition scrolledView :: scrollView where
  "scrolledView = \<lparr>pageSize = 50, scrollSize = 200, scrollPosition = 80\<rparr>"

text \<open>The first step of \<open>update()\<close> as the sixth claim words it: when the scroll offset
  exceeds the scroll position, the step asks the viewport to scroll to the offset and
  does not animate the width.\<close>

definition scrollsBeforeResizing ::
  "store \<Rightarrow> scrollView \<Rightarrow> bool \<Rightarrow> taskbarAllocation \<Rightarrow> bool" where
  "scrollsBeforeResizing h tb scrollJob t =
     (let scrollOffset = max 0 (allocationSize h (allocation t) - pageSize tb);
          effects = fst (snd (allocationUpdate h (Some tb) scrollJob t))
      in scrollOffset > scrollPosition tb \<longrightarrow>
           ScrollToPosition scrollOffset True \<in> set effects
           \<and> (\<forall>e \<in> set effects. case e of Animate w d dl \<Rightarrow> False | _ \<Rightarrow> True))"

definition updateDuration :: "taskbarAllocation \<Rightarrow> scrollView \<Rightarrow> int \<Rightarrow> duration" where
  "updateDuration t tb w =
     (if w \<ge> scrollSize tb then (if isDragMode t then NoDuration else Faster) else Slower)"

definition updateDelay :: "scrollView \<Rightarrow> int \<Rightarrow> delay option" where
  "updateDelay tb w = (if w \<ge> scrollSize tb then None else Some Queue)"

section \<open>The object store\<close>

text \<open>
  The store holds the AppButton objects by address; \<open>nextButton\<close> is the first unused
  address; \<open>children\<close> are the children of the taskbar's container, in the order of their
  indices. The classes \<open>AppButton\<close> (ui/taskbar/appButton.js), \<open>Separator\<close>
  (ui/taskbar/separator.js) and \<open>Component\<close> (ui/base/component.js) are not in the sources.

  Modelled from the spec: \<open>Component.destroy\<close> and \<open>isValid\<close>, which are missing, follow
  section 3 of the spec, "isValid: false once destroyed"; a destroyed component is no
  longer displayed, it leaves the container. A new AppButton is valid and
  bound to the application given to its constructor; the value of its \<open>isFavorite\<close> getter
  is not fixed by the spec and is the parameter \<open>initialFavorite\<close> of the operations that
  construct buttons. Components of other classes are not destroyed by the code modelled here.

  Modelled from the spec: \<open>Component.setParent(parent, position)\<close>, which is missing, follows
  steps 5 and 6 of section 4.1 of the spec ("repositioned there", "re-parent/reorder into
  the final sequence"): the component becomes the child at the index \<open>position\<close> of the
  container and the other children keep their order; with a negative position, or one
  past the end, it becomes the last child. The taskbar is the only parent in this model.
\<close>

record heap =
  buttons :: store
  nextButton :: bid
  separatorValid :: bool
  children :: "component list"

definition componentValid :: "heap \<Rightarrow> component \<Rightarrow> bool" where
  "componentValid h c =
     (case c of AppButton b \<Rightarrow> isValid (buttons h b) | Separator \<Rightarrow> separatorValid h | Other n \<Rightarrow> True)"

definition destroyButton :: "bid \<Rightarrow> heap \<Rightarrow> heap" where
  "destroyButton b h = h\<lparr>buttons := (buttons h)(b := (buttons h b)\<lparr>isValid := False\<rparr>),
                        children := removeAll (AppButton b) (children h)\<rparr>"

definition destroyOptional :: "bid option \<Rightarrow> heap \<Rightarrow> heap" where
  "destroyOptional ob h = (case ob of None \<Rightarrow> h | Some b \<Rightarrow> destroyButton b h)"

definition newAppButton :: "app \<Rightarrow> bool \<Rightarrow> heap \<Rightarrow> bid \<times> heap" where
  "newAppButton a fav h =
     (nextButton h,
      h\<lparr>buttons := (buttons h)(nextButton h := \<lparr>app = a, isFavorite = fav, isValid = True\<rparr>),
        nextButton := Suc (nextButton h)\<rparr>)"

definition setParent :: "component \<Rightarrow> int \<Rightarrow> heap \<Rightarrow> heap" where
  "setParent c position h =
     (let others = removeAll c (children h)
      in h\<lparr>children := (if position < 0 then others @ [c]
                        else take (nat position) others @ [c] @ drop (nat position) others)\<rparr>)"

section \<open>DragAndDropHandler\<close>

text \<open>A slot is a \<open>DropCompetitor\<close>: a component and its rectangle. The geometry is owned by
  the toolkit: \<open>rectOf\<close> is the \<open>rect\<close> getter of a component (null when it has none),
  \<open>boxOf\<close> the origin of its allocation box, \<open>parentRectX\<close> the \<open>x\<close> of the getter
  \<open>#parentRect\<close>.\<close>

record dropCompetitor =
  competitor :: component
  slotRect :: rect

record geometry =
  rectOf :: "component \<Rightarrow> rect option"
  boxOf :: "component \<Rightarrow> int \<times> int"
  parentRectX :: int

definition emptyRect :: rect where
  "emptyRect = \<lparr>rect_x = 0, rect_y = 0, rect_width = 0, rect_height = 0\<rparr>"

definition DropCompetitor :: "geometry \<Rightarrow> component \<Rightarrow> rect option \<Rightarrow> dropCompetitor" where
  "DropCompetitor g c xyRect =
     (let r = (case rectOf g c of None \<Rightarrow> emptyRect | Some r \<Rightarrow> r)
      in \<lparr>competitor = c,
          slotRect = (case xyRect of
                        Some xy \<Rightarrow> r\<lparr>rect_x := rect_x xy, rect_y := rect_y xy\<rparr>
                      | None \<Rightarrow> r\<lparr>rect_x := fst (boxOf g c), rect_y := snd (boxOf g c)\<rparr>)\<rparr>)"

text \<open>The dragged payload: an AppButton of the taskbar, or a foreign object that has
  an \<open>app\<close> (it is identical to no component).\<close>

datatype dragTarget = TargetButton bid | TargetExternal app

definition targetApp :: "heap \<Rightarrow> dragTarget \<Rightarrow> app" where
  "targetApp h t = (case t of TargetButton b \<Rightarrow> app (buttons h b) | TargetExternal a \<Rightarrow> a)"

definition targetIs :: "dragTarget \<Rightarrow> component option \<Rightarrow> bool" where
  "targetIs t c = (case t of TargetButton b \<Rightarrow> c = Some (AppButton b) | TargetExternal a \<Rightarrow> False)"

record dragParams =
  dragX :: int
  dragY :: int
  target :: dragTarget

record dragAndDropHandler =
  slots :: "dropCompetitor list option"
  hasParent :: bool
  candidate :: "bid option"
  candidatePosition :: int
  watching :: bool

definition newDragAndDropHandler ::
  "geometry \<Rightarrow> heap \<Rightarrow> component list \<Rightarrow> dragAndDropHandler" where
  "newDragAndDropHandler g h competitors =
     \<lparr>slots = Some (map (\<lambda>c. DropCompetitor g c None) (filter (componentValid h) competitors)),
      hasParent = True, candidate = None, candidatePosition = -1, watching = False\<rparr>"

definition dndDestroy :: "heap \<Rightarrow> dragAndDropHandler \<Rightarrow> heap \<times> dragAndDropHandler" where
  "dndDestroy h d =
     (destroyOptional (candidate d) h,
      d\<lparr>slots := None, hasParent := False, candidate := None, watching := False\<rparr>)"

text \<open>The scan of lines 137 to 143: the index of the first slot whose rectangle holds
  \<open>x\<close>, if there is one.\<close>

fun findSlot :: "int \<Rightarrow> dropCompetitor list \<Rightarrow> nat option" where
  "findSlot x [] = None"
| "findSlot x (s # ss) =
     (if x < rect_x (slotRect s) \<or> x > rect_x (slotRect s) + rect_width (slotRect s)
      then map_option Suc (findSlot x ss)
      else Some 0)"

definition slotAt :: "dropCompetitor list \<Rightarrow> int \<Rightarrow> component option" where
  "slotAt ss i = (if 0 \<le> i \<and> i < int (length ss) then Some (competitor (ss ! nat i)) else None)"

definition scanPosition :: "int \<Rightarrow> dropCompetitor list \<Rightarrow> nat" where
  "scanPosition x ss = (case findSlot x ss of None \<Rightarrow> length ss | Some i \<Rightarrow> i)"

text \<open>The value of the local \<open>position\<close> after line 149, for the pruned slots \<open>ss\<close>.\<close>

definition dragPosition :: "int \<Rightarrow> dragTarget \<Rightarrow> dropCompetitor list \<Rightarrow> nat" where
  "dragPosition x t ss =
     (let position = scanPosition x ss
      in if targetIs t (slotAt ss (int position - 1)) \<and> int position = int (length ss) - 1
         then position + 1 else position)"

definition spliceAt :: "nat \<Rightarrow> 'a \<Rightarrow> 'a list \<Rightarrow> 'a list" where
  "spliceAt i v xs = take i xs @ [v] @ drop i xs"

text \<open>The parts of \<open>handleDrag\<close>, for the pointer position \<open>x\<close>, the drag target \<open>tg\<close>
  and the pruned slots \<open>ss\<close>: the pruning and the clamp of lines 126 to 136, the
  competitors at and before the scanned position, the two tests of lines 147 and 150, the
  test of lines 155 to 157, the rectangle \<open>slotRect\<close>, and lines 161 to 164.\<close>

definition pruneSlots :: "heap \<Rightarrow> dropCompetitor list \<Rightarrow> dropCompetitor list" where
  "pruneSlots h allSlots = filter (\<lambda>s. componentValid h (competitor s)) allSlots"

definition clampCandidate :: "dropCompetitor list \<Rightarrow> dragAndDropHandler \<Rightarrow> dragAndDropHandler" where
  "clampCandidate ss d =
     d\<lparr>slots := Some ss, watching := True,
       candidatePosition := (if candidatePosition d > int (length ss)
                             then int (length ss) else candidatePosition d)\<rparr>"

definition competitorAtPosition :: "int \<Rightarrow> dropCompetitor list \<Rightarrow> component option" where
  "competitorAtPosition x ss = slotAt ss (int (scanPosition x ss))"

definition competitorBeforePosition :: "int \<Rightarrow> dropCompetitor list \<Rightarrow> component option" where
  "competitorBeforePosition x ss = slotAt ss (int (scanPosition x ss) - 1)"

definition appendsAfterTarget :: "int \<Rightarrow> dragTarget \<Rightarrow> dropCompetitor list \<Rightarrow> bool" where
  "appendsAfterTarget x tg ss =
     (targetIs tg (competitorBeforePosition x ss) \<and> int (scanPosition x ss) = int (length ss) - 1)"

definition overOwnPlace :: "int \<Rightarrow> dragTarget \<Rightarrow> dropCompetitor list \<Rightarrow> bool" where
  "overOwnPlace x tg ss =
     (\<not> appendsAfterTarget x tg ss
      \<and> (targetIs tg (competitorAtPosition x ss) \<or> targetIs tg (competitorBeforePosition x ss)))"

definition keepsCandidate ::
  "int \<Rightarrow> dragTarget \<Rightarrow> dropCompetitor list \<Rightarrow> dragAndDropHandler \<Rightarrow> bool" where
  "keepsCandidate x tg ss d =
     (case candidate d of
        None \<Rightarrow> False
      | Some c \<Rightarrow> candidatePosition d = int (dragPosition x tg ss)
                  \<or> competitorAtPosition x ss = Some (AppButton c)
                  \<or> competitorBeforePosition x ss = Some (AppButton c))"

definition foundRect :: "int \<Rightarrow> dragTarget \<Rightarrow> dropCompetitor list \<Rightarrow> rect option" where
  "foundRect x tg ss =
     (case findSlot x ss of
        None \<Rightarrow> None
      | Some i \<Rightarrow> if appendsAfterTarget x tg ss then None else Some (slotRect (ss ! i)))"

definition insertCandidate ::
  "geometry \<Rightarrow> (app \<Rightarrow> bool) \<Rightarrow> int \<Rightarrow> dragTarget \<Rightarrow> dropCompetitor list \<Rightarrow> heap
     \<Rightarrow> dragAndDropHandler \<Rightarrow> heap \<times> dragAndDropHandler" where
  "insertCandidate g initialFav x tg ss h d =
     (let h1 = destroyOptional (candidate d) h;
          created = newAppButton (targetApp h1 tg) (initialFav (targetApp h1 tg)) h1;
          position = dragPosition x tg ss
      in (setParent (AppButton (fst created)) (int position) (snd created),
          d\<lparr>candidatePosition := int position, candidate := Some (fst created),
            slots := Some (case foundRect x tg ss of
                             None \<Rightarrow> ss
                           | Some r \<Rightarrow> spliceAt position
                                        (DropCompetitor g (AppButton (fst created)) (Some r)) ss)\<rparr>))"

definition handleDrag ::
  "geometry \<Rightarrow> (app \<Rightarrow> bool) \<Rightarrow> dragParams option \<Rightarrow> heap \<Rightarrow> dragAndDropHandler
     \<Rightarrow> heap \<times> dragAndDropHandler \<times> component option" where
  "handleDrag g initialFav params h d =
     (case params of
        None \<Rightarrow> (h, d, None)
      | Some p \<Rightarrow>
      (case slots d of
        None \<Rightarrow> (h, d, None)
      | Some allSlots \<Rightarrow>
          if \<not> hasParent d then (h, d, None)
          else
            (let x = parentRectX g + dragX p;
                 ss = pruneSlots h allSlots;
                 d1 = clampCandidate ss d
             in if overOwnPlace x (target p) ss
                then (destroyOptional (candidate d1) h, d1\<lparr>candidate := None\<rparr>,
                      competitorAtPosition x ss)
                else if keepsCandidate x (target p) ss d1
                then (h, d1\<lparr>candidatePosition := int (dragPosition x (target p) ss)\<rparr>,
                      competitorAtPosition x ss)
                else (fst (insertCandidate g initialFav x (target p) ss h d1),
                      snd (insertCandidate g initialFav x (target p) ss h d1),
                      competitorAtPosition x ss))))"

text \<open>\<open>handleDrop()\<close> of the handler: the JavaScript \<open>Set\<close> of the valid competitors, with the
  candidate added when the set does not hold it.\<close>

definition handleDrop ::
  "heap \<Rightarrow> dragAndDropHandler \<Rightarrow> dragAndDropHandler \<times> (bid \<times> component list) option" where
  "handleDrop h d =
     (case slots d of
        None \<Rightarrow> (d, None)
      | Some ss \<Rightarrow>
          (case candidate d of
             None \<Rightarrow> (d, None)
           | Some c \<Rightarrow>
               (let valid = map competitor (filter (\<lambda>s. componentValid h (competitor s)) ss);
                    items = setAdd (setUnion [] valid) (AppButton c)
                in (d\<lparr>candidate := None\<rparr>, Some (c, items)))))"

text \<open>Slot rectangles in ascending \<open>x\<close> order, and the two ways in which a pointer
  position relates to them.\<close>

definition ascendingSlots :: "dropCompetitor list \<Rightarrow> bool" where
  "ascendingSlots ss = sorted (map (\<lambda>s. rect_x (slotRect s)) ss)"

definition insideSomeSlot :: "int \<Rightarrow> dropCompetitor list \<Rightarrow> bool" where
  "insideSomeSlot x ss = (findSlot x ss \<noteq> None)"

definition slotOf :: "nat \<Rightarrow> int \<Rightarrow> int \<Rightarrow> dropCompetitor" where
  "slotOf b x w = \<lparr>competitor = AppButton b,
                  slotRect = \<lparr>rect_x = x, rect_y = 0, rect_width = w, rect_height = 10\<rparr>\<rparr>"

definition sampleHeap :: heap where
  "sampleHeap = \<lparr>buttons = sampleStore, nextButton = 10, separatorValid = True, children = []\<rparr>"

definition sampleGeometry :: geometry where
  "sampleGeometry = \<lparr>rectOf = (\<lambda>c. Some \<lparr>rect_x = 0, rect_y = 0, rect_width = 10, rect_height = 10\<rparr>),
                     boxOf = (\<lambda>c. (0, 0)), parentRectX = 0\<rparr>"

definition sampleHandler :: dragAndDropHandler where
  "sampleHandler = \<lparr>slots = Some [slotOf 5 10 10], hasParent = True, candidate = None,
                    candidatePosition = -1, watching = False\<rparr>"

definition droppingHandler :: dragAndDropHandler where
  "droppingHandler = \<lparr>slots = Some [slotOf 9 0 10, slotOf 5 10 10, slotOf 6 20 10],
                      hasParent = True, candidate = Some 9, candidatePosition = 0, watching = True\<rparr>"

section \<open>Taskbar\<close>

text \<open>
  The keys of the map \<open>#appButtons\<close> are applications, or object literals \<open>{ app }\<close> that
  the code creates as keys no lookup can find; each literal is a new object, numbered by
  the counter \<open>nextKey\<close>.
\<close>

type_synonym workspace = nat

datatype bkey = AppKey app | ObjKey nat

record separatorState =
  sepPosition :: int
  sepIsVisible :: bool

text \<open>
  The fields of \<open>Taskbar\<close> that reconciliation and drag-and-drop use. \<open>placed\<close> holds the
  local \<open>sortedAppButtons\<close> and \<open>sepPosition\<close> the local \<open>separatorPosition\<close> of the last
  reconciliation, as they are handed to the calls of \<open>setParent\<close> of lines 619 to 623; no
  other operation reads them. \<open>dragMode\<close> is \<open>#allocation.isDragMode\<close>.
\<close>

record taskbar =
  appButtons :: "(bkey \<times> bid) list option"
  separatorPosition :: int
  separator :: "separatorState option"
  runningApps :: "(workspace \<times> app list) list"
  dndHandler :: "dragAndDropHandler option"
  placed :: "bid list"
  nextKey :: nat
  dragMode :: bool

text \<open>
  What the taskbar reads from its collaborators at one call: the service
  (services/taskbar.js: \<open>workspace\<close>, \<open>favorites\<close>, \<open>queryApps\<close>), the configuration, the
  layout. \<open>favorites\<close> is \<open>None\<close> when the service has no favorites object, else the ordered
  set \<open>favorites.apps\<close>; \<open>queriedApps\<close> is the result of \<open>queryApps\<close>, \<open>None\<close> for null.
  \<open>initialFavorite\<close> is the value of \<open>isFavorite\<close> of a newly constructed AppButton.
\<close>

record environment =
  hasService :: bool
  workspace :: "workspace option"
  favorites :: "app list option"
  queriedApps :: "app list option"
  canAdd :: "app \<Rightarrow> bool"
  enableSeparator :: bool
  hasAllocation :: bool
  isQueued :: bool
  initialFavorite :: "app \<Rightarrow> bool"

definition getRunningApps :: "environment \<Rightarrow> taskbar \<Rightarrow> taskbar \<times> app list option" where
  "getRunningApps e t =
     (case workspace e of
        None \<Rightarrow> (t, None)
      | Some ws \<Rightarrow>
          if \<not> hasService e then (t, None)
          else
            (case queriedApps e of
               None \<Rightarrow> (t\<lparr>runningApps := mapDelete (runningApps t) ws\<rparr>, None)
             | Some q \<Rightarrow>
                 if q = [] then (t\<lparr>runningApps := mapDelete (runningApps t) ws\<rparr>, Some [])
                 else
                   (case mapGet (runningApps t) ws of
                      None \<Rightarrow> (t\<lparr>runningApps := mapSet (runningApps t) ws q\<rparr>, Some q)
                    | Some oldRunningApps \<Rightarrow>
                        (let newRunningApps = filter (\<lambda>a. a \<in> set q) oldRunningApps;
                             r = setUnion [] (newRunningApps @ q)
                         in (t\<lparr>runningApps := mapSet (runningApps t) ws r\<rparr>, Some r)))))"

text \<open>The set \<open>apps\<close> of lines 566 to 568.\<close>

definition desiredApps :: "environment \<Rightarrow> app list option \<Rightarrow> app list option" where
  "desiredApps e running =
     (case favorites e of
        None \<Rightarrow> running
      | Some f \<Rightarrow> (case running of None \<Rightarrow> Some f | Some r \<Rightarrow> Some (setUnion [] (f @ r))))"

definition isFavoriteChanged :: "environment \<Rightarrow> taskbar \<Rightarrow> heap \<Rightarrow> bid \<Rightarrow> app \<Rightarrow> bool" where
  "isFavoriteChanged e t h b a =
     (case favorites e of
        None \<Rightarrow> False
      | Some f \<Rightarrow> separatorPosition t \<noteq> -1 \<and> isFavorite (buttons h b) \<noteq> (a \<in> set f))"

text \<open>The first loop of \<open>#rerender\<close> (lines 576 to 591) over the desired applications;
  \<open>m\<close> is \<open>this.#appButtons\<close>.\<close>

fun renderApps ::
  "environment \<Rightarrow> taskbar \<Rightarrow> (bkey \<times> bid) list \<Rightarrow> app list \<Rightarrow> heap \<Rightarrow> (bkey \<times> bid) list
     \<Rightarrow> app list \<Rightarrow> bid list \<Rightarrow> heap \<times> (bkey \<times> bid) list \<times> app list \<times> bid list" where
  "renderApps e t m [] h new oldFavorites sortedButtons = (h, new, oldFavorites, sortedButtons)"
| "renderApps e t m (a # rest) h new oldFavorites sortedButtons =
     (case mapGet m (AppKey a) of
        None \<Rightarrow>
          renderApps e t m rest (snd (newAppButton a (initialFavorite e a) h))
            (mapSet new (AppKey a) (fst (newAppButton a (initialFavorite e a) h)))
            oldFavorites (sortedButtons @ [fst (newAppButton a (initialFavorite e a) h)])
      | Some b \<Rightarrow>
          if isValid (buttons h b) \<and> \<not> isFavoriteChanged e t h b a
          then renderApps e t m rest h (mapSet new (AppKey a) b) oldFavorites (sortedButtons @ [b])
          else
            renderApps e t m rest (snd (newAppButton a (initialFavorite e a) h))
              (mapSet new (AppKey a) (fst (newAppButton a (initialFavorite e a) h)))
              (if isValid (buttons h b) then setAdd oldFavorites a else oldFavorites)
              (sortedButtons @ [fst (newAppButton a (initialFavorite e a) h)]))"

text \<open>The second loop (lines 594 to 602) over the entries of \<open>this.#appButtons\<close>, run when
  \<open>oldFavorites\<close> is not empty: it builds \<open>oldAppButtons\<close> and destroys the buttons whose
  favorite status changed.\<close>

fun retireChanged ::
  "app list \<Rightarrow> (bkey \<times> bid) list \<Rightarrow> heap \<Rightarrow> nat \<Rightarrow> (bkey \<times> bid) list
     \<Rightarrow> heap \<times> nat \<times> (bkey \<times> bid) list" where
  "retireChanged oldFavorites [] h n old = (h, n, old)"
| "retireChanged oldFavorites ((k, b) # rest) h n old =
     (case k of
        AppKey a \<Rightarrow>
          if a \<in> set oldFavorites
          then retireChanged oldFavorites rest (destroyButton b h) (Suc n)
                 (mapSet (if \<not> isFavorite (buttons h b) then mapSet old (AppKey a) b else old)
                    (ObjKey n) b)
          else retireChanged oldFavorites rest h n (mapSet old k b)
      | ObjKey j \<Rightarrow> retireChanged oldFavorites rest h n (mapSet old k b))"

text \<open>\<open>new Map([...a, ...b])\<close>.\<close>

definition mapMerge :: "('k \<times> 'v) list \<Rightarrow> ('k \<times> 'v) list \<Rightarrow> ('k \<times> 'v) list" where
  "mapMerge m1 m2 = foldl (\<lambda>m e. mapSet m (fst e) (snd e)) [] (m1 @ m2)"

text \<open>The third loop (lines 610 to 617) over the merged map, with the counter \<open>i\<close>.\<close>

fun mergeRetained ::
  "bool \<Rightarrow> heap \<Rightarrow> (bkey \<times> bid) list \<Rightarrow> int \<Rightarrow> (bkey \<times> bid) list \<Rightarrow> bid list \<Rightarrow> int
     \<Rightarrow> (bkey \<times> bid) list \<times> bid list \<times> int" where
  "mergeRetained hasFavoritesApps h [] i new sortedButtons sp = (new, sortedButtons, sp)"
| "mergeRetained hasFavoritesApps h ((k, b) # rest) i new sortedButtons sp =
     (if \<not> isValid (buttons h b) then mergeRetained hasFavoritesApps h rest i new sortedButtons sp
      else if mapHas new k then mergeRetained hasFavoritesApps h rest (i + 1) new sortedButtons sp
      else mergeRetained hasFavoritesApps h rest (i + 1) (mapSet new k b)
             (spliceAt (nat (i + 1)) b sortedButtons)
             (if hasFavoritesApps \<and> isFavorite (buttons h b) then sp + 1 else sp))"

definition favoriteAppsSize :: "environment \<Rightarrow> nat" where
  "favoriteAppsSize e = (case favorites e of None \<Rightarrow> 0 | Some f \<Rightarrow> length f)"

text \<open>Lines 571 to 618 and 624 to 626 of \<open>#rerender\<close>, for the non-empty set \<open>apps\<close>: the
  three loops and the visibility of the separator; \<open>t\<close> is the taskbar at the call, \<open>t1\<close> the
  taskbar after \<open>#getRunningApps\<close>.\<close>

definition reconcile ::
  "environment \<Rightarrow> taskbar \<Rightarrow> taskbar \<Rightarrow> (bkey \<times> bid) list \<Rightarrow> app list \<Rightarrow> heap \<Rightarrow> heap \<times> taskbar" where
  "reconcile e t t1 m apps h =
     (let hasFavoritesApps = (favorites e \<noteq> None);
          r1 = renderApps e t m apps h [] [] [];
          h1 = fst r1;
          new = fst (snd r1);
          oldFavorites = fst (snd (snd r1));
          sortedButtons = snd (snd (snd r1));
          r2 = (if oldFavorites = [] then (h1, nextKey t, m)
                else retireChanged oldFavorites m h1 (nextKey t) []);
          h2 = fst r2;
          sp = (if hasFavoritesApps then int (favoriteAppsSize e) else -1);
          merged = mapMerge (snd (snd r2)) new;
          r3 = (if length merged \<noteq> length new
                then mergeRetained hasFavoritesApps h2 merged (-1) new sortedButtons sp
                else (new, sortedButtons, sp));
          t2 = t1\<lparr>appButtons := Some (fst r3), separatorPosition := sp,
                  placed := fst (snd r3), nextKey := fst (snd r2)\<rparr>
      in (h2,
          case separator t of
            None \<Rightarrow> t2
          | Some s \<Rightarrow>
              t2\<lparr>separator := Some \<lparr>sepPosition = snd (snd r3),
                     sepIsVisible = (enableSeparator e \<and> favoriteAppsSize e > 0
                                     \<and> length apps > favoriteAppsSize e)\<rparr>\<rparr>))"

text \<open>Lines 619 to 623: \<open>sortedAppButtons[i].setParent(this, i)\<close> for every index, then,
  when there is a separator, \<open>#separator.setParent(this, separatorPosition)\<close>.\<close>

fun placeButtons :: "nat \<Rightarrow> bid list \<Rightarrow> heap \<Rightarrow> heap" where
  "placeButtons i [] h = h"
| "placeButtons i (b # bs) h = placeButtons (Suc i) bs (setParent (AppButton b) (int i) h)"

definition placeItems :: "heap \<times> taskbar \<Rightarrow> heap \<times> taskbar" where
  "placeItems w =
     (case separator (snd w) of
        None \<Rightarrow> (placeButtons 0 (placed (snd w)) (fst w), snd w)
      | Some s \<Rightarrow>
          (setParent Separator (sepPosition s) (placeButtons 0 (placed (snd w)) (fst w)), snd w))"

definition rerender :: "environment \<Rightarrow> heap \<times> taskbar \<Rightarrow> heap \<times> taskbar" where
  "rerender e w =
     (case appButtons (snd w) of
        None \<Rightarrow> w
      | Some m \<Rightarrow>
          if \<not> hasAllocation e \<or> isQueued e then w
          else
            (case desiredApps e (snd (getRunningApps e (snd w))) of
               None \<Rightarrow> (fst w, fst (getRunningApps e (snd w)))
             | Some apps \<Rightarrow>
                 if apps = [] then (fst w, fst (getRunningApps e (snd w)))
                 else placeItems
                        (reconcile e (snd w) (fst (getRunningApps e (snd w))) m apps (fst w))))"

text \<open>\<open>#handleDragOver(target, params)\<close>. A \<open>target\<close> without an application is \<open>None\<close>, and
  so are missing \<open>params\<close>. The calls \<open>Context.jobs.removeAll\<close>, \<open>#separator.toggle()\<close> and
  \<open>scrollToActor\<close> act on collaborators that are not part of this model.\<close>

definition handleDragOver ::
  "environment \<Rightarrow> geometry \<Rightarrow> dragTarget option \<Rightarrow> (int \<times> int) option \<Rightarrow> heap \<times> taskbar
     \<Rightarrow> heap \<times> taskbar" where
  "handleDragOver e g tgt params w =
     (case (tgt, params, appButtons (snd w), separator (snd w)) of
        (Some tg, Some xy, Some m, Some s) \<Rightarrow>
          if (case tg of TargetButton b \<Rightarrow> \<not> isValid (buttons (fst w) b) | TargetExternal a \<Rightarrow> False)
          then w
          else
            (let tg' = (case tg of
                          TargetButton b \<Rightarrow> tg
                        | TargetExternal a \<Rightarrow>
                            (case mapGet m (AppKey a) of
                               None \<Rightarrow> tg
                             | Some b \<Rightarrow> if isValid (buttons (fst w) b) then TargetButton b else tg));
                 competitors = map (\<lambda>en. AppButton (snd en)) m;
                 t1 = (case dndHandler (snd w) of
                         Some d \<Rightarrow> snd w
                       | None \<Rightarrow>
                           (snd w)\<lparr>dragMode := True,
                                   dndHandler := Some (newDragAndDropHandler g (fst w)
                                     (if favorites e \<noteq> None \<and> separatorPosition (snd w) \<ge> 0
                                      then spliceAt (nat (separatorPosition (snd w))) Separator competitors
                                      else competitors))\<rparr>);
                 r = (case dndHandler t1 of
                        None \<Rightarrow> (fst w, None)
                      | Some d \<Rightarrow>
                          (fst (handleDrag g (initialFavorite e)
                                  (Some \<lparr>dragX = fst xy, dragY = snd xy, target = tg'\<rparr>) (fst w) d),
                           Some (fst (snd (handleDrag g (initialFavorite e)
                                  (Some \<lparr>dragX = fst xy, dragY = snd xy, target = tg'\<rparr>) (fst w) d)))))
             in (fst r, t1\<lparr>dndHandler := snd r\<rparr>))
      | _ \<Rightarrow> w)"

text \<open>The loop of \<open>Taskbar.#handleDrop\<close> (lines 514 to 530) over the dropped items, with
  the index \<open>i\<close>; \<open>c\<close> is the candidate, \<open>ca\<close> its application, \<open>old\<close> the button that
  \<open>#appButtons\<close> holds for that application.\<close>

fun collectSlots ::
  "heap \<Rightarrow> bid \<Rightarrow> app \<Rightarrow> bid option \<Rightarrow> component list \<Rightarrow> int \<Rightarrow> app list \<Rightarrow> (bkey \<times> bid) list
     \<Rightarrow> int \<Rightarrow> int \<Rightarrow> nat \<Rightarrow> app list \<times> (bkey \<times> bid) list \<times> int \<times> int \<times> nat" where
  "collectSlots h c ca old [] i apps ab cp sp n = (apps, ab, cp, sp, n)"
| "collectSlots h c ca old (actor # rest) i apps ab cp sp n =
     (case actor of
        Separator \<Rightarrow> collectSlots h c ca old rest (i + 1) apps ab cp i n
      | Other j \<Rightarrow> collectSlots h c ca old rest (i + 1) apps ab cp sp n
      | AppButton b \<Rightarrow>
          if b = c
          then collectSlots h c ca old rest (i + 1) (setAdd apps (app (buttons h b)))
                 (mapSet ab (AppKey (app (buttons h b))) b) i sp n
          else if app (buttons h b) = ca
          then (if old = Some b
                then collectSlots h c ca old rest (i + 1) apps (mapSet ab (ObjKey n) b) cp sp (Suc n)
                else collectSlots h c ca old rest (i + 1) apps ab cp sp n)
          else collectSlots h c ca old rest (i + 1) (setAdd apps (app (buttons h b)))
                 (mapSet ab (AppKey (app (buttons h b))) b) cp sp n)"

fun indexOf :: "'a list \<Rightarrow> 'a \<Rightarrow> int" where
  "indexOf [] v = -1"
| "indexOf (x # xs) v = (if x = v then 0 else if indexOf xs v < 0 then -1 else indexOf xs v + 1)"

text \<open>The calls made on the favorites object (services/favorites, not in the sources).\<close>

datatype favoritesRequest = FavoritesAdd app int | FavoritesRemove app

text \<open>Modelled from the spec: \<open>AppButton.drop()\<close>, which is missing, turns the candidate into
  a regular item; by the drop scenarios of section 8 of the spec its \<open>isFavorite\<close> becomes
  true when it was dropped before the separator.\<close>

definition dropButton :: "bid \<Rightarrow> bool \<Rightarrow> heap \<Rightarrow> heap" where
  "dropButton b fav h = h\<lparr>buttons := (buttons h)(b := (buttons h b)\<lparr>isFavorite := fav\<rparr>)\<rparr>"

text \<open>\<open>Taskbar.#handleDrop()\<close>: the new state, the returned boolean, and the call made on
  the favorites object, if any.\<close>

definition taskbarHandleDrop ::
  "environment \<Rightarrow> heap \<times> taskbar \<Rightarrow> (heap \<times> taskbar) \<times> bool \<times> favoritesRequest option" where
  "taskbarHandleDrop e w =
     (case dndHandler (snd w) of
        None \<Rightarrow> (w, False, None)
      | Some d \<Rightarrow>
          (case snd (handleDrop (fst w) d) of
             None \<Rightarrow> (w, False, None)
           | Some (c, items) \<Rightarrow>
               (let h = fst w;
                    t1 = (snd w)\<lparr>dndHandler := Some (fst (handleDrop (fst w) d))\<rparr>;
                    candidateApp = app (buttons h c)
                in case (if hasService e then workspace e else None) of
                     None \<Rightarrow> ((h, t1), True, None)
                   | Some ws \<Rightarrow>
                       (let oldAppButton = (case appButtons t1 of
                                              None \<Rightarrow> None
                                            | Some m \<Rightarrow> mapGet m (AppKey candidateApp));
                            r = collectSlots h c candidateApp oldAppButton items 0 [] []
                                  (-1) (-1) (nextKey t1);
                            apps = fst r;
                            candidatePos = fst (snd (snd r));
                            separatorPos = fst (snd (snd (snd r)));
                            isFav = (candidatePos < separatorPos)
                        in if isFav \<and> \<not> (favorites e \<noteq> None \<and> canAdd e candidateApp)
                           then ((destroyButton c h, t1), True, None)
                           else
                             ((dropButton c isFav (destroyOptional oldAppButton h),
                               t1\<lparr>runningApps := mapSet (runningApps t1) ws apps,
                                  appButtons := Some (fst (snd r)),
                                  nextKey := snd (snd (snd (snd r))),
                                  dndHandler := (if oldAppButton \<noteq> None \<and> separatorPos > 0
                                                 then None else dndHandler t1)\<rparr>),
                              True,
                              if favorites e = None then None
                              else Some (if isFav then FavoritesAdd candidateApp (indexOf apps candidateApp)
                                         else FavoritesRemove candidateApp))))))"

text \<open>The end of a drag: the drag actor is destroyed, the handler destroys itself and its
  candidate and calls \<open>#handleDragEnd\<close>. While a drag lasts, \<open>#handleDragActorPosition\<close>
  destroys the candidate when the drag actor leaves the container.\<close>

definition dragActorDestroyed :: "heap \<times> taskbar \<Rightarrow> heap \<times> taskbar" where
  "dragActorDestroyed w =
     (case dndHandler (snd w) of
        None \<Rightarrow> (fst w, (snd w)\<lparr>dragMode := False\<rparr>)
      | Some d \<Rightarrow> (fst (dndDestroy (fst w) d), (snd w)\<lparr>dragMode := False, dndHandler := None\<rparr>))"

definition dragActorLeft :: "heap \<times> taskbar \<Rightarrow> heap \<times> taskbar" where
  "dragActorLeft w =
     (case dndHandler (snd w) of
        None \<Rightarrow> w
      | Some d \<Rightarrow> (destroyOptional (candidate d) (fst w),
                    (snd w)\<lparr>dndHandler := Some (d\<lparr>candidate := None\<rparr>)\<rparr>))"

section \<open>Sequences of operations\<close>

datatype operation =
    Rerender environment
  | DragOver environment geometry dragTarget int int
  | Drop environment
  | DragActorDestroyed
  | DragActorLeft
  | ButtonDestroyed bid

fun step :: "operation \<Rightarrow> heap \<times> taskbar \<Rightarrow> heap \<times> taskbar" where
  "step (Rerender e) w = rerender e w"
| "step (DragOver e g tg x y) w = handleDragOver e g (Some tg) (Some (x, y)) w"
| "step (Drop e) w = fst (taskbarHandleDrop e w)"
| "step DragActorDestroyed w = dragActorDestroyed w"
| "step DragActorLeft w = dragActorLeft w"
| "step (ButtonDestroyed b) w = (destroyButton b (fst w), snd w)"

definition run :: "operation list \<Rightarrow> heap \<times> taskbar \<Rightarrow> heap \<times> taskbar" where
  "run ops w = foldl (\<lambda>v op. step op v) w ops"

definition emptyHeap :: heap where
  "emptyHeap = \<lparr>buttons = (\<lambda>b. \<lparr>app = 0, isFavorite = False, isValid = False\<rparr>),
                nextButton = 0, separatorValid = True, children = []\<rparr>"

definition newTaskbar :: taskbar where
  "newTaskbar = \<lparr>appButtons = Some [], separatorPosition = -1,
                 separator = Some \<lparr>sepPosition = -1, sepIsVisible = False\<rparr>,
                 runningApps = [], dndHandler = None, placed = [], nextKey = 0, dragMode = False\<rparr>"

definition initialWorld :: "heap \<times> taskbar" where
  "initialWorld = (emptyHeap, newTaskbar)"

section \<open>Predicates of the claims\<close>

definition trackedButtons :: "taskbar \<Rightarrow> bid list" where
  "trackedButtons t = (case appButtons t of None \<Rightarrow> [] | Some m \<Rightarrow> map snd m)"

definition dragCandidate :: "taskbar \<Rightarrow> bid list" where
  "dragCandidate t =
     (case dndHandler t of
        None \<Rightarrow> []
      | Some d \<Rightarrow> (case candidate d of None \<Rightarrow> [] | Some c \<Rightarrow> [c]))"

definition validButtons :: "heap \<Rightarrow> bid list \<Rightarrow> bid list" where
  "validButtons h bs = filter (\<lambda>b. isValid (buttons h b)) bs"

definition appsOf :: "heap \<Rightarrow> bid list \<Rightarrow> app list" where
  "appsOf h bs = map (\<lambda>b. app (buttons h b)) bs"

text \<open>The AppButton objects that have been constructed are those below \<open>nextButton\<close>.
  No duplicate items, as the second claim words it: the valid AppButtons are bound to
  pairwise different applications.\<close>

definition allButtons :: "heap \<Rightarrow> bid list" where
  "allButtons h = [0..<nextButton h]"

definition noDuplicateItems :: "heap \<times> taskbar \<Rightarrow> bool" where
  "noDuplicateItems w = distinct (appsOf (fst w) (validButtons (fst w) (allButtons (fst w))))"

text \<open>The same without the candidate of the running drag: the valid AppButtons other
  than the candidate are bound to pairwise different applications.\<close>

definition settledButtons :: "heap \<times> taskbar \<Rightarrow> bid list" where
  "settledButtons w =
     filter (\<lambda>b. b \<notin> set (dragCandidate (snd w))) (validButtons (fst w) (allButtons (fst w)))"

definition noDuplicateSettled :: "heap \<times> taskbar \<Rightarrow> bool" where
  "noDuplicateSettled w = distinct (appsOf (fst w) (settledButtons w))"

text \<open>The favorites and the query result are JavaScript sets: they hold no application
  twice.\<close>

definition setsOk :: "environment \<Rightarrow> bool" where
  "setsOk e =
     ((case favorites e of None \<Rightarrow> True | Some f \<Rightarrow> distinct f)
      \<and> (case queriedApps e of None \<Rightarrow> True | Some q \<Rightarrow> distinct q))"

text \<open>A drop finds a workspace, and the slots of the handler hold every valid button of
  \<open>#appButtons\<close>: no button has come into the map since the handler took its snapshot of
  the competitors.\<close>

definition dropCovered :: "environment \<Rightarrow> heap \<times> taskbar \<Rightarrow> bool" where
  "dropCovered e w =
     (hasService e \<and> workspace e \<noteq> None
      \<and> (case dndHandler (snd w) of
            None \<Rightarrow> True
          | Some d \<Rightarrow>
              (case slots d of
                 None \<Rightarrow> True
               | Some ss \<Rightarrow>
                   \<forall>b \<in> set (validButtons (fst w) (trackedButtons (snd w))).
                      AppButton b \<in> set (map competitor ss))))"

text \<open>The sequences of operations of the amended second claim: every reconciliation
  reads sets, and every drop is covered.\<close>

definition admissible :: "operation \<Rightarrow> heap \<times> taskbar \<Rightarrow> bool" where
  "admissible op w = (case op of Rerender e \<Rightarrow> setsOk e | Drop e \<Rightarrow> dropCovered e w | _ \<Rightarrow> True)"

fun disciplined :: "operation list \<Rightarrow> heap \<times> taskbar \<Rightarrow> bool" where
  "disciplined [] w = True"
| "disciplined (op # ops) w = (admissible op w \<and> disciplined ops (step op w))"

text \<open>Every valid AppButton is a value of the map \<open>#appButtons\<close> or the candidate of the
  running drag.\<close>

definition allTracked :: "heap \<times> taskbar \<Rightarrow> bool" where
  "allTracked w =
     (\<forall>b \<in> set (validButtons (fst w) (allButtons (fst w))).
        b \<in> set (trackedButtons (snd w)) \<or> b \<in> set (dragCandidate (snd w)))"

text \<open>The consistency of the map \<open>#appButtons\<close> with the store: keys are distinct, a button
  under an application key is bound to that application, a button under an object key has
  been destroyed, and every button the taskbar or its drag handler refers to has been
  allocated.\<close>

definition entryOk :: "heap \<Rightarrow> bkey \<times> bid \<Rightarrow> bool" where
  "entryOk h en =
     (snd en < nextButton h
      \<and> (case fst en of
            AppKey a \<Rightarrow> app (buttons h (snd en)) = a
          | ObjKey n \<Rightarrow> \<not> isValid (buttons h (snd en))))"

definition componentAllocated :: "heap \<Rightarrow> component \<Rightarrow> bool" where
  "componentAllocated h c = (case c of AppButton b \<Rightarrow> b < nextButton h | _ \<Rightarrow> True)"

definition handlerOk :: "heap \<Rightarrow> dragAndDropHandler \<Rightarrow> bool" where
  "handlerOk h d =
     ((case slots d of None \<Rightarrow> True | Some ss \<Rightarrow> \<forall>s \<in> set ss. componentAllocated h (competitor s))
      \<and> (case candidate d of None \<Rightarrow> True | Some c \<Rightarrow> c < nextButton h))"

definition wellTracked :: "heap \<times> taskbar \<Rightarrow> bool" where
  "wellTracked w =
     ((case appButtons (snd w) of
         None \<Rightarrow> True
       | Some m \<Rightarrow> distinct (map fst m) \<and> (\<forall>en \<in> set m. entryOk (fst w) en))
      \<and> (case dndHandler (snd w) of None \<Rightarrow> True | Some d \<Rightarrow> handlerOk (fst w) d))"


text \<open>Sample collaborators and geometry: buttons ten pixels wide, the button with address
  \<open>b\<close> at \<open>x = 10 * b\<close>.\<close>

definition sampleEnv :: "app list option \<Rightarrow> app list option \<Rightarrow> environment" where
  "sampleEnv f q =
     \<lparr>hasService = True, workspace = Some 0, favorites = f, queriedApps = q,
      canAdd = (\<lambda>a. False), enableSeparator = True, hasAllocation = True, isQueued = False,
      initialFavorite = (\<lambda>a. case f of None \<Rightarrow> False | Some fs \<Rightarrow> a \<in> set fs)\<rparr>"

definition rowGeometry :: geometry where
  "rowGeometry =
     \<lparr>rectOf = (\<lambda>c. Some \<lparr>rect_x = 0, rect_y = 0,
                           rect_width = (case c of Separator \<Rightarrow> 2 | _ \<Rightarrow> 10), rect_height = 10\<rparr>),
      boxOf = (\<lambda>c. case c of AppButton b \<Rightarrow> (int b * 10, 0) | _ \<Rightarrow> (100, 0)),
      parentRectX = 0\<rparr>"

text \<open>Sample worlds: one favorite and one running application, and the same world while
  the running application's button is dragged over the favorite's.\<close>

definition separatedWorld :: "heap \<times> taskbar" where
  "separatedWorld = run [Rerender (sampleEnv (Some [1]) (Some [1, 2]))] initialWorld"


text \<open>How the store may change from one state to a later one: buttons are allocated, an
  allocated button keeps its application, and a destroyed button stays destroyed.\<close>

definition heapEvolves :: "heap \<Rightarrow> heap \<Rightarrow> bool" where
  "heapEvolves h h' =
     (nextButton h \<le> nextButton h'
      \<and> (\<forall>b < nextButton h. app (buttons h' b) = app (buttons h b)
                              \<and> (isValid (buttons h' b) \<longrightarrow> isValid (buttons h b))))"

section \<open>Predicates for the reconciliation claims\<close>

text \<open>The desired set of a call of \<open>#rerender\<close> in the taskbar state \<open>t\<close>.\<close>

definition desiredOf :: "environment \<Rightarrow> taskbar \<Rightarrow> app list" where
  "desiredOf e t =
     (case desiredApps e (snd (getRunningApps e t)) of None \<Rightarrow> [] | Some apps \<Rightarrow> apps)"

text \<open>The call completes: it passes the guards of line 563 and the desired set is not
  empty.\<close>

definition completes :: "environment \<Rightarrow> heap \<times> taskbar \<Rightarrow> bool" where
  "completes e w =
     (appButtons (snd w) \<noteq> None \<and> hasAllocation e \<and> \<not> isQueued e \<and> desiredOf e (snd w) \<noteq> [])"

text \<open>The separator invariant as the first claim words it, for the container after the
  reconciliation of \<open>w\<close>: every favorite AppButton has a smaller index than every AppButton
  that is not a favorite, the separator's index is the number of favorites of the desired
  set, and the separator is visible exactly when it is enabled, there is a favorite, and
  there are more applications than favorites. \<open>fav\<close> tells the favorite buttons:
  in \<open>separatorClaim\<close> by the getter \<open>isFavorite\<close>, in \<open>separatorClaimByApp\<close> by the membership of
  the button's application in the favorites list.\<close>

definition favoritesFirst :: "(bid \<Rightarrow> bool) \<Rightarrow> component list \<Rightarrow> bool" where
  "favoritesFirst fav cs =
     (\<forall>i < length cs. \<forall>j < length cs.
        (case cs ! i of AppButton b \<Rightarrow> fav b | _ \<Rightarrow> False)
        \<and> (case cs ! j of AppButton b \<Rightarrow> \<not> fav b | _ \<Rightarrow> False)
          \<longrightarrow> i < j)"

definition separatorVisible :: "environment \<Rightarrow> heap \<times> taskbar \<Rightarrow> bool" where
  "separatorVisible e w =
     (case separator (snd (rerender e w)) of
        None \<Rightarrow> False
      | Some s \<Rightarrow>
          sepIsVisible s = (enableSeparator e \<and> favoriteAppsSize e > 0
                            \<and> length (desiredOf e (snd w)) > favoriteAppsSize e))"

definition separatorIndexed :: "environment \<Rightarrow> heap \<times> taskbar \<Rightarrow> bool" where
  "separatorIndexed e w =
     (indexOf (children (fst (rerender e w))) Separator = int (favoriteAppsSize e))"

definition separatorClaim :: "environment \<Rightarrow> heap \<times> taskbar \<Rightarrow> bool" where
  "separatorClaim e w =
     (favoritesFirst (\<lambda>b. isFavorite (buttons (fst (rerender e w)) b))
        (children (fst (rerender e w)))
      \<and> separatorIndexed e w \<and> separatorVisible e w)"

definition separatorClaimByApp :: "environment \<Rightarrow> heap \<times> taskbar \<Rightarrow> bool" where
  "separatorClaimByApp e w =
     (favoritesFirst
        (\<lambda>b. app (buttons (fst (rerender e w)) b)
                \<in> set (case favorites e of None \<Rightarrow> [] | Some f \<Rightarrow> f))
        (children (fst (rerender e w)))
      \<and> separatorIndexed e w \<and> separatorVisible e w)"

text \<open>Every AppButton in the container is a valid button of \<open>#appButtons\<close>: the container
  holds neither a drag candidate nor a button that the map has lost.\<close>

definition onlyTracked :: "heap \<times> taskbar \<Rightarrow> bool" where
  "onlyTracked w =
     (\<forall>c \<in> set (children (fst w)).
        case c of
          AppButton b \<Rightarrow> isValid (buttons (fst w) b) \<and> b \<in> set (trackedButtons (snd w))
        | _ \<Rightarrow> True)"

text \<open>Idempotence as the third claim words it. The second of two calls with the same
  collaborators creates no AppButton and destroys none (\<open>sameButtons\<close> of the stores after
  the first and after the second call), and it leaves the order of the container as it
  is.\<close>

definition sameButtons :: "heap \<Rightarrow> heap \<Rightarrow> bool" where
  "sameButtons h h' =
     (nextButton h' = nextButton h
      \<and> (\<forall>b < nextButton h. isValid (buttons h' b) = isValid (buttons h b)))"

definition rerenderIdempotent :: "environment \<Rightarrow> heap \<times> taskbar \<Rightarrow> bool" where
  "rerenderIdempotent e w =
     (sameButtons (fst (rerender e w)) (fst (rerender e (rerender e w)))
      \<and> children (fst (rerender e (rerender e w))) = children (fst (rerender e w)))"

text \<open>No valid button of \<open>#appButtons\<close> is bound to an application outside the desired set
  (no button of a leaving application is still alive).\<close>

definition noRetained :: "environment \<Rightarrow> heap \<times> taskbar \<Rightarrow> bool" where
  "noRetained e w =
     (case appButtons (snd w) of
        None \<Rightarrow> True
      | Some m \<Rightarrow>
          \<forall>en \<in> set m. isValid (buttons (fst w) (snd en))
             \<longrightarrow> (\<exists>a \<in> set (desiredOf e (snd w)). fst en = AppKey a))"

text \<open>The constructor of \<open>AppButton\<close> agrees with the favorites: a new button reports
  \<open>isFavorite\<close> exactly when its application is in the favorites list.\<close>

definition constructorAgrees :: "environment \<Rightarrow> bool" where
  "constructorAgrees e =
     (case favorites e of None \<Rightarrow> True | Some f \<Rightarrow> \<forall>a. initialFavorite e a = (a \<in> set f))"

text \<open>The buttons of a taskbar that has not yet reconciled with a favorites list
  (\<open>#separatorPosition\<close> is -1) agree with the favorites: a valid button of \<open>#appButtons\<close>
  reports \<open>isFavorite\<close> exactly when its application is in the list.\<close>

definition flagsSettled :: "environment \<Rightarrow> heap \<times> taskbar \<Rightarrow> bool" where
  "flagsSettled e w =
     (case favorites e of
        None \<Rightarrow> True
      | Some f \<Rightarrow>
          separatorPosition (snd w) = -1 \<longrightarrow>
            (case appButtons (snd w) of
               None \<Rightarrow> True
             | Some m \<Rightarrow>
                 \<forall>en \<in> set m. isValid (buttons (fst w) (snd en))
                    \<longrightarrow> isFavorite (buttons (fst w) (snd en))
                          = (app (buttons (fst w) (snd en)) \<in> set f)))"

text \<open>Auxiliary predicates on the first loop: the application's old button is valid and
  its favorite status changed; the entry was produced by the loop from the store \<open>h\<close>,
  either as a reused button of \<open>m\<close> or as a new button.\<close>

definition flippedApp :: "environment \<Rightarrow> taskbar \<Rightarrow> (bkey \<times> bid) list \<Rightarrow> heap \<Rightarrow> app \<Rightarrow> bool" where
  "flippedApp e t m h a =
     (case mapGet m (AppKey a) of
        None \<Rightarrow> False
      | Some b \<Rightarrow> isValid (buttons h b) \<and> isFavoriteChanged e t h b a)"

definition renderedFrom ::
  "environment \<Rightarrow> taskbar \<Rightarrow> (bkey \<times> bid) list \<Rightarrow> heap \<Rightarrow> heap \<Rightarrow> bkey \<times> bid \<Rightarrow> bool" where
  "renderedFrom e t m h h1 en =
     (case fst en of
        ObjKey j \<Rightarrow> False
      | AppKey a \<Rightarrow>
          if snd en < nextButton h
          then mapGet m (AppKey a) = Some (snd en) \<and> isValid (buttons h (snd en))
               \<and> \<not> isFavoriteChanged e t h (snd en) a
          else snd en < nextButton h1
               \<and> buttons h1 (snd en) = \<lparr>app = a, isFavorite = initialFavorite e a, isValid = True\<rparr>)"

text \<open>A sample drag session: the applications 1 (a favorite) and 2 are shown, the button
  of application 2 is dragged over the button of application 1 and dropped there, the
  favorites accept it, the drag actor is destroyed, and the taskbar reconciles with the
  new favorites.\<close>

definition sampleSession :: "operation list" where
  "sampleSession =
     [Rerender (sampleEnv (Some [1]) (Some [1, 2])),
      DragOver (sampleEnv (Some [1]) (Some [1, 2])) rowGeometry (TargetButton 1) 5 0,
      Drop ((sampleEnv (Some [1]) (Some [1, 2]))\<lparr>canAdd := (\<lambda>a. True)\<rparr>),
      DragActorDestroyed,
      Rerender (sampleEnv (Some [2, 1]) (Some [1, 2]))]"

section \<open>Properties of the allocation manager\<close>

lemma allocationLoop_button:
  "allocationLoop h ((AppButton b, z) # rest) apps r =
     (if seen apps (app (h b)) \<ge> APP_ALLOCATION_THRESHOLD then allocationLoop h rest apps r
      else allocationLoop h rest (apps(app (h b) \<mapsto> seen apps (app (h b)) + 1)) (r + z))"
  by (simp add: seen_def Let_def)

lemma allocationLoop_other:
  "\<not> isAppButton (s, z) \<Longrightarrow>
   allocationLoop h ((s, z) # rest) apps r = allocationLoop h rest apps (r + z)"
  by (cases s) (simp_all add: isAppButton_def)

declare allocationLoop.simps(2) [simp del]

lemma allocationLoop_shift:
  "allocationLoop h m apps (r + k) = allocationLoop h m apps r + k"
proof (induction m arbitrary: apps r)
  case Nil
  show ?case by simp
next
  case (Cons e m)
  obtain s z where e: "e = (s, z)" by (cases e)
  have swap: "r + k + z = r + z + k" by simp
  show ?case
  proof (cases "isAppButton (s, z)")
    case True
    then obtain b where s: "s = AppButton b"
      by (cases s) (simp_all add: isAppButton_def)
    show ?thesis
      unfolding e s allocationLoop_button swap
      by (simp only: Cons.IH if_distrib [of "\<lambda>v. v + k"] cong: if_cong)
  next
    case False
    then show ?thesis
      unfolding e by (simp add: allocationLoop_other swap Cons.IH)
  qed
qed

lemma boundTo_button: "boundTo h a (AppButton b, z) = (app (h b) = a)"
  by (simp add: boundTo_def)

lemma boundTo_isAppButton: "boundTo h a e \<Longrightarrow> isAppButton e"
  by (cases "fst e") (simp_all add: boundTo_def isAppButton_def)

lemma allocationLoop_indep:
  "\<forall>e \<in> set m. \<not> boundTo h a e \<Longrightarrow>
   allocationLoop h m (apps(a := v)) r = allocationLoop h m apps r"
proof (induction m arbitrary: apps r)
  case Nil
  show ?case by simp
next
  case (Cons e m)
  obtain s z where e: "e = (s, z)" by (cases e)
  from Cons.prems have rest: "\<forall>e \<in> set m. \<not> boundTo h a e" by simp
  show ?case
  proof (cases "isAppButton (s, z)")
    case True
    then obtain b where s: "s = AppButton b"
      by (cases s) (simp_all add: isAppButton_def)
    from Cons.prems have ne: "app (h b) \<noteq> a" by (simp add: e s boundTo_button)
    have sn: "seen (apps(a := v)) (app (h b)) = seen apps (app (h b))"
      using ne by (simp add: seen_def)
    have upd: "\<And>c. (apps(a := v))(app (h b) \<mapsto> c) = (apps(app (h b) \<mapsto> c))(a := v)"
      using ne by (simp add: fun_upd_twist)
    show ?thesis
      unfolding e s allocationLoop_button sn upd
      by (simp only: Cons.IH [OF rest])
  next
    case False
    have "allocationLoop h ((s, z) # m) (apps(a := v)) r = allocationLoop h m (apps(a := v)) (r + z)"
      by (rule allocationLoop_other [OF False])
    also have "\<dots> = allocationLoop h m apps (r + z)"
      by (rule Cons.IH [OF rest])
    also have "\<dots> = allocationLoop h ((s, z) # m) apps r"
      by (rule allocationLoop_other [OF False, symmetric])
    finally show ?thesis unfolding e .
  qed
qed

lemma allocationLoop_split:
  "allocationLoop h m apps r =
     allocationLoop h (filter (\<lambda>e. \<not> boundTo h a e) m) apps r
       + sum_list (take (APP_ALLOCATION_THRESHOLD - seen apps a) (map snd (filter (boundTo h a) m)))"
proof (induction m arbitrary: apps r)
  case Nil
  show ?case by simp
next
  case (Cons e m)
  obtain s z where e: "e = (s, z)" by (cases e)
  let ?rest = "filter (\<lambda>e. \<not> boundTo h a e) m"
  let ?mine = "map snd (filter (boundTo h a) m)"
  show ?case
  proof (cases "isAppButton (s, z)")
    case False
    then have nb: "\<not> boundTo h a (s, z)" using boundTo_isAppButton by blast
    show ?thesis
      unfolding e using False nb
      by (simp add: allocationLoop_other Cons.IH)
  next
    case True
    then obtain b where s: "s = AppButton b"
      by (cases s) (simp_all add: isAppButton_def)
    show ?thesis
    proof (cases "app (h b) = a")
      case ne: False
      have sn: "\<And>c. seen (apps(app (h b) \<mapsto> c)) a = seen apps a"
        using ne by (simp add: seen_def)
      have nb: "\<not> boundTo h a (AppButton b, z)" using ne by (simp add: boundTo_button)
      show ?thesis
        unfolding e s using nb
        by (simp add: allocationLoop_button sn Cons.IH del: fun_upd_apply)
    next
      case eq: True
      have yb: "boundTo h a (AppButton b, z)" using eq by (simp add: boundTo_button)
      show ?thesis
      proof (cases "seen apps a \<ge> APP_ALLOCATION_THRESHOLD")
        case True
        then show ?thesis
          unfolding e s using yb eq
          by (simp add: allocationLoop_button Cons.IH)
      next
        case False
        then obtain k where k: "APP_ALLOCATION_THRESHOLD - seen apps a = Suc k"
          by (cases "APP_ALLOCATION_THRESHOLD - seen apps a") simp_all
        have k': "APP_ALLOCATION_THRESHOLD - seen (apps(a \<mapsto> seen apps a + 1)) a = k"
          using k by (simp add: seen_def)
        have none: "\<forall>e \<in> set ?rest. \<not> boundTo h a e" by simp
        have "allocationLoop h ((AppButton b, z) # m) apps r
                = allocationLoop h m (apps(a \<mapsto> seen apps a + 1)) (r + z)"
          using False eq by (simp add: allocationLoop_button)
        also have "\<dots> = allocationLoop h ?rest (apps(a \<mapsto> seen apps a + 1)) (r + z)
                           + sum_list (take k ?mine)"
          using Cons.IH [of "apps(a \<mapsto> seen apps a + 1)" "r + z"] by (simp only: k')
        also have "allocationLoop h ?rest (apps(a \<mapsto> seen apps a + 1)) (r + z)
                     = allocationLoop h ?rest apps r + z"
          by (simp only: allocationLoop_indep [OF none] allocationLoop_shift)
        finally show ?thesis
          unfolding e s using yb by (simp add: k)
      qed
    qed
  qed
qed

lemma allocationLoop_others:
  "allocationLoop h m apps r =
     allocationLoop h (filter isAppButton m) apps r
       + sum_list (map snd (filter (\<lambda>e. \<not> isAppButton e) m))"
proof (induction m arbitrary: apps r)
  case Nil
  show ?case by simp
next
  case (Cons e m)
  obtain s z where e: "e = (s, z)" by (cases e)
  show ?case
  proof (cases "isAppButton (s, z)")
    case False
    then show ?thesis
      unfolding e
      by (simp add: allocationLoop_other allocationLoop_shift Cons.IH)
  next
    case True
    then obtain b where s: "s = AppButton b"
      by (cases s) (simp_all add: isAppButton_def)
    have ib: "isAppButton (AppButton b, z)" by (simp add: isAppButton_def)
    show ?thesis
      unfolding e s using ib
      by (simp add: allocationLoop_button Cons.IH del: fun_upd_apply)
  qed
qed

lemma sum_take_two:
  assumes "\<forall>v \<in> set xs. v = (w::int)" and "2 < length xs"
  shows "sum_list (take 2 xs) = 2 * w"
proof -
  from assms(2) obtain p q rest where xs: "xs = p # q # rest"
    by (cases xs; cases "tl xs") auto
  with assms(1) have "p = w" "q = w" by simp_all
  then show ?thesis by (simp add: xs)
qed

text \<open>
  C5. When more than two AppButtons of the allocation map are bound to the same application
  and each records the width \<open>w\<close>, \<open>#allocationSize\<close> counts two of them: the application
  adds exactly \<open>2 * w\<close> to the size of the remaining entries. Entries whose source is not
  an AppButton are all counted.
\<close>

theorem allocationSize_threshold_cap:
  assumes same: "\<forall>e \<in> set m. boundTo h a e \<longrightarrow> snd e = w"
    and many: "2 < length (filter (boundTo h a) m)"
  shows "allocationSize h (Some m)
           = allocationSize h (Some (filter (\<lambda>e. \<not> boundTo h a e) m)) + 2 * w
       \<and> allocationSize h (Some m)
           = allocationSize h (Some (filter isAppButton m))
               + sum_list (map snd (filter (\<lambda>e. \<not> isAppButton e) m))"
proof
  from many have ne: "m \<noteq> []" by auto
  have all: "\<forall>v \<in> set (map snd (filter (boundTo h a) m)). v = w"
    using same by auto
  have len: "2 < length (map snd (filter (boundTo h a) m))"
    using many by simp
  have two: "sum_list (take (APP_ALLOCATION_THRESHOLD - seen Map.empty a)
               (map snd (filter (boundTo h a) m))) = 2 * w"
    using sum_take_two [OF all len] by (simp add: APP_ALLOCATION_THRESHOLD_def seen_def)
  have rest: "allocationSize h (Some (filter (\<lambda>e. \<not> boundTo h a e) m))
                = allocationLoop h (filter (\<lambda>e. \<not> boundTo h a e) m) Map.empty 0"
    by (simp add: allocationSize_def)
  have "allocationSize h (Some m) = allocationLoop h m Map.empty 0"
    using ne by (simp add: allocationSize_def)
  also have "\<dots> = allocationLoop h (filter (\<lambda>e. \<not> boundTo h a e) m) Map.empty 0 + 2 * w"
    using allocationLoop_split [of h m Map.empty 0 a] two by simp
  finally show "allocationSize h (Some m)
           = allocationSize h (Some (filter (\<lambda>e. \<not> boundTo h a e) m)) + 2 * w"
    using rest by simp
next
  have "allocationSize h (Some (filter isAppButton m))
          = allocationLoop h (filter isAppButton m) Map.empty 0"
    by (simp add: allocationSize_def)
  moreover have "allocationSize h (Some m) = allocationLoop h m Map.empty 0"
    by (simp add: allocationSize_def)
  ultimately show "allocationSize h (Some m)
           = allocationSize h (Some (filter isAppButton m))
               + sum_list (map snd (filter (\<lambda>e. \<not> isAppButton e) m))"
    using allocationLoop_others [of h m Map.empty 0] by simp
qed

theorem allocationSize_threshold_cap_witness:
  "2 < length (filter (boundTo sampleStore 7) sampleAllocation)
   \<and> allocationSize sampleStore (Some sampleAllocation) = 27
   \<and> allocationSize sampleStore (Some (filter (\<lambda>e. \<not> boundTo sampleStore 7 e) sampleAllocation)) = 7"
proof -
  have same: "\<forall>e \<in> set sampleAllocation. boundTo sampleStore 7 e \<longrightarrow> snd e = 10"
    by (simp add: sampleAllocation_def boundTo_def sampleStore_def)
  have many: "2 < length (filter (boundTo sampleStore 7) sampleAllocation)"
    by (simp add: sampleAllocation_def boundTo_def sampleStore_def)
  have rest: "allocationSize sampleStore (Some (filter (\<lambda>e. \<not> boundTo sampleStore 7 e) sampleAllocation)) = 7"
    by (simp add: sampleAllocation_def boundTo_def sampleStore_def allocationSize_def
          allocationLoop_button allocationLoop_other isAppButton_def seen_def APP_ALLOCATION_THRESHOLD_def)
  show ?thesis
    using allocationSize_threshold_cap [OF same many] many rest by simp
qed

text \<open>
  C10. \<open>add\<close> of a source whose rect is null changes nothing and schedules nothing;
  \<open>remove\<close> of a source that is not in the allocation map changes nothing and schedules
  nothing; \<open>remove\<close> of a recorded source deletes its entry and schedules the update
  (with the delay of the drag mode), and \<open>remove\<close> schedules in no other case.
\<close>

theorem allocationAddRemove_frame:
  "(getRect src = None \<longrightarrow> allocationAdd getRect (Some src) t = (t, None))
   \<and> ((\<forall>m. allocation t = Some m \<longrightarrow> \<not> mapHas m src)
        \<longrightarrow> allocationRemove (Some src) t = (t, None))
   \<and> (\<forall>m. allocation t = Some m \<and> mapHas m src \<longrightarrow>
         allocationRemove (Some src) t
           = (t\<lparr>allocation := Some (mapDelete m src)\<rparr>,
              if hasJob t then Some (if isDragMode t then Scheduled else Redraw) else None))
   \<and> (snd (allocationRemove (Some src) t) \<noteq> None
        \<longrightarrow> (\<exists>m. allocation t = Some m \<and> mapHas m src))"
  by (auto simp: allocationAdd_def allocationRemove_def schedule_def split: option.splits)

theorem allocationAddRemove_frame_witness:
  "allocationAdd (\<lambda>c. None) (Some (AppButton 1)) sampleManager = (sampleManager, None)
   \<and> allocationRemove (Some (AppButton 1)) sampleManager = (sampleManager, None)
   \<and> allocationRemove (Some (AppButton 0)) sampleManager
       = (sampleManager\<lparr>allocation := Some [(Separator, 3)]\<rparr>, Some Scheduled)"
  using allocationAddRemove_frame [of "\<lambda>c. None" "AppButton 1" sampleManager]
        allocationAddRemove_frame [of "\<lambda>c. None" "AppButton 0" sampleManager]
  by (simp add: sampleManager_def mapHas_def mapDelete_def)

text \<open>
  C6, as stated, fails: with a content width of 100, a page size of 50 and a scroll
  position of 0 the scroll offset 50 exceeds the scroll position, and \<open>update()\<close> animates
  the width at once, without any scroll request.
\<close>

theorem update_resizes_without_scroll:
  "\<not> scrollsBeforeResizing sampleStore narrowView True wideManager
   \<and> allocationUpdate sampleStore (Some narrowView) True wideManager
       = (wideManager, [RemoveAllTransitions, SetScrollLimit 50, Animate 100 Slower (Some Queue)],
          Returned)"
  by (simp add: scrollsBeforeResizing_def allocationUpdate_def allocate_def wideManager_def
        narrowView_def allocationSize_def allocationLoop_other isAppButton_def Let_def)

text \<open>
  C6, amended. With the width \<open>w\<close> of the allocation and the scroll offset
  \<open>max 0 (w - pageSize)\<close>: when the offset exceeds the scroll position, \<open>update()\<close>
  animates the width at once and makes no scroll request. When the offset does not exceed
  the scroll position, it requests the scroll to the offset; if that request yields a job,
  the first step animates nothing and waits, and the width is animated after the job has
  resolved, only if it resolved with success and no later \<open>update()\<close> has cleared
  \<open>isUpdating\<close>. If the request yields no job, the width is animated right after the request.
\<close>

theorem update_scroll_then_resize:
  assumes "allocation t \<noteq> None" and "hasActor t"
  shows "let w = allocationSize h (allocation t);
             scrollOffset = max 0 (w - pageSize tb);
             d = updateDuration t tb w;
             dl = updateDelay tb w
         in (scrollOffset > scrollPosition tb \<longrightarrow>
               allocationUpdate h (Some tb) scrollJob t
                 = (t\<lparr>isUpdating := False\<rparr>,
                    [RemoveAllTransitions, SetScrollLimit scrollOffset, Animate w d dl], Returned))
          \<and> (scrollOffset \<le> scrollPosition tb \<and> scrollJob \<longrightarrow>
               allocationUpdate h (Some tb) scrollJob t
                 = (t\<lparr>isUpdating := True\<rparr>,
                    [RemoveAllTransitions, SetScrollLimit scrollOffset,
                     ScrollToPosition scrollOffset True], AwaitingScroll w d dl))
          \<and> (scrollOffset \<le> scrollPosition tb \<and> \<not> scrollJob \<longrightarrow>
               allocationUpdate h (Some tb) scrollJob t
                 = (t\<lparr>isUpdating := False\<rparr>,
                    [RemoveAllTransitions, SetScrollLimit scrollOffset,
                     ScrollToPosition scrollOffset True, Animate w d dl], Returned))
          \<and> (\<forall>result. allocationUpdateResume result w d dl (t\<lparr>isUpdating := True\<rparr>)
                 = (if result then (t\<lparr>isUpdating := False\<rparr>, [Animate w d dl])
                    else (t\<lparr>isUpdating := True\<rparr>, [])))
          \<and> (\<forall>result. allocationUpdateResume result w d dl (t\<lparr>isUpdating := False\<rparr>)
                 = (t\<lparr>isUpdating := False\<rparr>, []))"
proof -
  from assms(1) obtain m where m: "allocation t = Some m" by auto
  show ?thesis
    using assms(2)
    by (auto simp: m allocationUpdate_def allocationUpdateResume_def allocate_def Let_def
          updateDuration_def updateDelay_def)
qed

theorem update_scroll_then_resize_witness:
  "allocation wideManager \<noteq> None \<and> hasActor wideManager
   \<and> allocationUpdate sampleStore (Some scrolledView) True wideManager
       = (wideManager\<lparr>isUpdating := True\<rparr>,
          [RemoveAllTransitions, SetScrollLimit 50, ScrollToPosition 50 True],
          AwaitingScroll 100 Slower (Some Queue))
   \<and> allocationUpdateResume True 100 Slower (Some Queue) (wideManager\<lparr>isUpdating := True\<rparr>)
       = (wideManager\<lparr>isUpdating := False\<rparr>, [Animate 100 Slower (Some Queue)])"
proof -
  have a: "allocation wideManager \<noteq> None" and b: "hasActor wideManager"
    by (simp_all add: wideManager_def)
  have w: "allocationSize sampleStore (allocation wideManager) = 100"
    by (simp add: wideManager_def allocationSize_def allocationLoop_other isAppButton_def)
  show ?thesis
    using update_scroll_then_resize [OF a b, of sampleStore scrolledView True] a b
    by (simp add: w Let_def scrolledView_def updateDuration_def updateDelay_def)
qed

section \<open>Properties of the drag-and-drop handler\<close>

subsection \<open>JavaScript sets\<close>

lemma set_setAdd: "set (setAdd s v) = insert v (set s)"
  by (auto simp: setAdd_def)

lemma distinct_setAdd: "distinct s \<Longrightarrow> distinct (setAdd s v)"
  by (simp add: setAdd_def)

lemma set_setUnion: "set (setUnion s t) = set s \<union> set t"
  unfolding setUnion_def
  by (induction t arbitrary: s) (auto simp: set_setAdd)

lemma distinct_setUnion: "distinct s \<Longrightarrow> distinct (setUnion s t)"
  unfolding setUnion_def
  by (induction t arbitrary: s) (simp_all add: distinct_setAdd)

lemma setUnion_distinct: "distinct (s @ t) \<Longrightarrow> setUnion s t = s @ t"
  unfolding setUnion_def
proof (induction t arbitrary: s)
  case Nil
  show ?case by simp
next
  case (Cons v t)
  from Cons.prems have v: "v \<notin> set s" and d: "distinct ((s @ [v]) @ t)" by auto
  show ?case
    using Cons.IH [OF d] v by (simp add: setAdd_def)
qed

lemma count_list_distinct: "distinct xs \<Longrightarrow> v \<in> set xs \<Longrightarrow> count_list xs v = 1"
  by (induction xs) (auto simp: count_list_0_iff)

text \<open>
  C9. \<open>handleDrop()\<close> of the handler returns null exactly when the handler has no slots
  (it was destroyed) or no candidate. Otherwise it returns the candidate and a list
  without repetitions that holds the valid slot items and the candidate, the candidate
  exactly once; the list has the slot order when the slots' items are pairwise different,
  with the candidate at the end when no slot holds it; and the handler's candidate is
  cleared.
\<close>

theorem handleDrop_result:
  "(snd (handleDrop h d) = None) = (slots d = None \<or> candidate d = None)
   \<and> (\<forall>ss c. slots d = Some ss \<and> candidate d = Some c \<longrightarrow>
        (\<exists>items. handleDrop h d = (d\<lparr>candidate := None\<rparr>, Some (c, items))
           \<and> count_list items (AppButton c) = 1
           \<and> distinct items
           \<and> set items = insert (AppButton c)
                 {competitor s |s. s \<in> set ss \<and> componentValid h (competitor s)}
           \<and> (let valid = map competitor (filter (\<lambda>s. componentValid h (competitor s)) ss)
              in distinct valid \<longrightarrow>
                   items = (if AppButton c \<in> set valid then valid else valid @ [AppButton c]))))"
proof (intro conjI allI impI)
  show "(snd (handleDrop h d) = None) = (slots d = None \<or> candidate d = None)"
    by (simp add: handleDrop_def Let_def split: option.splits)
next
  fix ss c
  assume a: "slots d = Some ss \<and> candidate d = Some c"
  let ?valid = "map competitor (filter (\<lambda>s. componentValid h (competitor s)) ss)"
  let ?items = "setAdd (setUnion [] ?valid) (AppButton c)"
  have r: "handleDrop h d = (d\<lparr>candidate := None\<rparr>, Some (c, ?items))"
    using a by (simp add: handleDrop_def Let_def)
  have dist: "distinct ?items"
    by (rule distinct_setAdd, rule distinct_setUnion) simp
  have mem: "set ?items = insert (AppButton c)
                 {competitor s |s. s \<in> set ss \<and> componentValid h (competitor s)}"
    by (auto simp: set_setAdd set_setUnion)
  have cnt: "count_list ?items (AppButton c) = 1"
    by (rule count_list_distinct [OF dist]) (simp add: set_setAdd)
  have ord: "distinct ?valid \<longrightarrow>
               ?items = (if AppButton c \<in> set ?valid then ?valid else ?valid @ [AppButton c])"
  proof
    assume dv: "distinct ?valid"
    then have "setUnion [] ?valid = ?valid"
      using setUnion_distinct [of "[]" ?valid] by simp
    then show "?items = (if AppButton c \<in> set ?valid then ?valid else ?valid @ [AppButton c])"
      by (simp add: setAdd_def)
  qed
  show "\<exists>items. handleDrop h d = (d\<lparr>candidate := None\<rparr>, Some (c, items))
           \<and> count_list items (AppButton c) = 1
           \<and> distinct items
           \<and> set items = insert (AppButton c)
                 {competitor s |s. s \<in> set ss \<and> componentValid h (competitor s)}
           \<and> (let valid = map competitor (filter (\<lambda>s. componentValid h (competitor s)) ss)
              in distinct valid \<longrightarrow>
                   items = (if AppButton c \<in> set valid then valid else valid @ [AppButton c]))"
    using r dist mem cnt ord by (intro exI [of _ ?items]) (simp add: Let_def)
qed

theorem handleDrop_result_witness:
  "handleDrop sampleHeap droppingHandler
     = (droppingHandler\<lparr>candidate := None\<rparr>, Some (9, [AppButton 9, AppButton 5, AppButton 6]))
   \<and> count_list [AppButton 9, AppButton 5, AppButton 6] (AppButton 9) = 1
   \<and> snd (handleDrop sampleHeap sampleHandler) = None"
proof -
  have a: "slots droppingHandler = Some [slotOf 9 0 10, slotOf 5 10 10, slotOf 6 20 10]
             \<and> candidate droppingHandler = Some 9"
    by (simp add: droppingHandler_def)
  from handleDrop_result [of sampleHeap droppingHandler] a
  obtain items where i: "handleDrop sampleHeap droppingHandler
                           = (droppingHandler\<lparr>candidate := None\<rparr>, Some (9, items))"
    and c: "count_list items (AppButton 9) = 1"
    by blast
  have v: "handleDrop sampleHeap droppingHandler
     = (droppingHandler\<lparr>candidate := None\<rparr>, Some (9, [AppButton 9, AppButton 5, AppButton 6]))"
    by (simp add: droppingHandler_def handleDrop_def Let_def slotOf_def
        componentValid_def sampleHeap_def sampleStore_def setUnion_def setAdd_def)
  from i v have "items = [AppButton 9, AppButton 5, AppButton 6]" by simp
  with c have c': "count_list [AppButton 9, AppButton 5, AppButton 6] (AppButton 9) = 1" by simp
  have n: "snd (handleDrop sampleHeap sampleHandler) = None"
    by (simp add: sampleHandler_def handleDrop_def)
  from v c' n show ?thesis by blast
qed

subsection \<open>The position scan\<close>

lemma findSlot_left:
  "findSlot x ss = Some i \<Longrightarrow> \<exists>s \<in> set ss. rect_x (slotRect s) \<le> x"
proof (induction ss arbitrary: i)
  case Nil
  then show ?case by simp
next
  case (Cons s ss)
  show ?case
  proof (cases "x < rect_x (slotRect s) \<or> x > rect_x (slotRect s) + rect_width (slotRect s)")
    case True
    with Cons.prems obtain j where "findSlot x ss = Some j" by auto
    from Cons.IH [OF this] show ?thesis by auto
  next
    case False
    then show ?thesis by auto
  qed
qed

lemma scanPosition_le_length: "scanPosition x ss \<le> length ss"
proof (induction ss)
  case Nil
  show ?case by (simp add: scanPosition_def)
next
  case (Cons s ss)
  then show ?case
    by (cases "findSlot x ss") (auto simp: scanPosition_def)
qed

lemma scanPosition_Cons:
  "scanPosition x (s # ss) =
     (if x < rect_x (slotRect s) \<or> x > rect_x (slotRect s) + rect_width (slotRect s)
      then Suc (scanPosition x ss) else 0)"
  by (cases "findSlot x ss") (auto simp: scanPosition_def)

lemma scanPosition_mono_inside:
  assumes "ascendingSlots ss" and "x1 \<le> x2" and "findSlot x1 ss = Some i"
  shows "i \<le> scanPosition x2 ss"
  using assms
proof (induction ss arbitrary: i)
  case Nil
  then show ?case by simp
next
  case (Cons s ss)
  show ?case
  proof (cases "x1 < rect_x (slotRect s) \<or> x1 > rect_x (slotRect s) + rect_width (slotRect s)")
    case False
    with Cons.prems(3) show ?thesis by simp
  next
    case True
    with Cons.prems(3) obtain j where j: "findSlot x1 ss = Some j" and i: "i = Suc j" by auto
    from findSlot_left [OF j] obtain k where k: "k \<in> set ss" "rect_x (slotRect k) \<le> x1" by auto
    from Cons.prems(1) k(1) have "rect_x (slotRect s) \<le> rect_x (slotRect k)"
      by (auto simp: ascendingSlots_def)
    with k(2) True have "x1 > rect_x (slotRect s) + rect_width (slotRect s)" by linarith
    with Cons.prems(2) have out: "x2 > rect_x (slotRect s) + rect_width (slotRect s)" by linarith
    from Cons.prems(1) have asc: "ascendingSlots ss" by (simp add: ascendingSlots_def)
    from Cons.IH [OF asc Cons.prems(2) j] have "j \<le> scanPosition x2 ss" .
    with out i show ?thesis by (simp add: scanPosition_Cons)
  qed
qed

lemma scanPosition_mono:
  assumes "ascendingSlots ss" and "x1 \<le> x2"
    and "insideSomeSlot x1 ss \<or> \<not> insideSomeSlot x2 ss"
  shows "scanPosition x1 ss \<le> scanPosition x2 ss"
proof (cases "findSlot x1 ss")
  case (Some i)
  from scanPosition_mono_inside [OF assms(1,2) Some] Some show ?thesis
    by (simp add: scanPosition_def)
next
  case None
  with assms(3) have "findSlot x2 ss = None" by (simp add: insideSomeSlot_def)
  with None show ?thesis by (simp add: scanPosition_def)
qed

text \<open>
  C4, as stated, fails: with one slot that spans 10 to 20, the pointer at 5 is in no
  slot and resolves to position 1 (append), the pointer at 15 resolves to position 0.
\<close>

theorem dragPosition_not_monotone:
  "ascendingSlots [slotOf 5 10 10] \<and> (5::int) \<le> 15
   \<and> \<not> dragPosition 5 (TargetExternal 3) [slotOf 5 10 10]
         \<le> dragPosition 15 (TargetExternal 3) [slotOf 5 10 10]
   \<and> candidatePosition (fst (snd (handleDrag sampleGeometry (\<lambda>a. False)
         (Some \<lparr>dragX = 5, dragY = 0, target = TargetExternal 3\<rparr>) sampleHeap sampleHandler))) = 1
   \<and> candidatePosition (fst (snd (handleDrag sampleGeometry (\<lambda>a. False)
         (Some \<lparr>dragX = 15, dragY = 0, target = TargetExternal 3\<rparr>) sampleHeap sampleHandler))) = 0"
  by (simp add: ascendingSlots_def slotOf_def dragPosition_def scanPosition_def targetIs_def
        handleDrag_def sampleGeometry_def sampleHeap_def sampleHandler_def sampleStore_def
        componentValid_def slotAt_def destroyOptional_def newAppButton_def Let_def
        pruneSlots_def clampCandidate_def competitorAtPosition_def competitorBeforePosition_def
        appendsAfterTarget_def overOwnPlace_def keepsCandidate_def foundRect_def
        insertCandidate_def)

text \<open>
  C4, amended. For slots whose rectangles are in ascending \<open>x\<close> order and one drag target,
  the position resolved for \<open>x1\<close> is at most the position resolved for \<open>x2\<close> whenever
  \<open>x1 \<le> x2\<close> and \<open>x1\<close> lies in some slot rectangle or \<open>x2\<close> lies in none. (A pointer
  that lies in no slot resolves to the slot count, whatever is to its right.)
\<close>

theorem dragPosition_monotone:
  assumes "ascendingSlots ss" and "x1 \<le> x2"
    and "insideSomeSlot x1 ss \<or> \<not> insideSomeSlot x2 ss"
  shows "dragPosition x1 t ss \<le> dragPosition x2 t ss"
proof -
  have le: "scanPosition x1 ss \<le> scanPosition x2 ss"
    by (rule scanPosition_mono [OF assms])
  show ?thesis
  proof (cases "scanPosition x1 ss = scanPosition x2 ss")
    case True
    then show ?thesis by (simp add: dragPosition_def)
  next
    case False
    with le have lt: "scanPosition x1 ss < scanPosition x2 ss" by simp
    have "dragPosition x1 t ss \<le> scanPosition x1 ss + 1"
      by (simp add: dragPosition_def Let_def)
    moreover have "scanPosition x2 ss \<le> dragPosition x2 t ss"
      by (simp add: dragPosition_def Let_def)
    ultimately show ?thesis using lt by linarith
  qed
qed

theorem dragPosition_monotone_witness:
  "ascendingSlots [slotOf 5 10 10, slotOf 6 20 10] \<and> (15::int) \<le> 25
   \<and> insideSomeSlot 15 [slotOf 5 10 10, slotOf 6 20 10]
   \<and> dragPosition 15 (TargetExternal 3) [slotOf 5 10 10, slotOf 6 20 10] = 0
   \<and> dragPosition 25 (TargetExternal 3) [slotOf 5 10 10, slotOf 6 20 10] = 1"
proof -
  have a: "ascendingSlots [slotOf 5 10 10, slotOf 6 20 10]"
    by (simp add: ascendingSlots_def slotOf_def)
  have b: "(15::int) \<le> 25" by simp
  have c: "insideSomeSlot 15 [slotOf 5 10 10, slotOf 6 20 10]"
    by (simp add: insideSomeSlot_def slotOf_def)
  have d: "dragPosition 15 (TargetExternal 3) [slotOf 5 10 10, slotOf 6 20 10] = 0"
    by (simp add: dragPosition_def scanPosition_def slotOf_def targetIs_def)
  have e: "dragPosition 25 (TargetExternal 3) [slotOf 5 10 10, slotOf 6 20 10] \<ge> 1"
    using dragPosition_monotone [OF a b disjI1 [OF c], of "TargetExternal 3"]
    by (simp add: dragPosition_def scanPosition_def slotOf_def targetIs_def)
  have f: "dragPosition 25 (TargetExternal 3) [slotOf 5 10 10, slotOf 6 20 10] = 1"
    using e by (simp add: dragPosition_def scanPosition_def slotOf_def targetIs_def)
  from a b c d f show ?thesis by blast
qed

section \<open>Properties of the taskbar\<close>

subsection \<open>The running-apps cache\<close>

lemma getRunningApps_frame:
  "(fst (getRunningApps e t))\<lparr>runningApps := runningApps t\<rparr> = t"
  by (simp add: getRunningApps_def Let_def split: option.splits)

text \<open>
  C7. When the desired set of applications is empty (in particular with no favorites and
  a running-apps query that returns null or the empty set), \<open>#rerender\<close> leaves the store of
  buttons and every field of the taskbar other than the running-apps cache as they were:
  no button is created, destroyed or placed, and the separator is not touched.
\<close>

theorem rerender_empty_noop:
  assumes "desiredApps e (snd (getRunningApps e (snd w))) = None
           \<or> desiredApps e (snd (getRunningApps e (snd w))) = Some []
           \<or> ((favorites e = None \<or> favorites e = Some [])
               \<and> (queriedApps e = None \<or> queriedApps e = Some []))"
  shows "fst (rerender e w) = fst w
         \<and> (snd (rerender e w))\<lparr>runningApps := runningApps (snd w)\<rparr> = snd w"
proof -
  have "(favorites e = None \<or> favorites e = Some [])
          \<and> (queriedApps e = None \<or> queriedApps e = Some [])
        \<Longrightarrow> desiredApps e (snd (getRunningApps e (snd w))) = None
            \<or> desiredApps e (snd (getRunningApps e (snd w))) = Some []"
    by (auto simp: desiredApps_def getRunningApps_def setUnion_def split: option.splits)
  with assms have d: "desiredApps e (snd (getRunningApps e (snd w))) = None
           \<or> desiredApps e (snd (getRunningApps e (snd w))) = Some []"
    by blast
  show ?thesis
  proof (cases "appButtons (snd w) = None \<or> \<not> hasAllocation e \<or> isQueued e")
    case True
    then have "rerender e w = w"
      by (auto simp: rerender_def split: option.splits)
    then show ?thesis by simp
  next
    case False
    with d have "rerender e w = (fst w, fst (getRunningApps e (snd w)))"
      by (auto simp: rerender_def split: option.splits)
    then show ?thesis by (simp add: getRunningApps_frame)
  qed
qed

theorem rerender_empty_noop_witness:
  "rerender (sampleEnv None (Some [])) initialWorld = initialWorld
   \<and> rerender (sampleEnv (Some []) None) initialWorld = initialWorld"
proof -
  have a: "desiredApps (sampleEnv None (Some [])) (snd (getRunningApps (sampleEnv None (Some [])) (snd initialWorld))) = None
      \<or> desiredApps (sampleEnv None (Some [])) (snd (getRunningApps (sampleEnv None (Some [])) (snd initialWorld))) = Some []
      \<or> ((favorites (sampleEnv None (Some [])) = None \<or> favorites (sampleEnv None (Some [])) = Some [])
          \<and> (queriedApps (sampleEnv None (Some [])) = None \<or> queriedApps (sampleEnv None (Some [])) = Some []))"
    by (simp add: sampleEnv_def)
  have b: "desiredApps (sampleEnv (Some []) None) (snd (getRunningApps (sampleEnv (Some []) None) (snd initialWorld))) = None
      \<or> desiredApps (sampleEnv (Some []) None) (snd (getRunningApps (sampleEnv (Some []) None) (snd initialWorld))) = Some []
      \<or> ((favorites (sampleEnv (Some []) None) = None \<or> favorites (sampleEnv (Some []) None) = Some [])
          \<and> (queriedApps (sampleEnv (Some []) None) = None \<or> queriedApps (sampleEnv (Some []) None) = Some []))"
    by (simp add: sampleEnv_def)
  have r: "runningApps (snd (rerender (sampleEnv None (Some [])) initialWorld)) = []"
          "runningApps (snd (rerender (sampleEnv (Some []) None) initialWorld)) = []"
    by (simp_all add: rerender_def sampleEnv_def initialWorld_def newTaskbar_def getRunningApps_def
          desiredApps_def mapDelete_def)
  have i: "runningApps (snd initialWorld) = []"
    by (simp add: initialWorld_def newTaskbar_def)
  from rerender_empty_noop [OF a] r(1) i
  have "rerender (sampleEnv None (Some [])) initialWorld = initialWorld"
    by (metis prod.collapse taskbar.surjective taskbar.update_convs(4))
  moreover from rerender_empty_noop [OF b] r(2) i
  have "rerender (sampleEnv (Some []) None) initialWorld = initialWorld"
    by (metis prod.collapse taskbar.surjective taskbar.update_convs(4))
  ultimately show ?thesis by simp
qed



subsection \<open>Maps in insertion order\<close>

lemma set_mapSet: "set (mapSet m k v) \<subseteq> insert (k, v) (set m)"
  by (induction m) (auto split: if_splits)

lemma mem_mapSet: "(k, v) \<in> set (mapSet m k v)"
  by (induction m) auto

lemma map_fst_mapSet:
  "map fst (mapSet m k v) = (if k \<in> set (map fst m) then map fst m else map fst m @ [k])"
  by (induction m) (auto simp: rev_image_eqI)

lemma keys_mapSet: "fst ` set (mapSet m k v) = insert k (fst ` set m)"
proof -
  have "set (map fst (mapSet m k v)) = insert k (set (map fst m))"
    unfolding map_fst_mapSet by auto
  then show ?thesis by simp
qed

lemma distinct_mapSet: "distinct (map fst m) \<Longrightarrow> distinct (map fst (mapSet m k v))"
  unfolding map_fst_mapSet by simp

lemma mapSet_fresh: "k \<notin> fst ` set m \<Longrightarrow> mapSet m k v = m @ [(k, v)]"
  by (induction m) auto

lemma mapSet_same: "distinct (map fst m) \<Longrightarrow> (k, v) \<in> set m \<Longrightarrow> mapSet m k v = m"
  by (induction m) (auto simp: rev_image_eqI)

lemma mapGet_mem: "mapGet m k = Some v \<Longrightarrow> (k, v) \<in> set m"
  by (simp add: mapGet_def map_of_SomeD)

lemma mapGet_distinct: "distinct (map fst m) \<Longrightarrow> (k, v) \<in> set m \<Longrightarrow> mapGet m k = Some v"
  by (simp add: mapGet_def)

lemma mapGet_None: "mapGet m k = None \<Longrightarrow> k \<notin> fst ` set m"
  by (simp add: mapGet_def map_of_eq_None_iff)

lemma mapMerge_fold:
  "set (foldl (\<lambda>m e. mapSet m (fst e) (snd e)) acc es) \<subseteq> set acc \<union> set es
   \<and> (distinct (map fst acc) \<longrightarrow> distinct (map fst (foldl (\<lambda>m e. mapSet m (fst e) (snd e)) acc es)))"
proof (induction es arbitrary: acc)
  case Nil
  show ?case by simp
next
  case (Cons e es)
  have s: "set (mapSet acc (fst e) (snd e)) \<subseteq> insert e (set acc)"
    using set_mapSet [of acc "fst e" "snd e"] by simp
  from Cons.IH [of "mapSet acc (fst e) (snd e)"] s show ?case
    by (auto simp: distinct_mapSet)
qed

lemma set_mapMerge: "set (mapMerge m1 m2) \<subseteq> set m1 \<union> set m2"
  using mapMerge_fold [of "[]" "m1 @ m2"] by (auto simp: mapMerge_def)

lemma distinct_mapMerge: "distinct (map fst (mapMerge m1 m2))"
  using mapMerge_fold [of "[]" "m1 @ m2"] by (simp add: mapMerge_def)

subsection \<open>The store\<close>

lemma heapEvolves_refl: "heapEvolves h h"
  by (simp add: heapEvolves_def)

lemma heapEvolves_trans: "heapEvolves h1 h2 \<Longrightarrow> heapEvolves h2 h3 \<Longrightarrow> heapEvolves h1 h3"
  by (auto simp: heapEvolves_def)

lemma heapEvolves_new: "heapEvolves h (snd (newAppButton a f h))"
  by (simp add: heapEvolves_def newAppButton_def)

lemma heapEvolves_destroy: "heapEvolves h (destroyButton b h)"
  by (simp add: heapEvolves_def destroyButton_def)

lemma heapEvolves_destroyOptional: "heapEvolves h (destroyOptional ob h)"
  by (cases ob) (simp_all add: destroyOptional_def heapEvolves_refl heapEvolves_destroy)

lemma heapEvolves_drop: "heapEvolves h (dropButton b f h)"
  by (simp add: heapEvolves_def dropButton_def)

lemma setParent_fields [simp]:
  "buttons (setParent c p h) = buttons h"
  "nextButton (setParent c p h) = nextButton h"
  "separatorValid (setParent c p h) = separatorValid h"
  by (simp_all add: setParent_def Let_def)

lemma placeButtons_fields [simp]:
  "buttons (placeButtons i bs h) = buttons h"
  "nextButton (placeButtons i bs h) = nextButton h"
  "separatorValid (placeButtons i bs h) = separatorValid h"
  by (induction bs arbitrary: i h) simp_all

lemma placeItems_fields [simp]:
  "snd (placeItems w) = snd w"
  "buttons (fst (placeItems w)) = buttons (fst w)"
  "nextButton (fst (placeItems w)) = nextButton (fst w)"
  "separatorValid (fst (placeItems w)) = separatorValid (fst w)"
  by (simp_all add: placeItems_def split: option.splits)

lemma heapEvolves_setParent: "heapEvolves h (setParent c p h)"
  by (simp add: heapEvolves_def)

lemma heapEvolves_placeItems: "heapEvolves (fst w) (fst (placeItems w))"
  by (simp add: heapEvolves_def)

lemma entryOk_evolves: "entryOk h en \<Longrightarrow> heapEvolves h h' \<Longrightarrow> entryOk h' en"
  by (cases "fst en") (auto simp: entryOk_def heapEvolves_def)

lemma entryOk_new:
  "entryOk (snd (newAppButton a f h)) (AppKey a, fst (newAppButton a f h))"
  by (simp add: entryOk_def newAppButton_def)

lemma handlerOk_evolves: "handlerOk h d \<Longrightarrow> heapEvolves h h' \<Longrightarrow> handlerOk h' d"
  by (auto simp: handlerOk_def heapEvolves_def componentAllocated_def
        split: option.splits component.splits)

subsection \<open>The three loops of the reconciliation keep the map consistent\<close>

lemma renderApps_ok:
  assumes "\<forall>en \<in> set m. entryOk h en" and "\<forall>en \<in> set new. entryOk h en"
    and "distinct (map fst new)"
  shows "heapEvolves h (fst (renderApps e t m apps h new old sb))
         \<and> (\<forall>en \<in> set (fst (snd (renderApps e t m apps h new old sb))).
               entryOk (fst (renderApps e t m apps h new old sb)) en)
         \<and> distinct (map fst (fst (snd (renderApps e t m apps h new old sb))))"
  using assms
proof (induction apps arbitrary: h new old sb)
  case Nil
  then show ?case by (simp add: heapEvolves_refl)
next
  case (Cons a apps)
  let ?h' = "snd (newAppButton a (initialFavorite e a) h)"
  let ?n = "fst (newAppButton a (initialFavorite e a) h)"
  have ev: "heapEvolves h ?h'" by (rule heapEvolves_new)
  have m': "\<forall>en \<in> set m. entryOk ?h' en"
    using Cons.prems(1) ev entryOk_evolves by blast
  have new': "\<forall>en \<in> set (mapSet new (AppKey a) ?n). entryOk ?h' en"
  proof
    fix en assume "en \<in> set (mapSet new (AppKey a) ?n)"
    with set_mapSet [of new "AppKey a" ?n] have "en = (AppKey a, ?n) \<or> en \<in> set new" by auto
    then show "entryOk ?h' en"
      using Cons.prems(2) ev entryOk_evolves entryOk_new by blast
  qed
  have d': "\<And>v. distinct (map fst (mapSet new (AppKey a) v))"
    using Cons.prems(3) by (rule distinct_mapSet)
  have create: "\<And>old'. heapEvolves h (fst (renderApps e t m apps ?h' (mapSet new (AppKey a) ?n) old' (sb @ [?n])))
         \<and> (\<forall>en \<in> set (fst (snd (renderApps e t m apps ?h' (mapSet new (AppKey a) ?n) old' (sb @ [?n])))).
               entryOk (fst (renderApps e t m apps ?h' (mapSet new (AppKey a) ?n) old' (sb @ [?n]))) en)
         \<and> distinct (map fst (fst (snd (renderApps e t m apps ?h' (mapSet new (AppKey a) ?n) old' (sb @ [?n])))))"
    using Cons.IH [OF m' new' d'] ev heapEvolves_trans by blast
  show ?case
  proof (cases "mapGet m (AppKey a)")
    case None
    then show ?thesis using create by simp
  next
    case (Some b)
    show ?thesis
    proof (cases "isValid (buttons h b) \<and> \<not> isFavoriteChanged e t h b a")
      case False
      then have "renderApps e t m (a # apps) h new old sb
                   = renderApps e t m apps ?h' (mapSet new (AppKey a) ?n)
                       (if isValid (buttons h b) then setAdd old a else old) (sb @ [?n])"
        using Some by (simp only: renderApps.simps option.case False if_False)
      then show ?thesis
        using create [of "if isValid (buttons h b) then setAdd old a else old"] by simp
    next
      case True
      from mapGet_mem [OF Some] Cons.prems(1) have okb: "entryOk h (AppKey a, b)" by blast
      have nb: "\<forall>en \<in> set (mapSet new (AppKey a) b). entryOk h en"
      proof
        fix en assume "en \<in> set (mapSet new (AppKey a) b)"
        with set_mapSet [of new "AppKey a" b] have "en = (AppKey a, b) \<or> en \<in> set new" by auto
        then show "entryOk h en" using Cons.prems(2) okb by blast
      qed
      from Cons.IH [OF Cons.prems(1) nb d'] True Some show ?thesis by simp
    qed
  qed
qed

lemma retireChanged_ok:
  assumes "\<forall>en \<in> set m. entryOk h en" and "\<forall>en \<in> set old. entryOk h en"
    and "distinct (map fst old)"
  shows "heapEvolves h (fst (retireChanged olds m h n old))
         \<and> (\<forall>en \<in> set (snd (snd (retireChanged olds m h n old))).
               entryOk (fst (retireChanged olds m h n old)) en)
         \<and> distinct (map fst (snd (snd (retireChanged olds m h n old))))"
  using assms
proof (induction m arbitrary: h n old)
  case Nil
  then show ?case by (simp add: heapEvolves_refl)
next
  case (Cons en m)
  obtain k b where en: "en = (k, b)" by (cases en)
  from Cons.prems(1) have okb: "entryOk h (k, b)" and m: "\<forall>en \<in> set m. entryOk h en"
    by (simp_all add: en)
  have keep: "\<forall>x \<in> set (mapSet old k b). entryOk h x"
  proof
    fix x assume "x \<in> set (mapSet old k b)"
    with set_mapSet [of old k b] have "x = (k, b) \<or> x \<in> set old" by auto
    then show "entryOk h x" using Cons.prems(2) okb by blast
  qed
  have dk: "distinct (map fst (mapSet old k b))"
    using Cons.prems(3) by (rule distinct_mapSet)
  show ?case
  proof (cases k)
    case (ObjKey j)
    with Cons.IH [OF m keep dk] show ?thesis by (simp add: en)
  next
    case (AppKey a)
    show ?thesis
    proof (cases "a \<in> set olds")
      case False
      with Cons.IH [OF m keep dk] AppKey show ?thesis by (simp add: en)
    next
      case True
      let ?h' = "destroyButton b h"
      let ?old1 = "if \<not> isFavorite (buttons h b) then mapSet old (AppKey a) b else old"
      let ?old2 = "mapSet ?old1 (ObjKey n) b"
      have ev: "heapEvolves h ?h'" by (rule heapEvolves_destroy)
      have m': "\<forall>en \<in> set m. entryOk ?h' en"
        using m ev entryOk_evolves by blast
      have okh: "\<forall>x \<in> set ?old1. entryOk h x"
        using keep Cons.prems(2) AppKey by auto
      have obj: "entryOk ?h' (ObjKey n, b)"
        using okb by (simp add: entryOk_def destroyButton_def)
      have old2: "\<forall>x \<in> set ?old2. entryOk ?h' x"
      proof
        fix x assume "x \<in> set ?old2"
        with set_mapSet [of ?old1 "ObjKey n" b] have "x = (ObjKey n, b) \<or> x \<in> set ?old1" by auto
        then show "entryOk ?h' x" using okh obj ev entryOk_evolves by blast
      qed
      have d1: "distinct (map fst ?old1)"
        using Cons.prems(3) by (simp add: distinct_mapSet)
      have d2: "distinct (map fst ?old2)"
        using d1 by (rule distinct_mapSet)
      from Cons.IH [OF m' old2 d2, of "Suc n"] ev True AppKey show ?thesis
        using heapEvolves_trans by (simp add: en)
    qed
  qed
qed

lemma mergeRetained_ok:
  "set (fst (mergeRetained hf h merged i new sb sp)) \<subseteq> set new \<union> set merged
   \<and> (distinct (map fst new) \<longrightarrow> distinct (map fst (fst (mergeRetained hf h merged i new sb sp))))"
proof (induction merged arbitrary: i new sb sp)
  case Nil
  show ?case by simp
next
  case (Cons en merged)
  obtain k b where en: "en = (k, b)" by (cases en)
  show ?case
  proof (cases "\<not> isValid (buttons h b) \<or> mapHas new k")
    case True
    then have "fst (mergeRetained hf h (en # merged) i new sb sp)
                 = fst (mergeRetained hf h merged i new sb sp)
               \<or> fst (mergeRetained hf h (en # merged) i new sb sp)
                 = fst (mergeRetained hf h merged (i + 1) new sb sp)"
      by (auto simp: en)
    then show ?thesis
      using Cons.IH [of i new sb sp] Cons.IH [of "i + 1" new sb sp] by auto
  next
    case False
    let ?sb = "spliceAt (nat (i + 1)) b sb"
    let ?sp = "if hf \<and> isFavorite (buttons h b) then sp + 1 else sp"
    from False have eq: "fst (mergeRetained hf h (en # merged) i new sb sp)
                 = fst (mergeRetained hf h merged (i + 1) (mapSet new k b) ?sb ?sp)"
      by (simp add: en)
    have s: "set (mapSet new k b) \<subseteq> insert (k, b) (set new)" by (rule set_mapSet)
    from Cons.IH [of "i + 1" "mapSet new k b" ?sb ?sp] s
    show ?thesis
      unfolding eq by (auto simp: en distinct_mapSet)
  qed
qed

lemma getRunningApps_fields:
  "appButtons (fst (getRunningApps e t)) = appButtons t"
  "dndHandler (fst (getRunningApps e t)) = dndHandler t"
  "separator (fst (getRunningApps e t)) = separator t"
  "separatorPosition (fst (getRunningApps e t)) = separatorPosition t"
  "placed (fst (getRunningApps e t)) = placed t"
  "nextKey (fst (getRunningApps e t)) = nextKey t"
  by (simp_all add: getRunningApps_def Let_def split: option.splits)

lemma reconcile_wellTracked:
  assumes m: "\<forall>en \<in> set m. entryOk h en" and dm: "distinct (map fst m)"
  shows "heapEvolves h (fst (reconcile e t t1 m apps h))
         \<and> (\<exists>m'. appButtons (snd (reconcile e t t1 m apps h)) = Some m'
                \<and> distinct (map fst m')
                \<and> (\<forall>en \<in> set m'. entryOk (fst (reconcile e t t1 m apps h)) en))
         \<and> dndHandler (snd (reconcile e t t1 m apps h)) = dndHandler t1"
proof -
  define r1 where "r1 = renderApps e t m apps h [] [] []"
  define h1 where "h1 = fst r1"
  define new where "new = fst (snd r1)"
  define olds where "olds = fst (snd (snd r1))"
  define sb where "sb = snd (snd (snd r1))"
  define r2 where "r2 = (if olds = [] then (h1, nextKey t, m)
                          else retireChanged olds m h1 (nextKey t) [])"
  define h2 where "h2 = fst r2"
  define sp where "sp = (if favorites e \<noteq> None then int (favoriteAppsSize e) else -1)"
  define merged where "merged = mapMerge (snd (snd r2)) new"
  define r3 where "r3 = (if length merged \<noteq> length new
                then mergeRetained (favorites e \<noteq> None) h2 merged (-1) new sb sp
                else (new, sb, sp))"
  have res: "fst (reconcile e t t1 m apps h) = h2"
       "appButtons (snd (reconcile e t t1 m apps h)) = Some (fst r3)"
       "dndHandler (snd (reconcile e t t1 m apps h)) = dndHandler t1"
    unfolding reconcile_def Let_def r3_def merged_def sp_def h2_def r2_def sb_def olds_def
      new_def h1_def r1_def
    by (auto split: option.splits)
  from renderApps_ok [of m h "[]" e t apps "[]" "[]"] m
  have ev1: "heapEvolves h h1" and new_ok: "\<forall>en \<in> set new. entryOk h1 en"
    and dnew: "distinct (map fst new)"
    by (simp_all add: h1_def new_def r1_def)
  have m1: "\<forall>en \<in> set m. entryOk h1 en"
    using m ev1 entryOk_evolves by blast
  have st2: "heapEvolves h1 h2 \<and> (\<forall>en \<in> set (snd (snd r2)). entryOk h2 en)"
  proof (cases "olds = []")
    case True
    then show ?thesis using m1 by (simp add: r2_def h2_def heapEvolves_refl)
  next
    case False
    with retireChanged_ok [of m h1 "[]" olds "nextKey t"] m1 show ?thesis
      by (simp add: r2_def h2_def)
  qed
  have new2: "\<forall>en \<in> set new. entryOk h2 en"
    using new_ok st2 entryOk_evolves by blast
  have merged_ok: "\<forall>en \<in> set merged. entryOk h2 en"
    using set_mapMerge [of "snd (snd r2)" new] st2 new2 by (auto simp: merged_def)
  have r3_ok: "(\<forall>en \<in> set (fst r3). entryOk h2 en) \<and> distinct (map fst (fst r3))"
  proof (cases "length merged \<noteq> length new")
    case True
    with mergeRetained_ok [of "favorites e \<noteq> None" h2 merged "-1" new sb sp] dnew new2 merged_ok
    show ?thesis by (auto simp: r3_def)
  next
    case False
    then show ?thesis using new2 dnew by (simp add: r3_def)
  qed
  from ev1 st2 have "heapEvolves h h2" using heapEvolves_trans by blast
  with r3_ok res show ?thesis by simp
qed

lemma rerender_cases:
  "rerender e w = w
   \<or> rerender e w = (fst w, fst (getRunningApps e (snd w)))
   \<or> (\<exists>m apps. appButtons (snd w) = Some m \<and> hasAllocation e \<and> \<not> isQueued e
         \<and> desiredApps e (snd (getRunningApps e (snd w))) = Some apps \<and> apps \<noteq> []
         \<and> rerender e w
               = placeItems (reconcile e (snd w) (fst (getRunningApps e (snd w))) m apps (fst w)))"
  by (simp add: rerender_def split: option.splits)

lemma rerender_wellTracked:
  assumes "wellTracked w"
  shows "wellTracked (rerender e w) \<and> heapEvolves (fst w) (fst (rerender e w))"
proof (cases "appButtons (snd w)")
  case None
  then have "rerender e w = w" by (simp add: rerender_def)
  with assms show ?thesis by (simp add: heapEvolves_refl)
next
  case (Some m)
  let ?t1 = "fst (getRunningApps e (snd w))"
  have same: "wellTracked (fst w, ?t1)"
    using assms by (simp add: wellTracked_def getRunningApps_fields split: option.splits)
  from assms Some have m: "\<forall>en \<in> set m. entryOk (fst w) en" and dm: "distinct (map fst m)"
    by (simp_all add: wellTracked_def)
  have hd: "case dndHandler (snd w) of None \<Rightarrow> True | Some d \<Rightarrow> handlerOk (fst w) d"
    using assms by (simp add: wellTracked_def)
  consider (same) "rerender e w = w" | (cache) "rerender e w = (fst w, ?t1)"
    | (full) apps where "rerender e w = placeItems (reconcile e (snd w) ?t1 m apps (fst w))"
    using Some rerender_cases [of e w] by auto
  then show ?thesis
  proof cases
    case same
    with assms show ?thesis by (simp add: heapEvolves_refl)
  next
    case cache
    with \<open>wellTracked (fst w, ?t1)\<close> show ?thesis by (simp add: heapEvolves_refl)
  next
    case full
    let ?R = "reconcile e (snd w) ?t1 m apps (fst w)"
    from reconcile_wellTracked [OF m dm, of e "snd w" ?t1 apps]
    obtain m' where ev0: "heapEvolves (fst w) (fst ?R)"
      and ab0: "appButtons (snd ?R) = Some m'" "distinct (map fst m')"
        "\<forall>en \<in> set m'. entryOk (fst ?R) en"
      and dh0: "dndHandler (snd ?R) = dndHandler (snd w)"
      by (auto simp: getRunningApps_fields)
    have ev1: "heapEvolves (fst ?R) (fst (rerender e w))"
      unfolding full by (rule heapEvolves_placeItems)
    have ev: "heapEvolves (fst w) (fst (rerender e w))"
      using heapEvolves_trans [OF ev0 ev1] .
    have ab: "appButtons (snd (rerender e w)) = Some m'" "distinct (map fst m')"
        "\<forall>en \<in> set m'. entryOk (fst (rerender e w)) en"
      and dh: "dndHandler (snd (rerender e w)) = dndHandler (snd w)"
      using ab0 dh0 ev1 entryOk_evolves by (auto simp: full)
    have "case dndHandler (snd w) of None \<Rightarrow> True | Some d \<Rightarrow> handlerOk (fst (rerender e w)) d"
      using hd ev handlerOk_evolves by (auto split: option.splits)
    with ab dh ev show ?thesis by (simp add: wellTracked_def)
  qed
qed

subsection \<open>Drag and drop keep the map consistent\<close>

lemma handlerOk_new:
  assumes "\<forall>c \<in> set cs. componentAllocated h c"
  shows "handlerOk h (newDragAndDropHandler g h cs)"
  using assms by (simp add: handlerOk_def newDragAndDropHandler_def DropCompetitor_def Let_def)

lemma componentAllocated_evolves:
  "componentAllocated h c \<Longrightarrow> heapEvolves h h' \<Longrightarrow> componentAllocated h' c"
  by (cases c) (auto simp: componentAllocated_def heapEvolves_def)

lemma insertCandidate_ok:
  assumes "\<forall>s \<in> set ss. componentAllocated h (competitor s)"
  shows "heapEvolves h (fst (insertCandidate g f x tg ss h d))
         \<and> handlerOk (fst (insertCandidate g f x tg ss h d)) (snd (insertCandidate g f x tg ss h d))"
proof -
  define h1 where "h1 = destroyOptional (candidate d) h"
  define created where "created = newAppButton (targetApp h1 tg) (f (targetApp h1 tg)) h1"
  define ss' where "ss' = (case foundRect x tg ss of
                             None \<Rightarrow> ss
                           | Some r \<Rightarrow> spliceAt (dragPosition x tg ss)
                                        (DropCompetitor g (AppButton (fst created)) (Some r)) ss)"
  have res: "fst (insertCandidate g f x tg ss h d)
               = setParent (AppButton (fst created)) (int (dragPosition x tg ss)) (snd created)"
    "slots (snd (insertCandidate g f x tg ss h d)) = Some ss'"
    "candidate (snd (insertCandidate g f x tg ss h d)) = Some (fst created)"
    by (simp_all add: insertCandidate_def Let_def ss'_def created_def h1_def cong: option.case_cong)
  have ev: "heapEvolves h (snd created)"
    using heapEvolves_destroyOptional [of h "candidate d"]
      heapEvolves_new [of h1 "targetApp h1 tg" "f (targetApp h1 tg)"] heapEvolves_trans
    by (simp add: created_def h1_def)
  have cnew: "fst created < nextButton (snd created)"
    by (simp add: created_def newAppButton_def)
  have all2: "\<forall>s \<in> set ss. componentAllocated (snd created) (competitor s)"
    using assms ev componentAllocated_evolves by blast
  have "\<forall>s \<in> set ss'. componentAllocated (snd created) (competitor s)"
  proof (cases "foundRect x tg ss")
    case None
    then show ?thesis using all2 by (simp add: ss'_def)
  next
    case (Some r)
    then show ?thesis
      using all2 cnew
      by (auto simp: ss'_def spliceAt_def DropCompetitor_def Let_def componentAllocated_def
            dest: in_set_takeD in_set_dropD)
  qed
  with ev cnew res heapEvolves_trans [OF ev heapEvolves_setParent] show ?thesis
    by (simp add: handlerOk_def componentAllocated_def split: component.splits)
qed

lemma handleDrag_ok:
  assumes "handlerOk h d"
  shows "heapEvolves h (fst (handleDrag g f p h d))
         \<and> handlerOk (fst (handleDrag g f p h d)) (fst (snd (handleDrag g f p h d)))"
proof (cases "p = None \<or> slots d = None \<or> \<not> hasParent d")
  case True
  then have "handleDrag g f p h d = (h, d, None)"
    by (auto simp: handleDrag_def split: option.splits)
  with assms show ?thesis by (simp add: heapEvolves_refl)
next
  case False
  then obtain q allSlots where p: "p = Some q" and sl: "slots d = Some allSlots"
    and hp: "hasParent d"
    by auto
  define x where "x = parentRectX g + dragX q"
  define ss where "ss = pruneSlots h allSlots"
  define d1 where "d1 = clampCandidate ss d"
  from assms sl have all: "\<forall>s \<in> set ss. componentAllocated h (competitor s)"
    by (simp add: handlerOk_def ss_def pruneSlots_def)
  from assms have cand: "case candidate d of None \<Rightarrow> True | Some c \<Rightarrow> c < nextButton h"
    by (simp add: handlerOk_def)
  have ok1: "handlerOk h d1"
    using all cand by (simp add: handlerOk_def d1_def clampCandidate_def)
  have ev1: "heapEvolves h (destroyOptional (candidate d1) h)"
    by (rule heapEvolves_destroyOptional)
  have okA: "handlerOk (destroyOptional (candidate d1) h) (d1\<lparr>candidate := None\<rparr>)"
    using all ev1 componentAllocated_evolves
    by (auto simp: handlerOk_def d1_def clampCandidate_def)
  have okB: "\<And>pos. handlerOk h (d1\<lparr>candidatePosition := pos\<rparr>)"
    using ok1 by (simp add: handlerOk_def)
  have unfold: "handleDrag g f p h d =
      (if overOwnPlace x (target q) ss
       then (destroyOptional (candidate d1) h, d1\<lparr>candidate := None\<rparr>, competitorAtPosition x ss)
       else if keepsCandidate x (target q) ss d1
       then (h, d1\<lparr>candidatePosition := int (dragPosition x (target q) ss)\<rparr>,
             competitorAtPosition x ss)
       else (fst (insertCandidate g f x (target q) ss h d1),
             snd (insertCandidate g f x (target q) ss h d1), competitorAtPosition x ss))"
    unfolding handleDrag_def p sl
    by (simp add: hp Let_def x_def ss_def d1_def)
  show ?thesis
    unfolding unfold
    using okA okB ev1 heapEvolves_refl insertCandidate_ok [OF all, of g f x "target q" d1]
    by simp
qed

lemma wellTracked_heap:
  assumes "wellTracked (h, t)" and "heapEvolves h h'"
  shows "wellTracked (h', t)"
  using assms entryOk_evolves handlerOk_evolves
  by (auto simp: wellTracked_def split: option.splits)

lemma handleDragOver_wellTracked:
  assumes "wellTracked w"
  shows "wellTracked (handleDragOver e g tgt params w)"
proof (cases "handleDragOver e g tgt params w = w")
  case True
  with assms show ?thesis by simp
next
  case False
  then obtain tg xy m s where tgt: "tgt = Some tg" and params: "params = Some xy"
    and m: "appButtons (snd w) = Some m" and s: "separator (snd w) = Some s"
    by (cases tgt; cases params; cases "appButtons (snd w)"; cases "separator (snd w)")
       (simp_all add: handleDragOver_def)
  define tg' where "tg' = (case tg of
                          TargetButton b \<Rightarrow> tg
                        | TargetExternal a \<Rightarrow>
                            (case mapGet m (AppKey a) of
                               None \<Rightarrow> tg
                             | Some b \<Rightarrow> if isValid (buttons (fst w) b) then TargetButton b else tg))"
  define competitors where "competitors = map (\<lambda>en. AppButton (snd en)) m"
  define cs where "cs = (if favorites e \<noteq> None \<and> separatorPosition (snd w) \<ge> 0
                                      then spliceAt (nat (separatorPosition (snd w))) Separator competitors
                                      else competitors)"
  define d where "d = (case dndHandler (snd w) of
                         Some d \<Rightarrow> d
                       | None \<Rightarrow> newDragAndDropHandler g (fst w) cs)"
  define q where "q = \<lparr>dragX = fst xy, dragY = snd xy, target = tg'\<rparr>"
  define r where "r = handleDrag g (initialFavorite e) (Some q) (fst w) d"
  from assms m have en: "\<forall>en \<in> set m. entryOk (fst w) en" and dm: "distinct (map fst m)"
    by (simp_all add: wellTracked_def)
  have "\<forall>c \<in> set competitors. componentAllocated (fst w) c"
    using en by (auto simp: competitors_def componentAllocated_def entryOk_def)
  then have "\<forall>c \<in> set cs. componentAllocated (fst w) c"
    by (auto simp: cs_def spliceAt_def componentAllocated_def dest: in_set_takeD in_set_dropD)
  then have dok: "handlerOk (fst w) d"
    using assms handlerOk_new [of cs "fst w" g]
    by (auto simp: d_def wellTracked_def split: option.splits)
  from handleDrag_ok [OF dok, of g "initialFavorite e" "Some q"]
  have ev: "heapEvolves (fst w) (fst r)" and rok: "handlerOk (fst r) (fst (snd r))"
    by (simp_all add: r_def)
  have res: "fst (handleDragOver e g tgt params w) = fst r"
    "appButtons (snd (handleDragOver e g tgt params w)) = Some m"
    "dndHandler (snd (handleDragOver e g tgt params w)) = Some (fst (snd r))"
    using False
    unfolding handleDragOver_def tgt params m s
    by (auto simp: Let_def r_def q_def d_def cs_def competitors_def tg'_def m
          split: option.splits if_splits)
  have "\<forall>en \<in> set m. entryOk (fst r) en"
    using en ev entryOk_evolves by blast
  with dm rok res show ?thesis by (simp add: wellTracked_def)
qed

lemma wellTracked_alt:
  "wellTracked w =
     ((\<forall>m. appButtons (snd w) = Some m \<longrightarrow>
           distinct (map fst m) \<and> (\<forall>en \<in> set m. entryOk (fst w) en))
      \<and> (\<forall>d. dndHandler (snd w) = Some d \<longrightarrow> handlerOk (fst w) d))"
  by (simp add: wellTracked_def split: option.splits)

lemma collectSlots_ok:
  assumes "\<forall>c \<in> set items. componentAllocated h c"
    and "\<forall>en \<in> set ab. snd en < nextButton h
           \<and> (case fst en of AppKey a \<Rightarrow> app (buttons h (snd en)) = a | ObjKey j \<Rightarrow> old = Some (snd en))"
    and "distinct (map fst ab)"
  shows "(\<forall>en \<in> set (fst (snd (collectSlots h c ca old items i apps ab cp sp n))).
            snd en < nextButton h
            \<and> (case fst en of AppKey a \<Rightarrow> app (buttons h (snd en)) = a
                | ObjKey j \<Rightarrow> old = Some (snd en)))
         \<and> distinct (map fst (fst (snd (collectSlots h c ca old items i apps ab cp sp n))))"
  using assms
proof (induction items arbitrary: i apps ab cp sp n)
  case Nil
  then show ?case by simp
next
  case (Cons actor items)
  from Cons.prems(1) have rest: "\<forall>c \<in> set items. componentAllocated h c" by simp
  show ?case
  proof (cases actor)
    case Separator
    with Cons.IH [OF rest Cons.prems(2,3)] show ?thesis by simp
  next
    case (Other j)
    with Cons.IH [OF rest Cons.prems(2,3)] show ?thesis by simp
  next
    case (AppButton b)
    with Cons.prems(1) have b: "b < nextButton h" by (simp add: componentAllocated_def)
    have appKey: "\<forall>en \<in> set (mapSet ab (AppKey (app (buttons h b))) b). snd en < nextButton h
           \<and> (case fst en of AppKey a \<Rightarrow> app (buttons h (snd en)) = a | ObjKey j \<Rightarrow> old = Some (snd en))"
    proof
      fix en assume "en \<in> set (mapSet ab (AppKey (app (buttons h b))) b)"
      with set_mapSet [of ab "AppKey (app (buttons h b))" b]
      have "en = (AppKey (app (buttons h b)), b) \<or> en \<in> set ab" by auto
      then show "snd en < nextButton h
           \<and> (case fst en of AppKey a \<Rightarrow> app (buttons h (snd en)) = a | ObjKey j \<Rightarrow> old = Some (snd en))"
        using Cons.prems(2) b by auto
    qed
    have objKey: "old = Some b \<Longrightarrow> \<forall>en \<in> set (mapSet ab (ObjKey n) b). snd en < nextButton h
           \<and> (case fst en of AppKey a \<Rightarrow> app (buttons h (snd en)) = a | ObjKey j \<Rightarrow> old = Some (snd en))"
    proof
      fix en assume o: "old = Some b" and "en \<in> set (mapSet ab (ObjKey n) b)"
      with set_mapSet [of ab "ObjKey n" b]
      have "en = (ObjKey n, b) \<or> en \<in> set ab" by auto
      then show "snd en < nextButton h
           \<and> (case fst en of AppKey a \<Rightarrow> app (buttons h (snd en)) = a | ObjKey j \<Rightarrow> old = Some (snd en))"
        using Cons.prems(2) b o by auto
    qed
    have d: "\<And>k v. distinct (map fst (mapSet ab k v))"
      using Cons.prems(3) by (rule distinct_mapSet)
    show ?thesis
    proof (cases "b = c \<or> app (buttons h b) \<noteq> ca")
      case True
      then have "fst (snd (collectSlots h c ca old (actor # items) i apps ab cp sp n))
                   = fst (snd (collectSlots h c ca old items (i + 1)
                        (setAdd apps (app (buttons h b)))
                        (mapSet ab (AppKey (app (buttons h b))) b) (if b = c then i else cp) sp n))"
        by (auto simp: AppButton)
      with Cons.IH [OF rest appKey d] show ?thesis by simp
    next
      case False
      show ?thesis
      proof (cases "old = Some b")
        case True
        with False have "fst (snd (collectSlots h c ca old (actor # items) i apps ab cp sp n))
                   = fst (snd (collectSlots h c ca old items (i + 1) apps
                        (mapSet ab (ObjKey n) b) cp sp (Suc n)))"
          by (auto simp: AppButton)
        with Cons.IH [OF rest objKey [OF True] d] show ?thesis by simp
      next
        case no: False
        with False have "fst (snd (collectSlots h c ca old (actor # items) i apps ab cp sp n))
                   = fst (snd (collectSlots h c ca old items (i + 1) apps ab cp sp n))"
          by (auto simp: AppButton)
        with Cons.IH [OF rest Cons.prems(2,3)] show ?thesis by simp
      qed
    qed
  qed
qed

lemma handleDrop_items:
  assumes "handlerOk h d" and "snd (handleDrop h d) = Some (c, items)"
  shows "c < nextButton h \<and> (\<forall>x \<in> set items. componentAllocated h x)
         \<and> handlerOk h (fst (handleDrop h d))"
proof -
  from assms(2) obtain ss where ss: "slots d = Some ss" and cd: "candidate d = Some c"
    and items: "items = setAdd (setUnion []
                  (map competitor (filter (\<lambda>s. componentValid h (competitor s)) ss))) (AppButton c)"
    and d': "fst (handleDrop h d) = d\<lparr>candidate := None\<rparr>"
    by (auto simp: handleDrop_def Let_def split: option.splits)
  from assms(1) ss cd have c: "c < nextButton h"
    and all: "\<forall>s \<in> set ss. componentAllocated h (competitor s)"
    by (simp_all add: handlerOk_def)
  have "\<forall>x \<in> set items. componentAllocated h x"
    using all c by (auto simp: items set_setAdd set_setUnion componentAllocated_def)
  moreover have "handlerOk h (d\<lparr>candidate := None\<rparr>)"
    using assms(1) by (simp add: handlerOk_def)
  ultimately show ?thesis using c d' by simp
qed

lemma taskbarHandleDrop_wellTracked:
  assumes "wellTracked w"
  shows "wellTracked (fst (taskbarHandleDrop e w))"
proof (cases "dndHandler (snd w)")
  case None
  with assms show ?thesis by (simp add: taskbarHandleDrop_def)
next
  case (Some d)
  show ?thesis
  proof (cases "snd (handleDrop (fst w) d)")
    case None
    with Some assms show ?thesis by (simp add: taskbarHandleDrop_def)
  next
    case (Some ci)
    obtain c items where ci: "ci = (c, items)" by (cases ci)
    define h where "h = fst w"
    define d' where "d' = fst (handleDrop h d)"
    define t1 where "t1 = (snd w)\<lparr>dndHandler := Some d'\<rparr>"
    from assms \<open>dndHandler (snd w) = Some d\<close> have dok: "handlerOk h d"
      by (simp add: wellTracked_alt h_def)
    from handleDrop_items [OF dok] Some ci
    have c: "c < nextButton h" and items: "\<forall>x \<in> set items. componentAllocated h x"
      and d'ok: "handlerOk h d'"
      by (simp_all add: h_def d'_def)
    have wt1: "wellTracked (h, t1)"
      using assms d'ok by (simp add: wellTracked_alt t1_def h_def)
    define ca where "ca = app (buttons h c)"
    define old where "old = (case appButtons t1 of None \<Rightarrow> None | Some m \<Rightarrow> mapGet m (AppKey ca))"
    define r where "r = collectSlots h c ca old items 0 [] [] (-1) (-1) (nextKey t1)"
    define isFav where "isFav = (fst (snd (snd r)) < fst (snd (snd (snd r))))"
    define h' where "h' = dropButton c isFav (destroyOptional old h)"
    define t2 where "t2 = t1\<lparr>runningApps := mapSet (runningApps t1) (the (workspace e)) (fst r),
                                  appButtons := Some (fst (snd r)),
                                  nextKey := snd (snd (snd (snd r))),
                                  dndHandler := (if old \<noteq> None \<and> fst (snd (snd (snd r))) > 0
                                                 then None else dndHandler t1)\<rparr>"
    have cases: "fst (taskbarHandleDrop e w) = (h, t1)
                 \<or> fst (taskbarHandleDrop e w) = (destroyButton c h, t1)
                 \<or> fst (taskbarHandleDrop e w) = (h', t2)"
      using \<open>dndHandler (snd w) = Some d\<close> Some ci
      unfolding taskbarHandleDrop_def
      by (auto simp: Let_def h_def d'_def t1_def ca_def old_def r_def isFav_def h'_def t2_def
            split: option.splits)
    have ev': "heapEvolves h h'"
      using heapEvolves_destroyOptional [of h old] heapEvolves_drop heapEvolves_trans
      unfolding h'_def by blast
    from collectSlots_ok [of items h "[]" old c ca 0 "[]" "-1" "-1" "nextKey t1"] items
    have ents: "\<forall>en \<in> set (fst (snd r)). snd en < nextButton h
            \<and> (case fst en of AppKey a \<Rightarrow> app (buttons h (snd en)) = a
                | ObjKey j \<Rightarrow> old = Some (snd en))"
      and dist: "distinct (map fst (fst (snd r)))"
      by (simp_all add: r_def)
    have ok': "\<forall>en \<in> set (fst (snd r)). entryOk h' en"
    proof
      fix en assume "en \<in> set (fst (snd r))"
      with ents have lt: "snd en < nextButton h"
        and k: "case fst en of AppKey a \<Rightarrow> app (buttons h (snd en)) = a
                | ObjKey j \<Rightarrow> old = Some (snd en)"
        by auto
      show "entryOk h' en"
      proof (cases "fst en")
        case (AppKey a)
        with k lt ev' show ?thesis by (simp add: entryOk_def heapEvolves_def)
      next
        case (ObjKey j)
        with k have "old = Some (snd en)" by simp
        then have "\<not> isValid (buttons h' (snd en))"
          by (simp add: h'_def dropButton_def destroyOptional_def destroyButton_def)
        with ObjKey lt ev' show ?thesis by (simp add: entryOk_def heapEvolves_def)
      qed
    qed
    have "handlerOk h' d'"
      using d'ok ev' handlerOk_evolves by blast
    then have hd2: "\<forall>d. dndHandler t2 = Some d \<longrightarrow> handlerOk h' d"
      by (simp add: t2_def t1_def)
    have wt2: "wellTracked (h', t2)"
      using ok' dist hd2 by (simp add: wellTracked_alt t2_def)
    from cases show ?thesis
      using wt1 wt2 wellTracked_heap [OF wt1 heapEvolves_destroy [of h c]] by auto
  qed
qed

lemma wellTracked_handler:
  assumes "wellTracked (h, t)" and "\<forall>d. d' = Some d \<longrightarrow> handlerOk h d"
    and "appButtons t' = appButtons t" and "dndHandler t' = d'"
  shows "wellTracked (h, t')"
  using assms by (simp add: wellTracked_alt)

lemma dragActorDestroyed_wellTracked:
  assumes "wellTracked w"
  shows "wellTracked (dragActorDestroyed w)"
proof (cases "dndHandler (snd w)")
  case None
  from assms have "wellTracked (fst w, snd w)" by simp
  from wellTracked_handler [OF this, of None "(snd w)\<lparr>dragMode := False\<rparr>"] None
  show ?thesis by (simp add: dragActorDestroyed_def)
next
  case (Some d)
  have ev: "heapEvolves (fst w) (fst (dndDestroy (fst w) d))"
    by (simp add: dndDestroy_def heapEvolves_destroyOptional)
  from assms have "wellTracked (fst w, snd w)" by simp
  from wellTracked_heap [OF this ev]
  have "wellTracked (fst (dndDestroy (fst w) d), snd w)" .
  from wellTracked_handler [OF this, of None "(snd w)\<lparr>dragMode := False, dndHandler := None\<rparr>"] Some
  show ?thesis by (simp add: dragActorDestroyed_def)
qed

lemma dragActorLeft_wellTracked:
  assumes "wellTracked w"
  shows "wellTracked (dragActorLeft w)"
proof (cases "dndHandler (snd w)")
  case None
  with assms show ?thesis by (simp add: dragActorLeft_def)
next
  case (Some d)
  have ev: "heapEvolves (fst w) (destroyOptional (candidate d) (fst w))"
    by (rule heapEvolves_destroyOptional)
  from assms Some have "handlerOk (fst w) (d\<lparr>candidate := None\<rparr>)"
    by (simp add: wellTracked_alt handlerOk_def)
  with ev have hk: "handlerOk (destroyOptional (candidate d) (fst w)) (d\<lparr>candidate := None\<rparr>)"
    using handlerOk_evolves by blast
  from assms have "wellTracked (fst w, snd w)" by simp
  from wellTracked_heap [OF this ev]
  have "wellTracked (destroyOptional (candidate d) (fst w), snd w)" .
  from wellTracked_handler [OF this, of "Some (d\<lparr>candidate := None\<rparr>)"
         "(snd w)\<lparr>dndHandler := Some (d\<lparr>candidate := None\<rparr>)\<rparr>"] hk Some
  show ?thesis by (simp add: dragActorLeft_def)
qed

lemma step_wellTracked: "wellTracked w \<Longrightarrow> wellTracked (step op w)"
proof (cases op)
  case (ButtonDestroyed b)
  assume "wellTracked w"
  then have "wellTracked (fst w, snd w)" by simp
  from wellTracked_heap [OF this heapEvolves_destroy [of "fst w" b]] ButtonDestroyed
  show ?thesis by simp
qed (simp_all add: rerender_wellTracked handleDragOver_wellTracked taskbarHandleDrop_wellTracked
       dragActorDestroyed_wellTracked dragActorLeft_wellTracked)

lemma run_wellTracked: "wellTracked w \<Longrightarrow> wellTracked (run ops w)"
  unfolding run_def
  by (induction ops arbitrary: w) (simp_all add: step_wellTracked)

lemma initialWorld_wellTracked: "wellTracked initialWorld"
  by (simp add: wellTracked_def initialWorld_def newTaskbar_def)

subsection \<open>What the three loops compute\<close>

lemma isFavoriteChanged_cong:
  "isFavorite (buttons h' b) = isFavorite (buttons h b)
   \<Longrightarrow> isFavoriteChanged e t h' b a = isFavoriteChanged e t h b a"
  by (simp add: isFavoriteChanged_def split: option.splits)

lemma renderedFrom_grow:
  assumes "renderedFrom e t m h' h1 en" and "\<forall>x \<in> set m. snd x < nextButton h"
    and "nextButton h \<le> nextButton h'" and "\<forall>b < nextButton h. buttons h' b = buttons h b"
    and "nextButton h' \<le> snd en \<or> (\<exists>a. mapGet m (AppKey a) = Some (snd en))"
  shows "renderedFrom e t m h h1 en"
proof (cases "fst en")
  case (ObjKey j)
  with assms(1) show ?thesis by (simp add: renderedFrom_def)
next
  case (AppKey a)
  show ?thesis
  proof (cases "snd en < nextButton h'")
    case False
    with assms(1,3) AppKey show ?thesis by (simp add: renderedFrom_def)
  next
    case True
    with assms(1) AppKey have g: "mapGet m (AppKey a) = Some (snd en)"
      and v: "isValid (buttons h' (snd en))" and c: "\<not> isFavoriteChanged e t h' (snd en) a"
      by (simp_all add: renderedFrom_def)
    from mapGet_mem [OF g] assms(2) have lt: "snd en < nextButton h" by auto
    with assms(4) have same: "buttons h' (snd en) = buttons h (snd en)" by simp
    from c have "\<not> isFavoriteChanged e t h (snd en) a"
      using isFavoriteChanged_cong [of h' "snd en" h e t a] same by simp
    with g v same lt AppKey show ?thesis by (simp add: renderedFrom_def)
  qed
qed

lemma renderApps_strong:
  assumes "\<forall>x \<in> set m. snd x < nextButton h" and "distinct apps"
    and "\<forall>a \<in> set apps. AppKey a \<notin> fst ` set new"
  shows "\<exists>es. fst (snd (renderApps e t m apps h new olds sb)) = new @ es
           \<and> map fst es = map AppKey apps
           \<and> snd (snd (snd (renderApps e t m apps h new olds sb))) = sb @ map snd es
           \<and> (\<forall>en \<in> set es. renderedFrom e t m h (fst (renderApps e t m apps h new olds sb)) en)
           \<and> (\<forall>b < nextButton h. buttons (fst (renderApps e t m apps h new olds sb)) b = buttons h b)
           \<and> nextButton h \<le> nextButton (fst (renderApps e t m apps h new olds sb))
           \<and> set (fst (snd (snd (renderApps e t m apps h new olds sb))))
                \<subseteq> set olds \<union> {a \<in> set apps. flippedApp e t m h a}"
  using assms
proof (induction apps arbitrary: h new olds sb)
  case Nil
  show ?case by simp
next
  case (Cons a apps)
  from Cons.prems have da: "distinct apps" and anew: "AppKey a \<notin> fst ` set new"
    and notin: "a \<notin> set apps" and rest: "\<forall>x \<in> set apps. AppKey x \<notin> fst ` set new"
    by auto
  have fresh: "\<And>v. \<forall>x \<in> set apps. AppKey x \<notin> fst ` set (mapSet new (AppKey a) v)"
    using rest notin by (auto simp: keys_mapSet)
  have app1: "\<And>v. mapSet new (AppKey a) v = new @ [(AppKey a, v)]"
    using anew by (rule mapSet_fresh)
  show ?case
  proof (cases "\<exists>b. mapGet m (AppKey a) = Some b \<and> isValid (buttons h b)
                  \<and> \<not> isFavoriteChanged e t h b a")
    case True
    then obtain b where g: "mapGet m (AppKey a) = Some b" and v: "isValid (buttons h b)"
      and c: "\<not> isFavoriteChanged e t h b a"
      by blast
    let ?R = "renderApps e t m apps h (mapSet new (AppKey a) b) olds (sb @ [b])"
    have eq: "renderApps e t m (a # apps) h new olds sb = ?R"
      using g v c by simp
    from Cons.IH [OF Cons.prems(1) da fresh, of b olds "sb @ [b]"]
    obtain es where es: "fst (snd ?R) = mapSet new (AppKey a) b @ es"
      "map fst es = map AppKey apps" "snd (snd (snd ?R)) = (sb @ [b]) @ map snd es"
      "\<forall>en \<in> set es. renderedFrom e t m h (fst ?R) en"
      "\<forall>b < nextButton h. buttons (fst ?R) b = buttons h b"
      "nextButton h \<le> nextButton (fst ?R)"
      "set (fst (snd (snd ?R))) \<subseteq> set olds \<union> {a \<in> set apps. flippedApp e t m h a}"
      by blast
    from mapGet_mem [OF g] Cons.prems(1) have lt: "b < nextButton h" by auto
    have first: "renderedFrom e t m h (fst ?R) (AppKey a, b)"
      using g v c lt by (simp add: renderedFrom_def)
    show ?thesis
      unfolding eq
      using es first
      by (intro exI [of _ "(AppKey a, b) # es"]) (auto simp: app1)
  next
    case False
    let ?h' = "snd (newAppButton a (initialFavorite e a) h)"
    let ?n = "fst (newAppButton a (initialFavorite e a) h)"
    let ?olds = "if flippedApp e t m h a then setAdd olds a else olds"
    let ?R = "renderApps e t m apps ?h' (mapSet new (AppKey a) ?n) ?olds (sb @ [?n])"
    have eq: "renderApps e t m (a # apps) h new olds sb = ?R"
    proof (cases "mapGet m (AppKey a)")
      case None
      then show ?thesis by (simp add: flippedApp_def)
    next
      case (Some b)
      with False have nb: "\<not> (isValid (buttons h b) \<and> \<not> isFavoriteChanged e t h b a)" by simp
      have "flippedApp e t m h a = isValid (buttons h b)"
        using nb Some by (auto simp: flippedApp_def)
      then show ?thesis
        using Some nb by (simp only: renderApps.simps option.case if_False)
    qed
    have n: "?n = nextButton h" and nh': "nextButton ?h' = Suc (nextButton h)"
      and keep: "\<forall>b < nextButton h. buttons ?h' b = buttons h b"
      and newb: "buttons ?h' (nextButton h) = \<lparr>app = a, isFavorite = initialFavorite e a, isValid = True\<rparr>"
      by (simp_all add: newAppButton_def)
    have p0: "\<forall>x \<in> set m. snd x < nextButton ?h'"
      using Cons.prems(1) nh' by auto
    from Cons.IH [OF p0 da fresh, of ?n ?olds "sb @ [?n]"]
    obtain es where es: "fst (snd ?R) = mapSet new (AppKey a) ?n @ es"
      "map fst es = map AppKey apps" "snd (snd (snd ?R)) = (sb @ [?n]) @ map snd es"
      "\<forall>en \<in> set es. renderedFrom e t m ?h' (fst ?R) en"
      "\<forall>b < nextButton ?h'. buttons (fst ?R) b = buttons ?h' b"
      "nextButton ?h' \<le> nextButton (fst ?R)"
      "set (fst (snd (snd ?R))) \<subseteq> set ?olds \<union> {a \<in> set apps. flippedApp e t m ?h' a}"
      by blast
    have heap: "\<forall>b < nextButton h. buttons (fst ?R) b = buttons h b"
      using es(5) keep nh' by auto
    have nb: "nextButton h \<le> nextButton (fst ?R)"
      using es(6) nh' by simp
    have first: "renderedFrom e t m h (fst ?R) (AppKey a, ?n)"
      using es(5,6) nh' newb by (simp add: renderedFrom_def n)
    have others: "\<forall>en \<in> set es. renderedFrom e t m h (fst ?R) en"
    proof
      fix en assume en: "en \<in> set es"
      with es(4) have r: "renderedFrom e t m ?h' (fst ?R) en" by blast
      have "nextButton ?h' \<le> snd en \<or> (\<exists>a. mapGet m (AppKey a) = Some (snd en))"
        using r by (cases "fst en") (auto simp: renderedFrom_def split: if_splits)
      from renderedFrom_grow [OF r Cons.prems(1) _ keep this] nh'
      show "renderedFrom e t m h (fst ?R) en" by simp
    qed
    have flip: "\<And>x. flippedApp e t m ?h' x = flippedApp e t m h x"
    proof -
      fix x
      show "flippedApp e t m ?h' x = flippedApp e t m h x"
      proof (cases "mapGet m (AppKey x)")
        case None
        then show ?thesis by (simp add: flippedApp_def)
      next
        case (Some b)
        from mapGet_mem [OF Some] Cons.prems(1) have "b < nextButton h" by auto
        with keep have "buttons ?h' b = buttons h b" by simp
        then show ?thesis
          using Some isFavoriteChanged_cong [of ?h' b h e t x] by (simp add: flippedApp_def)
      qed
    qed
    have oldsub: "set (fst (snd (snd ?R))) \<subseteq> set olds \<union> {x \<in> set (a # apps). flippedApp e t m h x}"
      using es(7) by (auto simp: flip set_setAdd split: if_splits)
    show ?thesis
      unfolding eq
      using es(1,2,3) first others heap nb oldsub
      by (intro exI [of _ "(AppKey a, ?n) # es"]) (auto simp: app1)
  qed
qed

lemma retireChanged_effect:
  "(\<forall>b. buttons (fst (retireChanged olds m h n old)) b
         = (if \<exists>a \<in> set olds. (AppKey a, b) \<in> set m then (buttons h b)\<lparr>isValid := False\<rparr>
            else buttons h b))
   \<and> nextButton (fst (retireChanged olds m h n old)) = nextButton h
   \<and> (\<forall>en \<in> set (snd (snd (retireChanged olds m h n old))).
         en \<in> set old \<or> en \<in> set m
         \<or> (\<exists>j a. fst en = ObjKey j \<and> a \<in> set olds \<and> (AppKey a, snd en) \<in> set m))"
proof (induction m arbitrary: h n old)
  case Nil
  show ?case by simp
next
  case (Cons x m)
  obtain k b where x: "x = (k, b)" by (cases x)
  show ?case
  proof (cases "\<exists>a. k = AppKey a \<and> a \<in> set olds")
    case False
    then have eq: "retireChanged olds (x # m) h n old = retireChanged olds m h n (mapSet old k b)"
      by (cases k) (simp_all add: x)
    have sub: "set (mapSet old k b) \<subseteq> insert (k, b) (set old)" by (rule set_mapSet)
    from False have nd: "\<And>c. (\<exists>a \<in> set olds. (AppKey a, c) \<in> set (x # m))
                          = (\<exists>a \<in> set olds. (AppKey a, c) \<in> set m)"
      by (auto simp: x)
    from Cons.IH [of h n "mapSet old k b"] sub show ?thesis
      unfolding eq nd by (auto simp: x)
  next
    case True
    then obtain a where k: "k = AppKey a" and a: "a \<in> set olds" by blast
    let ?old1 = "if \<not> isFavorite (buttons h b) then mapSet old (AppKey a) b else old"
    let ?old2 = "mapSet ?old1 (ObjKey n) b"
    have eq: "retireChanged olds (x # m) h n old
                = retireChanged olds m (destroyButton b h) (Suc n) ?old2"
      using a by (simp add: x k)
    have sub: "set ?old2 \<subseteq> insert (ObjKey n, b) (insert (AppKey a, b) (set old))"
      using set_mapSet [of ?old1 "ObjKey n" b] set_mapSet [of old "AppKey a" b]
      by (auto split: if_splits)
    have heap: "\<And>c. (if \<exists>a \<in> set olds. (AppKey a, c) \<in> set m
                      then (buttons (destroyButton b h) c)\<lparr>isValid := False\<rparr>
                      else buttons (destroyButton b h) c)
                   = (if \<exists>a \<in> set olds. (AppKey a, c) \<in> set (x # m)
                      then (buttons h c)\<lparr>isValid := False\<rparr> else buttons h c)"
      using a by (auto simp: x k destroyButton_def)
    have nb: "nextButton (destroyButton b h) = nextButton h"
      by (simp add: destroyButton_def)
    from Cons.IH [of "destroyButton b h" "Suc n" ?old2]
    have ih: "\<forall>c. buttons (fst (retireChanged olds m (destroyButton b h) (Suc n) ?old2)) c
                 = (if \<exists>a \<in> set olds. (AppKey a, c) \<in> set (x # m)
                    then (buttons h c)\<lparr>isValid := False\<rparr> else buttons h c)"
      and ih2: "nextButton (fst (retireChanged olds m (destroyButton b h) (Suc n) ?old2)) = nextButton h"
      and ih3: "\<forall>en \<in> set (snd (snd (retireChanged olds m (destroyButton b h) (Suc n) ?old2))).
         en \<in> set ?old2 \<or> en \<in> set m
         \<or> (\<exists>j a. fst en = ObjKey j \<and> a \<in> set olds \<and> (AppKey a, snd en) \<in> set m)"
      unfolding heap [symmetric] nb [symmetric] by blast+
    have "\<forall>en \<in> set (snd (snd (retireChanged olds m (destroyButton b h) (Suc n) ?old2))).
         en \<in> set old \<or> en \<in> set (x # m)
         \<or> (\<exists>j a. fst en = ObjKey j \<and> a \<in> set olds \<and> (AppKey a, snd en) \<in> set (x # m))"
    proof
      fix en assume "en \<in> set (snd (snd (retireChanged olds m (destroyButton b h) (Suc n) ?old2)))"
      with ih3 have "en \<in> set ?old2 \<or> en \<in> set m
         \<or> (\<exists>j a. fst en = ObjKey j \<and> a \<in> set olds \<and> (AppKey a, snd en) \<in> set m)" by blast
      moreover have "en \<in> set ?old2 \<Longrightarrow> en = (ObjKey n, b) \<or> en = (AppKey a, b) \<or> en \<in> set old"
        using sub by auto
      ultimately show "en \<in> set old \<or> en \<in> set (x # m)
         \<or> (\<exists>j a. fst en = ObjKey j \<and> a \<in> set olds \<and> (AppKey a, snd en) \<in> set (x # m))"
        using a by (auto simp: x k)
    qed
    with ih ih2 show ?thesis unfolding eq by simp
  qed
qed

lemma mergeRetained_none:
  assumes "\<forall>en \<in> set merged. isValid (buttons h (snd en)) \<longrightarrow> mapHas new (fst en)"
  shows "mergeRetained hf h merged i new sb sp = (new, sb, sp)"
  using assms
proof (induction merged arbitrary: i)
  case Nil
  show ?case by simp
next
  case (Cons en merged)
  obtain k b where en: "en = (k, b)" by (cases en)
  from Cons.prems have rest: "\<forall>en \<in> set merged. isValid (buttons h (snd en)) \<longrightarrow> mapHas new (fst en)"
    and here: "isValid (buttons h b) \<longrightarrow> mapHas new k"
    by (simp_all add: en)
  show ?case
    using here Cons.IH [OF rest] by (simp add: en)
qed

lemma foldl_mapSet_same:
  assumes "distinct (map fst acc)" and "set es \<subseteq> set acc"
  shows "foldl (\<lambda>m e. mapSet m (fst e) (snd e)) acc es = acc"
  using assms
proof (induction es)
  case Nil
  show ?case by simp
next
  case (Cons x es)
  then have "mapSet acc (fst x) (snd x) = acc"
    using mapSet_same [of acc "fst x" "snd x"] by simp
  with Cons show ?case by simp
qed

lemma foldl_mapSet_new:
  "distinct (map fst (acc @ es)) \<Longrightarrow> foldl (\<lambda>m e. mapSet m (fst e) (snd e)) acc es = acc @ es"
proof (induction es arbitrary: acc)
  case Nil
  show ?case by simp
next
  case (Cons x es)
  from Cons.prems have "fst x \<notin> fst ` set acc" by auto
  then have "mapSet acc (fst x) (snd x) = acc @ [x]"
    using mapSet_fresh [of "fst x" acc "snd x"] by simp
  with Cons.IH [of "acc @ [x]"] Cons.prems show ?case by simp
qed

lemma mapMerge_same: "distinct (map fst m) \<Longrightarrow> mapMerge m m = m"
proof -
  assume d: "distinct (map fst m)"
  have "foldl (\<lambda>m e. mapSet m (fst e) (snd e)) [] m = m"
    using foldl_mapSet_new [of "[]" m] d by simp
  then show ?thesis
    using foldl_mapSet_same [OF d, of m] by (simp add: mapMerge_def)
qed

subsection \<open>The desired set and the running-apps cache\<close>

lemma setUnion_prefix:
  "\<exists>u. setUnion s t = s @ u \<and> set u \<inter> set s = {} \<and> set u \<subseteq> set t"
  unfolding setUnion_def
proof (induction t arbitrary: s)
  case Nil
  show ?case by simp
next
  case (Cons v t)
  from Cons.IH [of "setAdd s v"] obtain u where u: "foldl setAdd (setAdd s v) t = setAdd s v @ u"
    "set u \<inter> set (setAdd s v) = {}" "set u \<subseteq> set t"
    by blast
  show ?case
  proof (cases "v \<in> set s")
    case True
    then have sa: "setAdd s v = s" by (simp add: setAdd_def)
    from u show ?thesis
      unfolding sa by (intro exI [of _ u]) (auto simp: sa)
  next
    case False
    then have sa: "setAdd s v = s @ [v]" by (simp add: setAdd_def)
    from u False show ?thesis
      unfolding sa by (intro exI [of _ "v # u"]) (auto simp: sa)
  qed
qed

lemma setUnion_absorb: "set t \<subseteq> set s \<Longrightarrow> setUnion s t = s"
  unfolding setUnion_def by (induction t) (simp_all add: setAdd_def)

lemma setUnion_append: "setUnion s (t @ u) = setUnion (setUnion s t) u"
  by (simp add: setUnion_def)

lemma setUnion_Nil_distinct: "distinct f \<Longrightarrow> setUnion [] f = f"
  using setUnion_distinct [of "[]" f] by simp

lemma mapSet_idem: "mapSet (mapSet m k v) k v = mapSet m k v"
  by (induction m) auto

lemma mapGet_mapSet: "mapGet (mapSet m k v) k = Some v"
  by (induction m) (auto simp: mapGet_def)

lemma mapDelete_idem: "mapDelete (mapDelete m k) k = mapDelete m k"
  by (simp add: mapDelete_def)

lemma getRunningApps_cached:
  assumes "workspace e = Some ws" and "hasService e" and "queriedApps e = Some q" and "q \<noteq> []"
    and "mapGet (runningApps t) ws = Some r"
  shows "getRunningApps e t
           = (t\<lparr>runningApps := mapSet (runningApps t) ws (setUnion [] (filter (\<lambda>a. a \<in> set q) r @ q))\<rparr>,
              Some (setUnion [] (filter (\<lambda>a. a \<in> set q) r @ q)))"
  using assms by (simp add: getRunningApps_def Let_def)

lemma getRunningApps_idem:
  assumes "setsOk e" and "runningApps t' = runningApps (fst (getRunningApps e t))"
  shows "runningApps (fst (getRunningApps e t')) = runningApps t'
         \<and> snd (getRunningApps e t') = snd (getRunningApps e t)"
proof (cases "workspace e = None \<or> \<not> hasService e")
  case True
  with assms(2) show ?thesis by (auto simp: getRunningApps_def split: option.splits)
next
  case False
  then obtain ws where ws: "workspace e = Some ws" and hs: "hasService e" by auto
  show ?thesis
  proof (cases "queriedApps e = None \<or> queriedApps e = Some []")
    case True
    with assms(2) ws hs show ?thesis
      by (auto simp: getRunningApps_def mapDelete_idem)
  next
    case False
    then obtain q where q: "queriedApps e = Some q" and ne: "q \<noteq> []" by auto
    from assms(1) q have dq: "distinct q" by (simp add: setsOk_def)
    define r where "r = (case mapGet (runningApps t) ws of
                           None \<Rightarrow> q
                         | Some old \<Rightarrow> setUnion [] (filter (\<lambda>a. a \<in> set q) old @ q))"
    have first: "runningApps (fst (getRunningApps e t)) = mapSet (runningApps t) ws r"
      "snd (getRunningApps e t) = Some r"
      using ws hs q ne by (simp_all add: getRunningApps_def r_def Let_def split: option.splits)
    have rq: "set r = set q \<and> distinct r"
    proof (cases "mapGet (runningApps t) ws")
      case None
      then show ?thesis using dq by (simp add: r_def)
    next
      case (Some old)
      then show ?thesis
        by (auto simp: r_def set_setUnion distinct_setUnion)
    qed
    then have f: "filter (\<lambda>a. a \<in> set q) r = r" by (simp add: filter_id_conv)
    have "setUnion [] (r @ q) = setUnion r q"
      using rq by (simp add: setUnion_append setUnion_Nil_distinct)
    also have "\<dots> = r" using rq by (simp add: setUnion_absorb)
    finally have again: "setUnion [] (filter (\<lambda>a. a \<in> set q) r @ q) = r"
      by (simp add: f)
    have get: "mapGet (runningApps t') ws = Some r"
      by (simp add: assms(2) first mapGet_mapSet)
    show ?thesis
      using getRunningApps_cached [OF ws hs q ne get] again
      by (simp add: assms(2) first mapSet_idem)
  qed
qed

subsection \<open>Reconciliation when no button of a leaving application is alive\<close>

lemma reconcile_settled:
  assumes ok: "\<forall>en \<in> set m. entryOk h en" and dm: "distinct (map fst m)"
    and nr: "\<forall>en \<in> set m. isValid (buttons h (snd en)) \<longrightarrow> (\<exists>a \<in> set apps. fst en = AppKey a)"
    and da: "distinct apps"
  shows "\<exists>es nk.
           snd (reconcile e t t1 m apps h)
             = (let sp = (if favorites e \<noteq> None then int (favoriteAppsSize e) else -1);
                    t2 = t1\<lparr>appButtons := Some es, separatorPosition := sp,
                            placed := map snd es, nextKey := nk\<rparr>
                in case separator t of
                     None \<Rightarrow> t2
                   | Some s \<Rightarrow>
                       t2\<lparr>separator := Some \<lparr>sepPosition = sp,
                            sepIsVisible = (enableSeparator e \<and> favoriteAppsSize e > 0
                                            \<and> length apps > favoriteAppsSize e)\<rparr>\<rparr>)
           \<and> map fst es = map AppKey apps
           \<and> (\<forall>en \<in> set es. \<forall>a. fst en = AppKey a \<longrightarrow>
                 snd en < nextButton (fst (reconcile e t t1 m apps h))
                 \<and> isValid (buttons (fst (reconcile e t t1 m apps h)) (snd en))
                 \<and> app (buttons (fst (reconcile e t t1 m apps h)) (snd en)) = a
                 \<and> (isFavorite (buttons (fst (reconcile e t t1 m apps h)) (snd en)) = initialFavorite e a
                    \<or> (isValid (buttons h (snd en)) \<and> (AppKey a, snd en) \<in> set m
                        \<and> \<not> isFavoriteChanged e t h (snd en) a
                        \<and> isFavorite (buttons (fst (reconcile e t t1 m apps h)) (snd en))
                            = isFavorite (buttons h (snd en)))))"
proof -
  define r1 where "r1 = renderApps e t m apps h [] [] []"
  define h1 where "h1 = fst r1"
  define new where "new = fst (snd r1)"
  define olds where "olds = fst (snd (snd r1))"
  define sb where "sb = snd (snd (snd r1))"
  define r2 where "r2 = (if olds = [] then (h1, nextKey t, m)
                          else retireChanged olds m h1 (nextKey t) [])"
  define h2 where "h2 = fst r2"
  define sp where "sp = (if favorites e \<noteq> None then int (favoriteAppsSize e) else -1)"
  define merged where "merged = mapMerge (snd (snd r2)) new"
  define r3 where "r3 = (if length merged \<noteq> length new
                then mergeRetained (favorites e \<noteq> None) h2 merged (-1) new sb sp
                else (new, sb, sp))"
  define D where "D = (\<lambda>b. \<exists>a \<in> set olds. (AppKey a, b) \<in> set m)"
  have alloc: "\<forall>x \<in> set m. snd x < nextButton h"
    using ok by (simp add: entryOk_def)
  from renderApps_strong [OF alloc da, of "[]" e t "[]" "[]"]
  have es: "map fst new = map AppKey apps" "sb = map snd new"
    "\<forall>en \<in> set new. renderedFrom e t m h h1 en"
    "\<forall>b < nextButton h. buttons h1 b = buttons h b"
    "nextButton h \<le> nextButton h1"
    "set olds \<subseteq> {a \<in> set apps. flippedApp e t m h a}"
    by (auto simp: new_def sb_def h1_def olds_def r1_def)
  have heap2: "\<forall>b. buttons h2 b = (if D b then (buttons h1 b)\<lparr>isValid := False\<rparr> else buttons h1 b)"
    and next2: "nextButton h2 = nextButton h1"
    and old2: "\<forall>en \<in> set (snd (snd r2)). en \<in> set m \<or> (\<exists>j. fst en = ObjKey j \<and> D (snd en))"
  proof -
    show "\<forall>b. buttons h2 b = (if D b then (buttons h1 b)\<lparr>isValid := False\<rparr> else buttons h1 b)"
      using retireChanged_effect [of olds m h1 "nextKey t" "[]"]
      by (cases "olds = []") (simp_all add: h2_def r2_def D_def)
    show "nextButton h2 = nextButton h1"
      using retireChanged_effect [of olds m h1 "nextKey t" "[]"]
      by (cases "olds = []") (simp_all add: h2_def r2_def)
    show "\<forall>en \<in> set (snd (snd r2)). en \<in> set m \<or> (\<exists>j. fst en = ObjKey j \<and> D (snd en))"
    proof (cases "olds = []")
      case True
      then show ?thesis by (simp add: r2_def)
    next
      case False
      with retireChanged_effect [of olds m h1 "nextKey t" "[]"] show ?thesis
        by (auto simp: r2_def D_def)
    qed
  qed
  have notD: "\<forall>en \<in> set new. \<not> D (snd en)"
  proof (intro ballI notI)
    fix en assume en: "en \<in> set new" and d: "D (snd en)"
    from d obtain a' where a': "a' \<in> set olds" "(AppKey a', snd en) \<in> set m"
      by (auto simp: D_def)
    from ok a'(2) have lt: "snd en < nextButton h" and app': "app (buttons h (snd en)) = a'"
      by (auto simp: entryOk_def)
    from es(3) en have r: "renderedFrom e t m h h1 en" by blast
    from es(1) en obtain a where ka: "fst en = AppKey a"
      by (metis (no_types, lifting) image_iff in_set_conv_nth length_map list.set_map nth_map)
    from r ka lt have g: "mapGet m (AppKey a) = Some (snd en)"
      and v: "isValid (buttons h (snd en))" and c: "\<not> isFavoriteChanged e t h (snd en) a"
      by (simp_all add: renderedFrom_def)
    from mapGet_mem [OF g] ok have "app (buttons h (snd en)) = a" by (auto simp: entryOk_def)
    with app' have "a' = a" by simp
    with a'(1) es(6) have "flippedApp e t m h a" by auto
    with g c show False by (simp add: flippedApp_def)
  qed
  have cond: "\<forall>en \<in> set merged. isValid (buttons h2 (snd en)) \<longrightarrow> mapHas new (fst en)"
  proof (intro ballI impI)
    fix en assume en: "en \<in> set merged" and v: "isValid (buttons h2 (snd en))"
    from en set_mapMerge [of "snd (snd r2)" new]
    have "en \<in> set new \<or> en \<in> set (snd (snd r2))" by (auto simp: merged_def)
    then show "mapHas new (fst en)"
    proof
      assume "en \<in> set new"
      then show ?thesis by (auto simp: mapHas_def)
    next
      assume "en \<in> set (snd (snd r2))"
      with old2 have "en \<in> set m \<or> (\<exists>j. fst en = ObjKey j \<and> D (snd en))" by blast
      moreover from v heap2 have nd: "\<not> D (snd en)" and v1: "isValid (buttons h1 (snd en))"
        by (auto split: if_splits)
      ultimately have inm: "en \<in> set m" by blast
      with alloc es(4) v1 have "isValid (buttons h (snd en))" by auto
      with nr inm obtain a where "a \<in> set apps" "fst en = AppKey a" by blast
      then have "fst en \<in> set (map AppKey apps)" by simp
      then show ?thesis by (simp add: mapHas_def es(1) [symmetric])
    qed
  qed
  have r3: "r3 = (new, sb, sp)"
    using mergeRetained_none [OF cond] by (simp add: r3_def)
  have res: "fst (reconcile e t t1 m apps h) = h2"
    "snd (reconcile e t t1 m apps h)
       = (case separator t of
            None \<Rightarrow> t1\<lparr>appButtons := Some (fst r3), separatorPosition := sp,
                       placed := fst (snd r3), nextKey := fst (snd r2)\<rparr>
          | Some s \<Rightarrow>
              t1\<lparr>appButtons := Some (fst r3), separatorPosition := sp,
                 placed := fst (snd r3), nextKey := fst (snd r2),
                 separator := Some \<lparr>sepPosition = snd (snd r3),
                     sepIsVisible = (enableSeparator e \<and> favoriteAppsSize e > 0
                                     \<and> length apps > favoriteAppsSize e)\<rparr>\<rparr>)"
    unfolding reconcile_def Let_def r3_def merged_def sp_def h2_def r2_def sb_def olds_def
      new_def h1_def r1_def
    by (auto split: option.splits)
  have ents: "\<forall>en \<in> set new. \<forall>a. fst en = AppKey a \<longrightarrow>
                 snd en < nextButton h2
                 \<and> isValid (buttons h2 (snd en))
                 \<and> app (buttons h2 (snd en)) = a
                 \<and> (isFavorite (buttons h2 (snd en)) = initialFavorite e a
                    \<or> (isValid (buttons h (snd en)) \<and> (AppKey a, snd en) \<in> set m
                        \<and> \<not> isFavoriteChanged e t h (snd en) a
                        \<and> isFavorite (buttons h2 (snd en)) = isFavorite (buttons h (snd en))))"
  proof (intro ballI allI impI)
    fix en a assume en: "en \<in> set new" and ka: "fst en = AppKey a"
    from notD en heap2 have same: "buttons h2 (snd en) = buttons h1 (snd en)" by simp
    from es(3) en have r: "renderedFrom e t m h h1 en" by blast
    show "snd en < nextButton h2
                 \<and> isValid (buttons h2 (snd en))
                 \<and> app (buttons h2 (snd en)) = a
                 \<and> (isFavorite (buttons h2 (snd en)) = initialFavorite e a
                    \<or> (isValid (buttons h (snd en)) \<and> (AppKey a, snd en) \<in> set m
                        \<and> \<not> isFavoriteChanged e t h (snd en) a
                        \<and> isFavorite (buttons h2 (snd en)) = isFavorite (buttons h (snd en))))"
    proof (cases "snd en < nextButton h")
      case True
      with r ka have g: "mapGet m (AppKey a) = Some (snd en)"
        and v: "isValid (buttons h (snd en))" and c: "\<not> isFavoriteChanged e t h (snd en) a"
        by (simp_all add: renderedFrom_def)
      from mapGet_mem [OF g] ok have "app (buttons h (snd en)) = a" by (auto simp: entryOk_def)
      moreover from True es(4) have "buttons h1 (snd en) = buttons h (snd en)" by simp
      ultimately show ?thesis
        using same v c True es(5) next2 mapGet_mem [OF g] by simp
    next
      case False
      with r ka show ?thesis
        using same next2 by (simp add: renderedFrom_def)
    qed
  qed
  show ?thesis
    using res r3 es(1,2) ents
    by (intro exI [of _ new] exI [of _ "fst (snd r2)"])
       (simp add: Let_def sp_def cong: option.case_cong)
qed

lemma rerender_eq:
  "rerender e w =
     (if appButtons (snd w) = None \<or> \<not> hasAllocation e \<or> isQueued e then w
      else if desiredOf e (snd w) = [] then (fst w, fst (getRunningApps e (snd w)))
      else placeItems
             (reconcile e (snd w) (fst (getRunningApps e (snd w))) (the (appButtons (snd w)))
                (desiredOf e (snd w)) (fst w)))"
  by (auto simp: rerender_def desiredOf_def split: option.splits)

lemma desiredOf_favorites:
  assumes "favorites e = Some f" and "distinct f"
  shows "\<exists>u. desiredOf e t = f @ u \<and> set u \<inter> set f = {} \<and> distinct (desiredOf e t)"
proof (cases "snd (getRunningApps e t)")
  case None
  with assms show ?thesis by (simp add: desiredOf_def desiredApps_def)
next
  case (Some r)
  have d: "desiredOf e t = setUnion f r"
    using assms Some by (simp add: desiredOf_def desiredApps_def setUnion_append setUnion_Nil_distinct)
  from setUnion_prefix [of f r] obtain u where "setUnion f r = f @ u" "set u \<inter> set f = {}"
    by blast
  moreover have "distinct (setUnion f r)" using assms(2) by (rule distinct_setUnion)
  ultimately show ?thesis using d by auto
qed

lemma getRunningApps_distinct:
  assumes "setsOk e" and "snd (getRunningApps e t) = Some r"
  shows "distinct r"
proof -
  have "snd (getRunningApps e t) = None \<or> snd (getRunningApps e t) = Some []
        \<or> snd (getRunningApps e t) = queriedApps e
        \<or> (\<exists>x. snd (getRunningApps e t) = Some (setUnion [] x))"
    by (auto simp: getRunningApps_def Let_def split: option.splits)
  with assms show ?thesis
    by (auto simp: setsOk_def distinct_setUnion split: option.splits)
qed

lemma desiredOf_distinct:
  assumes "setsOk e"
  shows "distinct (desiredOf e t)"
proof (cases "favorites e")
  case (Some f)
  with assms have "distinct f" by (simp add: setsOk_def)
  from desiredOf_favorites [OF Some this, of t] show ?thesis by blast
next
  case None
  show ?thesis
  proof (cases "snd (getRunningApps e t)")
    case N: None
    with None show ?thesis by (simp add: desiredOf_def desiredApps_def)
  next
    case (Some r)
    from getRunningApps_distinct [OF assms Some] None Some show ?thesis
      by (simp add: desiredOf_def desiredApps_def)
  qed
qed

subsection \<open>A reconciled taskbar is a fixed point\<close>

lemma renderApps_stable:
  assumes "distinct (map fst (pre @ suf))" and "map fst suf = map AppKey apps"
    and "\<forall>en \<in> set suf. \<forall>a. fst en = AppKey a \<longrightarrow>
           isValid (buttons h (snd en)) \<and> \<not> isFavoriteChanged e t h (snd en) a"
  shows "renderApps e t (pre @ suf) apps h pre olds sb = (h, pre @ suf, olds, sb @ map snd suf)"
  using assms
proof (induction suf arbitrary: pre apps sb)
  case Nil
  then show ?case by simp
next
  case (Cons x suf)
  from Cons.prems(2) obtain a rest where apps: "apps = a # rest" and ka: "fst x = AppKey a"
    and keys: "map fst suf = map AppKey rest"
    by (cases apps) auto
  obtain b where x: "x = (AppKey a, b)" using ka by (cases x) simp
  have g: "mapGet (pre @ x # suf) (AppKey a) = Some b"
    using Cons.prems(1) by (intro mapGet_distinct) (simp_all add: x)
  from Cons.prems(3) have v: "isValid (buttons h b)" and c: "\<not> isFavoriteChanged e t h b a"
    by (simp_all add: x)
  have fresh: "AppKey a \<notin> fst ` set pre"
    using Cons.prems(1) by (auto simp: x)
  have ms: "mapSet pre (AppKey a) b = pre @ [x]"
    using mapSet_fresh [OF fresh] by (simp add: x)
  have d: "distinct (map fst ((pre @ [x]) @ suf))"
    using Cons.prems(1) by simp
  have rest: "\<forall>en \<in> set suf. \<forall>a. fst en = AppKey a \<longrightarrow>
           isValid (buttons h (snd en)) \<and> \<not> isFavoriteChanged e t h (snd en) a"
    using Cons.prems(3) by simp
  from Cons.IH [OF d keys rest, of "sb @ [b]"]
  have "renderApps e t (pre @ x # suf) rest h (pre @ [x]) olds (sb @ [b])
          = (h, pre @ x # suf, olds, sb @ b # map snd suf)"
    by simp
  then show ?case
    using g v c by (simp add: apps ms x)
qed

lemma reconcile_stable:
  assumes keys: "map fst es = map AppKey apps" and da: "distinct apps"
    and ents: "\<forall>en \<in> set es. \<forall>a. fst en = AppKey a \<longrightarrow>
                 isValid (buttons h (snd en)) \<and> \<not> isFavoriteChanged e t h (snd en) a"
    and ab: "appButtons t = Some es" and pl: "placed t = map snd es"
    and sp: "separatorPosition t = (if favorites e \<noteq> None then int (favoriteAppsSize e) else -1)"
    and sep: "separator t = None
              \<or> separator t
                  = Some \<lparr>sepPosition = (if favorites e \<noteq> None then int (favoriteAppsSize e) else -1),
                          sepIsVisible = (enableSeparator e \<and> favoriteAppsSize e > 0
                                          \<and> length apps > favoriteAppsSize e)\<rparr>"
  shows "reconcile e t t es apps h = (h, t)"
proof -
  have d: "distinct (map fst es)"
    using keys da by (simp add: distinct_map inj_on_def)
  from renderApps_stable [of "[]" es apps h e t "[]" "[]"] d keys ents
  have r1: "renderApps e t es apps h [] [] [] = (h, es, [], map snd es)"
    by simp
  have mm: "mapMerge es es = es" using d by (rule mapMerge_same)
  have upd: "t\<lparr>appButtons := Some es,
               separatorPosition := (if favorites e \<noteq> None then int (favoriteAppsSize e) else -1),
               placed := map snd es, nextKey := nextKey t\<rparr> = t"
    using ab pl sp by simp
  show ?thesis
    using sep
  proof
    assume n: "separator t = None"
    show ?thesis
      unfolding reconcile_def Let_def r1 using n upd by (simp add: mm)
  next
    assume s: "separator t
                  = Some \<lparr>sepPosition = (if favorites e \<noteq> None then int (favoriteAppsSize e) else -1),
                          sepIsVisible = (enableSeparator e \<and> favoriteAppsSize e > 0
                                          \<and> length apps > favoriteAppsSize e)\<rparr>"
    have "t\<lparr>separator := separator t\<rparr> = t" by simp
    then show ?thesis
      unfolding reconcile_def Let_def r1 using s upd by (simp add: mm)
  qed
qed

lemma getRunningApps_fixed:
  assumes "setsOk e" and "runningApps t' = runningApps (fst (getRunningApps e t))"
  shows "fst (getRunningApps e t') = t' \<and> desiredOf e t' = desiredOf e t"
proof -
  from getRunningApps_idem [OF assms]
  have r: "runningApps (fst (getRunningApps e t')) = runningApps t'"
    and s: "snd (getRunningApps e t') = snd (getRunningApps e t)"
    by simp_all
  have "fst (getRunningApps e t') = (fst (getRunningApps e t'))\<lparr>runningApps := runningApps t'\<rparr>"
    using r by simp
  also have "\<dots> = t'" by (rule getRunningApps_frame)
  finally show ?thesis using s by (simp add: desiredOf_def)
qed

subsection \<open>No valid button is lost by the reconciliation\<close>

lemma mapSet_other: "(k, v) \<in> set m \<Longrightarrow> k \<noteq> k' \<Longrightarrow> (k, v) \<in> set (mapSet m k' v')"
  by (induction m) (auto split: if_splits)

lemma mapSet_keeps_fresh: "k' \<notin> fst ` set m \<Longrightarrow> set m \<subseteq> set (mapSet m k' v')"
  by (auto simp: mapSet_fresh)

lemma foldl_mapSet_acc:
  "(k, v) \<in> set acc \<Longrightarrow> k \<notin> fst ` set es
   \<Longrightarrow> (k, v) \<in> set (foldl (\<lambda>m e. mapSet m (fst e) (snd e)) acc es)"
proof (induction es arbitrary: acc)
  case Nil
  then show ?case by simp
next
  case (Cons x es)
  from Cons.prems have "(k, v) \<in> set (mapSet acc (fst x) (snd x))"
    by (intro mapSet_other) auto
  with Cons.IH [of "mapSet acc (fst x) (snd x)"] Cons.prems(2) show ?case by simp
qed

lemma foldl_mapSet_list:
  "distinct (map fst es) \<Longrightarrow> (k, v) \<in> set es
   \<Longrightarrow> (k, v) \<in> set (foldl (\<lambda>m e. mapSet m (fst e) (snd e)) acc es)"
proof (induction es arbitrary: acc)
  case Nil
  then show ?case by simp
next
  case (Cons x es)
  show ?case
  proof (cases "x = (k, v)")
    case True
    have "(k, v) \<in> set (mapSet acc k v)" by (rule mem_mapSet)
    moreover from Cons.prems(1) True have "k \<notin> fst ` set es" by auto
    ultimately show ?thesis
      using foldl_mapSet_acc [of k v "mapSet acc k v" es] True by simp
  next
    case False
    with Cons.prems have "(k, v) \<in> set es" "distinct (map fst es)" by auto
    with Cons.IH [of "mapSet acc (fst x) (snd x)"] show ?thesis by simp
  qed
qed

lemma mapMerge_left:
  assumes "distinct (map fst m1)" and "(k, v) \<in> set m1" and "k \<notin> fst ` set m2"
  shows "(k, v) \<in> set (mapMerge m1 m2)"
proof -
  have "(k, v) \<in> set (foldl (\<lambda>m e. mapSet m (fst e) (snd e)) [] m1)"
    using assms(1,2) by (rule foldl_mapSet_list)
  then show ?thesis
    unfolding mapMerge_def foldl_append using assms(3) by (rule foldl_mapSet_acc)
qed

lemma mapMerge_right:
  assumes "distinct (map fst m2)" and "(k, v) \<in> set m2"
  shows "(k, v) \<in> set (mapMerge m1 m2)"
  unfolding mapMerge_def foldl_append using assms by (rule foldl_mapSet_list)

lemma renderApps_tracks:
  assumes "\<forall>x \<in> set m. snd x < nextButton h" and "distinct apps"
    and "\<forall>a \<in> set apps. AppKey a \<notin> fst ` set new"
  shows "(\<forall>b. nextButton h \<le> b \<and> b < nextButton (fst (renderApps e t m apps h new olds sb))
               \<longrightarrow> b \<in> snd ` set (fst (snd (renderApps e t m apps h new olds sb))))
         \<and> (\<forall>a \<in> set apps. flippedApp e t m h a
               \<longrightarrow> a \<in> set (fst (snd (snd (renderApps e t m apps h new olds sb)))))
         \<and> (\<forall>a \<in> set apps. \<forall>b. mapGet m (AppKey a) = Some b \<and> isValid (buttons h b)
                 \<and> \<not> isFavoriteChanged e t h b a
               \<longrightarrow> (AppKey a, b) \<in> set (fst (snd (renderApps e t m apps h new olds sb))))
         \<and> set olds \<subseteq> set (fst (snd (snd (renderApps e t m apps h new olds sb))))
         \<and> set new \<subseteq> set (fst (snd (renderApps e t m apps h new olds sb)))"
  using assms
proof (induction apps arbitrary: h new olds sb)
  case Nil
  show ?case by auto
next
  case (Cons a apps)
  from Cons.prems have da: "distinct apps" and anew: "AppKey a \<notin> fst ` set new"
    and notin: "a \<notin> set apps" and rest: "\<forall>x \<in> set apps. AppKey x \<notin> fst ` set new"
    by auto
  have fresh: "\<And>v. \<forall>x \<in> set apps. AppKey x \<notin> fst ` set (mapSet new (AppKey a) v)"
    using rest notin by (auto simp: keys_mapSet)
  have app1: "\<And>v. mapSet new (AppKey a) v = new @ [(AppKey a, v)]"
    using anew by (rule mapSet_fresh)
  show ?case
  proof (cases "\<exists>b. mapGet m (AppKey a) = Some b \<and> isValid (buttons h b)
                  \<and> \<not> isFavoriteChanged e t h b a")
    case True
    then obtain b where g: "mapGet m (AppKey a) = Some b" and v: "isValid (buttons h b)"
      and c: "\<not> isFavoriteChanged e t h b a"
      by blast
    let ?R = "renderApps e t m apps h (mapSet new (AppKey a) b) olds (sb @ [b])"
    have eq: "renderApps e t m (a # apps) h new olds sb = ?R"
      using g v c by simp
    from Cons.IH [OF Cons.prems(1) da fresh, of b olds "sb @ [b]"]
    have ih: "\<forall>b. nextButton h \<le> b \<and> b < nextButton (fst ?R) \<longrightarrow> b \<in> snd ` set (fst (snd ?R))"
      "\<forall>a \<in> set apps. flippedApp e t m h a \<longrightarrow> a \<in> set (fst (snd (snd ?R)))"
      "\<forall>a \<in> set apps. \<forall>b. mapGet m (AppKey a) = Some b \<and> isValid (buttons h b)
                 \<and> \<not> isFavoriteChanged e t h b a \<longrightarrow> (AppKey a, b) \<in> set (fst (snd ?R))"
      "set olds \<subseteq> set (fst (snd (snd ?R)))"
      "set (mapSet new (AppKey a) b) \<subseteq> set (fst (snd ?R))"
      by blast+
    have nf: "\<not> flippedApp e t m h a"
      using g c by (simp add: flippedApp_def)
    have here: "(AppKey a, b) \<in> set (fst (snd ?R))" and sub: "set new \<subseteq> set (fst (snd ?R))"
      using ih(5) by (auto simp: app1)
    show ?thesis
      unfolding eq using ih(1,2,3,4) nf here sub g by auto
  next
    case False
    let ?h' = "snd (newAppButton a (initialFavorite e a) h)"
    let ?n = "fst (newAppButton a (initialFavorite e a) h)"
    let ?olds = "if flippedApp e t m h a then setAdd olds a else olds"
    let ?R = "renderApps e t m apps ?h' (mapSet new (AppKey a) ?n) ?olds (sb @ [?n])"
    have eq: "renderApps e t m (a # apps) h new olds sb = ?R"
    proof (cases "mapGet m (AppKey a)")
      case None
      then show ?thesis by (simp add: flippedApp_def)
    next
      case (Some b)
      with False have nb: "\<not> (isValid (buttons h b) \<and> \<not> isFavoriteChanged e t h b a)" by simp
      have "flippedApp e t m h a = isValid (buttons h b)"
        using nb Some by (auto simp: flippedApp_def)
      then show ?thesis
        using Some nb by (simp only: renderApps.simps option.case if_False)
    qed
    have n: "?n = nextButton h" and nh': "nextButton ?h' = Suc (nextButton h)"
      and keep: "\<forall>b < nextButton h. buttons ?h' b = buttons h b"
      by (simp_all add: newAppButton_def)
    have p0: "\<forall>x \<in> set m. snd x < nextButton ?h'"
      using Cons.prems(1) nh' by auto
    from Cons.IH [OF p0 da fresh, of ?n ?olds "sb @ [?n]"]
    have ih: "\<forall>b. nextButton ?h' \<le> b \<and> b < nextButton (fst ?R) \<longrightarrow> b \<in> snd ` set (fst (snd ?R))"
      "\<forall>a \<in> set apps. flippedApp e t m ?h' a \<longrightarrow> a \<in> set (fst (snd (snd ?R)))"
      "\<forall>a \<in> set apps. \<forall>b. mapGet m (AppKey a) = Some b \<and> isValid (buttons ?h' b)
                 \<and> \<not> isFavoriteChanged e t ?h' b a \<longrightarrow> (AppKey a, b) \<in> set (fst (snd ?R))"
      "set ?olds \<subseteq> set (fst (snd (snd ?R)))"
      "set (mapSet new (AppKey a) ?n) \<subseteq> set (fst (snd ?R))"
      by blast+
    have same: "\<And>x b. mapGet m (AppKey x) = Some b \<Longrightarrow> buttons ?h' b = buttons h b"
    proof -
      fix x b assume "mapGet m (AppKey x) = Some b"
      from mapGet_mem [OF this] Cons.prems(1) have "b < nextButton h" by auto
      with keep show "buttons ?h' b = buttons h b" by simp
    qed
    have flip: "\<And>x. flippedApp e t m ?h' x = flippedApp e t m h x"
    proof -
      fix x
      show "flippedApp e t m ?h' x = flippedApp e t m h x"
      proof (cases "mapGet m (AppKey x)")
        case None
        then show ?thesis by (simp add: flippedApp_def)
      next
        case (Some b)
        from same [OF Some] show ?thesis
          using Some isFavoriteChanged_cong [of ?h' b h e t x] by (simp add: flippedApp_def)
      qed
    qed
    have here: "(AppKey a, ?n) \<in> set (fst (snd ?R))" and sub: "set new \<subseteq> set (fst (snd ?R))"
      using ih(5) by (auto simp: app1)
    have c1: "\<forall>b. nextButton h \<le> b \<and> b < nextButton (fst ?R) \<longrightarrow> b \<in> snd ` set (fst (snd ?R))"
    proof (intro allI impI)
      fix b assume b: "nextButton h \<le> b \<and> b < nextButton (fst ?R)"
      show "b \<in> snd ` set (fst (snd ?R))"
      proof (cases "b = nextButton h")
        case True
        with here n show ?thesis by force
      next
        case False
        with b nh' have "nextButton ?h' \<le> b \<and> b < nextButton (fst ?R)" by simp
        with ih(1) show ?thesis by blast
      qed
    qed
    have c2: "\<forall>x \<in> set (a # apps). flippedApp e t m h x \<longrightarrow> x \<in> set (fst (snd (snd ?R)))"
      using ih(2,4) by (auto simp: flip set_setAdd split: if_splits)
    have c3: "\<forall>x \<in> set (a # apps). \<forall>b. mapGet m (AppKey x) = Some b \<and> isValid (buttons h b)
                 \<and> \<not> isFavoriteChanged e t h b x \<longrightarrow> (AppKey x, b) \<in> set (fst (snd ?R))"
    proof (intro ballI allI impI)
      fix x b assume x: "x \<in> set (a # apps)"
        and b: "mapGet m (AppKey x) = Some b \<and> isValid (buttons h b) \<and> \<not> isFavoriteChanged e t h b x"
      with False have "x \<noteq> a" by blast
      with x have xa: "x \<in> set apps" by simp
      from b same [of x b] isFavoriteChanged_cong [of ?h' b h e t x]
      have "mapGet m (AppKey x) = Some b \<and> isValid (buttons ?h' b) \<and> \<not> isFavoriteChanged e t ?h' b x"
        by simp
      with ih(3) xa show "(AppKey x, b) \<in> set (fst (snd ?R))" by blast
    qed
    have c4: "set olds \<subseteq> set (fst (snd (snd ?R)))"
      using ih(4) by (auto simp: set_setAdd split: if_splits)
    show ?thesis
      unfolding eq using c1 c2 c3 c4 sub by blast
  qed
qed

lemma retireChanged_keeps:
  assumes "distinct (map fst m)"
    and "((AppKey a, b) \<in> set old \<and> AppKey a \<notin> fst ` set m)
         \<or> ((AppKey a, b) \<in> set m \<and> a \<notin> set olds)"
  shows "(AppKey a, b) \<in> set (snd (snd (retireChanged olds m h n old)))"
  using assms
proof (induction m arbitrary: h n old)
  case Nil
  then show ?case by simp
next
  case (Cons x m)
  obtain k' b' where x: "x = (k', b')" by (cases x)
  from Cons.prems(1) have dm: "distinct (map fst m)" and kn: "k' \<notin> fst ` set m"
    by (auto simp: x)
  show ?case
  proof (cases "\<exists>a'. k' = AppKey a' \<and> a' \<in> set olds")
    case False
    then have eq: "retireChanged olds (x # m) h n old = retireChanged olds m h n (mapSet old k' b')"
      by (cases k') (simp_all add: x)
    have "((AppKey a, b) \<in> set (mapSet old k' b') \<and> AppKey a \<notin> fst ` set m)
         \<or> ((AppKey a, b) \<in> set m \<and> a \<notin> set olds)"
      using Cons.prems(2)
    proof (elim disjE conjE)
      assume "(AppKey a, b) \<in> set old" "AppKey a \<notin> fst ` set (x # m)"
      then show ?thesis using mapSet_other [of "AppKey a" b old k' b'] by (auto simp: x)
    next
      assume "(AppKey a, b) \<in> set (x # m)" "a \<notin> set olds"
      then show ?thesis
        using mem_mapSet [of k' b' old] kn by (auto simp: x)
    qed
    from Cons.IH [OF dm this] show ?thesis unfolding eq .
  next
    case True
    then obtain a' where k: "k' = AppKey a'" and a': "a' \<in> set olds" by blast
    let ?old1 = "if \<not> isFavorite (buttons h b') then mapSet old (AppKey a') b' else old"
    let ?old2 = "mapSet ?old1 (ObjKey n) b'"
    have eq: "retireChanged olds (x # m) h n old
                = retireChanged olds m (destroyButton b' h) (Suc n) ?old2"
      using a' by (simp add: x k)
    have "((AppKey a, b) \<in> set ?old2 \<and> AppKey a \<notin> fst ` set m)
         \<or> ((AppKey a, b) \<in> set m \<and> a \<notin> set olds)"
      using Cons.prems(2)
    proof (elim disjE conjE)
      assume o: "(AppKey a, b) \<in> set old" and nk: "AppKey a \<notin> fst ` set (x # m)"
      then have ne: "a \<noteq> a'" by (auto simp: x k)
      have "(AppKey a, b) \<in> set ?old1"
        using o ne mapSet_other [of "AppKey a" b old "AppKey a'" b'] by simp
      then have "(AppKey a, b) \<in> set ?old2"
        by (intro mapSet_other) simp_all
      with nk show ?thesis by auto
    next
      assume "(AppKey a, b) \<in> set (x # m)" "a \<notin> set olds"
      with a' show ?thesis by (auto simp: x k)
    qed
    from Cons.IH [OF dm this] show ?thesis unfolding eq .
  qed
qed

lemma mergeRetained_new:
  "set new \<subseteq> set (fst (mergeRetained hf h merged i new sb sp))"
proof (induction merged arbitrary: i new sb sp)
  case Nil
  show ?case by simp
next
  case (Cons x merged)
  obtain k b where x: "x = (k, b)" by (cases x)
  show ?case
  proof (cases "isValid (buttons h b) \<and> \<not> mapHas new k")
    case False
    then show ?thesis using Cons.IH by (auto simp: x)
  next
    case True
    then have "k \<notin> fst ` set new" by (simp add: mapHas_def)
    then have "set new \<subseteq> set (mapSet new k b)" by (rule mapSet_keeps_fresh)
    moreover have "\<And>i sb sp. set (mapSet new k b)
                     \<subseteq> set (fst (mergeRetained hf h merged i (mapSet new k b) sb sp))"
      by (rule Cons.IH)
    ultimately have "\<And>i sb sp. set new
                     \<subseteq> set (fst (mergeRetained hf h merged i (mapSet new k b) sb sp))"
      by blast
    with True show ?thesis
      by (simp add: x)
  qed
qed

lemma mergeRetained_keeps:
  assumes "distinct (map fst merged)" and "(k, b) \<in> set merged" and "isValid (buttons h b)"
  shows "(k, b) \<in> set (fst (mergeRetained hf h merged i new sb sp)) \<or> mapHas new k"
  using assms
proof (induction merged arbitrary: i new sb sp)
  case Nil
  then show ?case by simp
next
  case (Cons x merged)
  obtain k' b' where x: "x = (k', b')" by (cases x)
  from Cons.prems(1) have dm: "distinct (map fst merged)" and kn: "k' \<notin> fst ` set merged"
    by (auto simp: x)
  show ?case
  proof (cases "x = (k, b)")
    case True
    then have kk: "k' = k" "b' = b" by (simp_all add: x)
    show ?thesis
    proof (cases "mapHas new k")
      case True
      then show ?thesis by simp
    next
      case False
      have "(k, b) \<in> set (mapSet new k b)" by (rule mem_mapSet)
      then have "\<And>i sb sp. (k, b) \<in> set (fst (mergeRetained hf h merged i (mapSet new k b) sb sp))"
        using mergeRetained_new by blast
      then show ?thesis using False Cons.prems(3) by (simp add: x kk)
    qed
  next
    case False
    with Cons.prems(2) have inm: "(k, b) \<in> set merged" by simp
    with kn have ne: "k \<noteq> k'" by force
    have ih: "\<And>i new sb sp. (k, b) \<in> set (fst (mergeRetained hf h merged i new sb sp)) \<or> mapHas new k"
      using Cons.IH [OF dm inm Cons.prems(3)] .
    have has: "\<And>v. mapHas (mapSet new k' v) k = mapHas new k"
      using ne by (auto simp: mapHas_def map_fst_mapSet)
    show ?thesis
    proof (cases "isValid (buttons h b') \<and> \<not> mapHas new k'")
      case False
      then show ?thesis
        using ih [of i new sb sp] ih [of "i + 1" new sb sp] by (auto simp: x)
    next
      case True
      from ih [of "i + 1" "mapSet new k' b'" "spliceAt (nat (i + 1)) b' sb"
                 "if hf \<and> isFavorite (buttons h b') then sp + 1 else sp"] has [of b']
      show ?thesis using True by (simp add: x)
    qed
  qed
qed

lemma reconcile_keeps:
  assumes ok: "\<forall>en \<in> set m. entryOk h en" and dm: "distinct (map fst m)"
    and da: "distinct apps"
  shows "\<exists>m'. appButtons (snd (reconcile e t t1 m apps h)) = Some m'
           \<and> (\<forall>b < nextButton (fst (reconcile e t t1 m apps h)).
                 isValid (buttons (fst (reconcile e t t1 m apps h)) b)
                 \<longrightarrow> b \<in> snd ` set m'
                     \<or> (b < nextButton h \<and> isValid (buttons h b) \<and> b \<notin> snd ` set m))"
proof -
  define r1 where "r1 = renderApps e t m apps h [] [] []"
  define h1 where "h1 = fst r1"
  define new where "new = fst (snd r1)"
  define olds where "olds = fst (snd (snd r1))"
  define sb where "sb = snd (snd (snd r1))"
  define r2 where "r2 = (if olds = [] then (h1, nextKey t, m)
                          else retireChanged olds m h1 (nextKey t) [])"
  define h2 where "h2 = fst r2"
  define old' where "old' = snd (snd r2)"
  define sp where "sp = (if favorites e \<noteq> None then int (favoriteAppsSize e) else -1)"
  define merged where "merged = mapMerge old' new"
  define r3 where "r3 = (if length merged \<noteq> length new
                then mergeRetained (favorites e \<noteq> None) h2 merged (-1) new sb sp
                else (new, sb, sp))"
  define D where "D = (\<lambda>b. \<exists>a \<in> set olds. (AppKey a, b) \<in> set m)"
  have alloc: "\<forall>x \<in> set m. snd x < nextButton h"
    using ok by (simp add: entryOk_def)
  from renderApps_strong [OF alloc da, of "[]" e t "[]" "[]"]
  have es: "map fst new = map AppKey apps"
    "\<forall>b < nextButton h. buttons h1 b = buttons h b"
    "nextButton h \<le> nextButton h1"
    by (auto simp: new_def sb_def h1_def olds_def r1_def)
  from renderApps_tracks [OF alloc da, of "[]" e t "[]" "[]"]
  have tr: "\<forall>b. nextButton h \<le> b \<and> b < nextButton h1 \<longrightarrow> b \<in> snd ` set new"
    "\<forall>a \<in> set apps. flippedApp e t m h a \<longrightarrow> a \<in> set olds"
    "\<forall>a \<in> set apps. \<forall>b. mapGet m (AppKey a) = Some b \<and> isValid (buttons h b)
         \<and> \<not> isFavoriteChanged e t h b a \<longrightarrow> (AppKey a, b) \<in> set new"
    by (simp_all add: new_def h1_def olds_def r1_def)
  have dnew: "distinct (map fst new)"
    using da by (simp add: es(1) distinct_map inj_on_def)
  have heap2: "\<forall>b. buttons h2 b = (if D b then (buttons h1 b)\<lparr>isValid := False\<rparr> else buttons h1 b)"
    and next2: "nextButton h2 = nextButton h1"
    using retireChanged_effect [of olds m h1 "nextKey t" "[]"]
    by (cases "olds = []"; simp add: h2_def r2_def D_def)+
  have dold: "distinct (map fst old')"
  proof (cases "olds = []")
    case True
    then show ?thesis using dm by (simp add: old'_def r2_def)
  next
    case False
    have "\<forall>en \<in> set m. entryOk h1 en"
      using ok es(2,3) by (auto simp: entryOk_def split: bkey.splits)
    from retireChanged_ok [OF this, of "[]" olds "nextKey t"] False
    show ?thesis by (simp add: old'_def r2_def)
  qed
  have keep2: "\<And>a b. (AppKey a, b) \<in> set m \<Longrightarrow> a \<notin> set olds \<Longrightarrow> (AppKey a, b) \<in> set old'"
  proof -
    fix a b assume inm: "(AppKey a, b) \<in> set m" and no: "a \<notin> set olds"
    show "(AppKey a, b) \<in> set old'"
    proof (cases "olds = []")
      case True
      then show ?thesis using inm by (simp add: old'_def r2_def)
    next
      case False
      from retireChanged_keeps [OF dm, of a b "[]" olds h1 "nextKey t"] inm no False
      show ?thesis by (simp add: old'_def r2_def)
    qed
  qed
  have dmerged: "distinct (map fst merged)"
    unfolding merged_def by (rule distinct_mapMerge)
  have newsub: "set new \<subseteq> set merged"
    using mapMerge_right [OF dnew] by (auto simp: merged_def)
  have res: "fst (reconcile e t t1 m apps h) = h2"
    "appButtons (snd (reconcile e t t1 m apps h)) = Some (fst r3)"
    unfolding reconcile_def Let_def r3_def merged_def old'_def sp_def h2_def r2_def sb_def olds_def
      new_def h1_def r1_def
    by (auto split: option.splits)
  have final: "\<And>k b. (k, b) \<in> set merged \<Longrightarrow> isValid (buttons h2 b) \<Longrightarrow> (k, b) \<in> set (fst r3)"
  proof -
    fix k b assume inm: "(k, b) \<in> set merged" and v: "isValid (buttons h2 b)"
    show "(k, b) \<in> set (fst r3)"
    proof (cases "length merged \<noteq> length new")
      case True
      from mergeRetained_keeps [OF dmerged inm v, of "favorites e \<noteq> None" "-1" new sb sp]
      have "(k, b) \<in> set (fst r3) \<or> mapHas new k"
        using True by (simp add: r3_def)
      moreover have "mapHas new k \<Longrightarrow> (k, b) \<in> set (fst r3)"
      proof -
        assume "mapHas new k"
        then obtain b' where b': "(k, b') \<in> set new" by (auto simp: mapHas_def)
        with newsub have "(k, b') \<in> set merged" by blast
        with inm dmerged have "b' = b" by (metis eq_key_imp_eq_value)
        with b' mergeRetained_new [of new "favorites e \<noteq> None" h2 merged "-1" sb sp] True
        show ?thesis by (auto simp: r3_def)
      qed
      ultimately show ?thesis by blast
    next
      case False
      then have len: "length (map fst merged) = length (map fst new)" by simp
      have "set (map fst new) \<subseteq> set (map fst merged)" using newsub by auto
      moreover have "card (set (map fst merged)) = card (set (map fst new))"
        using distinct_card [OF dmerged] distinct_card [OF dnew] len by simp
      ultimately have "set (map fst new) = set (map fst merged)"
        by (simp add: card_subset_eq)
      with inm obtain b' where b': "(k, b') \<in> set new" by force
      with newsub have "(k, b') \<in> set merged" by blast
      with inm dmerged have "b' = b" by (metis eq_key_imp_eq_value)
      with b' False show ?thesis by (simp add: r3_def)
    qed
  qed
  have newin: "set new \<subseteq> set (fst r3)"
    using mergeRetained_new [of new "favorites e \<noteq> None" h2 merged "-1" sb sp]
    by (auto simp: r3_def)
  have "\<forall>b < nextButton h2. isValid (buttons h2 b)
          \<longrightarrow> b \<in> snd ` set (fst r3) \<or> (b < nextButton h \<and> isValid (buttons h b) \<and> b \<notin> snd ` set m)"
  proof (intro allI impI)
    fix b assume lt: "b < nextButton h2" and v: "isValid (buttons h2 b)"
    from v heap2 have nd: "\<not> D b" and v1: "isValid (buttons h1 b)"
      by (auto split: if_splits)
    show "b \<in> snd ` set (fst r3) \<or> (b < nextButton h \<and> isValid (buttons h b) \<and> b \<notin> snd ` set m)"
    proof (cases "b < nextButton h")
      case False
      with lt next2 tr(1) have "b \<in> snd ` set new" by simp
      with newin show ?thesis by auto
    next
      case True
      with es(2) v1 have vh: "isValid (buttons h b)" by simp
      show ?thesis
      proof (cases "b \<in> snd ` set m")
        case False
        with True vh show ?thesis by simp
      next
        case inm: True
        then obtain k where kb: "(k, b) \<in> set m" by force
        with ok vh obtain a where k: "k = AppKey a"
          by (cases k) (auto simp: entryOk_def)
        from nd kb k have no: "a \<notin> set olds" by (auto simp: D_def)
        from keep2 [OF kb [unfolded k] no] have inold: "(AppKey a, b) \<in> set old'" .
        have g: "mapGet m (AppKey a) = Some b"
          using dm kb k by (simp add: mapGet_distinct)
        have "(AppKey a, b) \<in> set merged"
        proof (cases "AppKey a \<in> fst ` set new")
          case False
          from mapMerge_left [OF dold inold False] show ?thesis by (simp add: merged_def)
        next
          case True
          then have "AppKey a \<in> set (map fst new)" by simp
          then have aa: "a \<in> set apps" by (auto simp: es(1))
          have "\<not> flippedApp e t m h a" using tr(2) aa no by blast
          with g vh have "\<not> isFavoriteChanged e t h b a" by (simp add: flippedApp_def)
          with tr(3) aa g vh have "(AppKey a, b) \<in> set new" by blast
          with newsub show ?thesis by blast
        qed
        from final [OF this v] show ?thesis by force
      qed
    qed
  qed
  then show ?thesis
    using res by simp
qed

subsection \<open>Every valid button is in the map or is the drag candidate\<close>

lemma allTracked_iff:
  "allTracked w =
     (\<forall>b < nextButton (fst w). isValid (buttons (fst w) b)
        \<longrightarrow> b \<in> set (trackedButtons (snd w)) \<or> b \<in> set (dragCandidate (snd w)))"
  by (auto simp: allTracked_def validButtons_def allButtons_def)

lemma rerender_allTracked:
  assumes wt: "wellTracked w" and at: "allTracked w" and so: "setsOk e"
  shows "allTracked (rerender e w)"
proof (cases "appButtons (snd w) = None \<or> \<not> hasAllocation e \<or> isQueued e")
  case True
  then have "rerender e w = w" by (simp add: rerender_eq)
  with at show ?thesis by simp
next
  case False
  then obtain m where m: "appButtons (snd w) = Some m"
    and g: "hasAllocation e" "\<not> isQueued e"
    by auto
  let ?t1 = "fst (getRunningApps e (snd w))"
  show ?thesis
  proof (cases "desiredOf e (snd w) = []")
    case True
    then have r: "rerender e w = (fst w, ?t1)"
      using m g by (simp add: rerender_eq)
    show ?thesis
      using at unfolding r
      by (simp add: allTracked_iff trackedButtons_def dragCandidate_def getRunningApps_fields)
  next
    case ne: False
    let ?R = "reconcile e (snd w) ?t1 m (desiredOf e (snd w)) (fst w)"
    have rr: "rerender e w = placeItems ?R"
      using g ne m by (simp add: rerender_eq)
    from wt m have ok: "\<forall>en \<in> set m. entryOk (fst w) en" and dm: "distinct (map fst m)"
      by (simp_all add: wellTracked_alt)
    from reconcile_keeps [OF ok dm desiredOf_distinct [OF so], of e "snd w" ?t1 "snd w"]
    obtain m' where m': "appButtons (snd ?R) = Some m'"
      and keep: "\<forall>b < nextButton (fst ?R). isValid (buttons (fst ?R) b)
                 \<longrightarrow> b \<in> snd ` set m'
                     \<or> (b < nextButton (fst w) \<and> isValid (buttons (fst w) b) \<and> b \<notin> snd ` set m)"
      by blast
    from reconcile_wellTracked [OF ok dm, of e "snd w" ?t1 "desiredOf e (snd w)"]
    have dh: "dndHandler (snd ?R) = dndHandler (snd w)"
      by (simp add: getRunningApps_fields)
    show ?thesis
      unfolding rr allTracked_iff
    proof (intro allI impI)
      fix b assume "b < nextButton (fst (placeItems ?R))"
        and "isValid (buttons (fst (placeItems ?R)) b)"
      with keep have "b \<in> snd ` set m'
                     \<or> (b < nextButton (fst w) \<and> isValid (buttons (fst w) b) \<and> b \<notin> snd ` set m)"
        by simp
      then show "b \<in> set (trackedButtons (snd (placeItems ?R)))
                 \<or> b \<in> set (dragCandidate (snd (placeItems ?R)))"
      proof
        assume "b \<in> snd ` set m'"
        then show ?thesis by (simp add: trackedButtons_def m')
      next
        assume b: "b < nextButton (fst w) \<and> isValid (buttons (fst w) b) \<and> b \<notin> snd ` set m"
        with at have "b \<in> set (dragCandidate (snd w))"
          by (auto simp: allTracked_iff trackedButtons_def m)
        then show ?thesis by (simp add: dragCandidate_def dh)
      qed
    qed
  qed
qed

lemma insertCandidate_valid:
  "\<forall>b < nextButton (fst (insertCandidate g f x tg ss h d)).
      isValid (buttons (fst (insertCandidate g f x tg ss h d)) b)
      \<longrightarrow> candidate (snd (insertCandidate g f x tg ss h d)) = Some b
          \<or> (b < nextButton h \<and> isValid (buttons h b) \<and> candidate d \<noteq> Some b)"
  by (auto simp: insertCandidate_def Let_def newAppButton_def destroyOptional_def destroyButton_def
        split: option.splits if_splits)

lemma handleDrag_valid:
  "\<forall>b < nextButton (fst (handleDrag g f p h d)).
      isValid (buttons (fst (handleDrag g f p h d)) b)
      \<longrightarrow> candidate (fst (snd (handleDrag g f p h d))) = Some b
          \<or> (b < nextButton h \<and> isValid (buttons h b) \<and> candidate d \<noteq> Some b)"
proof (cases "p = None \<or> slots d = None \<or> \<not> hasParent d")
  case True
  then have "handleDrag g f p h d = (h, d, None)"
    by (auto simp: handleDrag_def split: option.splits)
  then show ?thesis by auto
next
  case False
  then obtain q allSlots where p: "p = Some q" and sl: "slots d = Some allSlots"
    and hp: "hasParent d"
    by auto
  define x where "x = parentRectX g + dragX q"
  define ss where "ss = pruneSlots h allSlots"
  define d1 where "d1 = clampCandidate ss d"
  have c1: "candidate d1 = candidate d" by (simp add: d1_def clampCandidate_def)
  have unfold: "handleDrag g f p h d =
      (if overOwnPlace x (target q) ss
       then (destroyOptional (candidate d1) h, d1\<lparr>candidate := None\<rparr>, competitorAtPosition x ss)
       else if keepsCandidate x (target q) ss d1
       then (h, d1\<lparr>candidatePosition := int (dragPosition x (target q) ss)\<rparr>,
             competitorAtPosition x ss)
       else (fst (insertCandidate g f x (target q) ss h d1),
             snd (insertCandidate g f x (target q) ss h d1), competitorAtPosition x ss))"
    unfolding handleDrag_def p sl
    by (simp add: hp Let_def x_def ss_def d1_def)
  have a: "\<forall>b < nextButton (destroyOptional (candidate d1) h).
             isValid (buttons (destroyOptional (candidate d1) h) b)
             \<longrightarrow> b < nextButton h \<and> isValid (buttons h b) \<and> candidate d \<noteq> Some b"
    by (auto simp: c1 destroyOptional_def destroyButton_def split: option.splits if_splits)
  show ?thesis
    unfolding unfold
    using a insertCandidate_valid [of g f x "target q" ss h d1] c1
    by auto
qed

lemma handleDragOver_allTracked:
  assumes "allTracked w"
  shows "allTracked (handleDragOver e g tgt params w)"
proof (cases "handleDragOver e g tgt params w = w")
  case True
  with assms show ?thesis by simp
next
  case False
  then obtain tg xy m s where tgt: "tgt = Some tg" and params: "params = Some xy"
    and m: "appButtons (snd w) = Some m" and s: "separator (snd w) = Some s"
    by (cases tgt; cases params; cases "appButtons (snd w)"; cases "separator (snd w)")
       (simp_all add: handleDragOver_def)
  define tg' where "tg' = (case tg of
                          TargetButton b \<Rightarrow> tg
                        | TargetExternal a \<Rightarrow>
                            (case mapGet m (AppKey a) of
                               None \<Rightarrow> tg
                             | Some b \<Rightarrow> if isValid (buttons (fst w) b) then TargetButton b else tg))"
  define competitors where "competitors = map (\<lambda>en. AppButton (snd en)) m"
  define cs where "cs = (if favorites e \<noteq> None \<and> separatorPosition (snd w) \<ge> 0
                                      then spliceAt (nat (separatorPosition (snd w))) Separator competitors
                                      else competitors)"
  define d where "d = (case dndHandler (snd w) of
                         Some d \<Rightarrow> d
                       | None \<Rightarrow> newDragAndDropHandler g (fst w) cs)"
  define q where "q = \<lparr>dragX = fst xy, dragY = snd xy, target = tg'\<rparr>"
  define r where "r = handleDrag g (initialFavorite e) (Some q) (fst w) d"
  have res: "fst (handleDragOver e g tgt params w) = fst r"
    "appButtons (snd (handleDragOver e g tgt params w)) = Some m"
    "dndHandler (snd (handleDragOver e g tgt params w)) = Some (fst (snd r))"
    using False
    unfolding handleDragOver_def tgt params m s
    by (auto simp: Let_def r_def q_def d_def cs_def competitors_def tg'_def m
          split: option.splits if_splits)
  have cand: "dragCandidate (snd w) = (case candidate d of None \<Rightarrow> [] | Some c \<Rightarrow> [c])"
    by (simp add: dragCandidate_def d_def newDragAndDropHandler_def split: option.splits)
  show ?thesis
    unfolding allTracked_iff res
  proof (intro allI impI)
    fix b assume "b < nextButton (fst r)" and "isValid (buttons (fst r) b)"
    with handleDrag_valid [of g "initialFavorite e" "Some q" "fst w" d]
    have "candidate (fst (snd r)) = Some b
          \<or> (b < nextButton (fst w) \<and> isValid (buttons (fst w) b) \<and> candidate d \<noteq> Some b)"
      by (simp add: r_def)
    then show "b \<in> set (trackedButtons (snd (handleDragOver e g tgt params w)))
               \<or> b \<in> set (dragCandidate (snd (handleDragOver e g tgt params w)))"
    proof
      assume "candidate (fst (snd r)) = Some b"
      then show ?thesis by (simp add: dragCandidate_def res)
    next
      assume b: "b < nextButton (fst w) \<and> isValid (buttons (fst w) b) \<and> candidate d \<noteq> Some b"
      with assms have "b \<in> set (trackedButtons (snd w)) \<or> b \<in> set (dragCandidate (snd w))"
        by (simp add: allTracked_iff)
      moreover from b have "b \<notin> set (dragCandidate (snd w))"
        by (auto simp: cand split: option.splits)
      ultimately show ?thesis by (simp add: trackedButtons_def res m)
    qed
  qed
qed

lemma collectSlots_entry:
  assumes "(AppKey (app (buttons h b)), b) \<in> set ab \<or> AppButton b \<in> set items"
    and "b = c \<or> app (buttons h b) \<noteq> ca"
    and "\<forall>b'. AppButton b' \<in> set items \<longrightarrow> (b' = c \<or> app (buttons h b') \<noteq> ca)
           \<longrightarrow> app (buttons h b') = app (buttons h b) \<longrightarrow> b' = b"
  shows "(AppKey (app (buttons h b)), b)
           \<in> set (fst (snd (collectSlots h c ca old items i apps ab cp sp n)))"
  using assms
proof (induction items arbitrary: i apps ab cp sp n)
  case Nil
  then show ?case by simp
next
  case (Cons actor items)
  from Cons.prems(3) have uniq: "\<forall>b'. AppButton b' \<in> set items \<longrightarrow> (b' = c \<or> app (buttons h b') \<noteq> ca)
           \<longrightarrow> app (buttons h b') = app (buttons h b) \<longrightarrow> b' = b"
    by simp
  show ?case
  proof (cases actor)
    case Separator
    with Cons.prems(1) have "(AppKey (app (buttons h b)), b) \<in> set ab \<or> AppButton b \<in> set items"
      by auto
    from Cons.IH [OF this Cons.prems(2) uniq] Separator show ?thesis by simp
  next
    case (Other j)
    with Cons.prems(1) have "(AppKey (app (buttons h b)), b) \<in> set ab \<or> AppButton b \<in> set items"
      by auto
    from Cons.IH [OF this Cons.prems(2) uniq] Other show ?thesis by simp
  next
    case (AppButton x)
    show ?thesis
    proof (cases "x = c \<or> app (buttons h x) \<noteq> ca")
      case True
      let ?ab = "mapSet ab (AppKey (app (buttons h x))) x"
      have eq: "fst (snd (collectSlots h c ca old (actor # items) i apps ab cp sp n))
                   = fst (snd (collectSlots h c ca old items (i + 1)
                        (setAdd apps (app (buttons h x))) ?ab (if x = c then i else cp) sp n))"
        using True by (auto simp: AppButton)
      have "(AppKey (app (buttons h b)), b) \<in> set ?ab \<or> AppButton b \<in> set items"
      proof (cases "x = b")
        case True
        then show ?thesis using mem_mapSet [of "AppKey (app (buttons h b))" b ab] by simp
      next
        case ne: False
        from Cons.prems(3) True ne have diff: "app (buttons h x) \<noteq> app (buttons h b)"
          by (auto simp: AppButton)
        from Cons.prems(1) ne have "(AppKey (app (buttons h b)), b) \<in> set ab \<or> AppButton b \<in> set items"
          by (auto simp: AppButton)
        then show ?thesis
          using mapSet_other [of "AppKey (app (buttons h b))" b ab "AppKey (app (buttons h x))" x] diff
          by auto
      qed
      from Cons.IH [OF this Cons.prems(2) uniq] show ?thesis unfolding eq .
    next
      case False
      with Cons.prems(2) have ne: "x \<noteq> b" by auto
      with Cons.prems(1) have pre: "(AppKey (app (buttons h b)), b) \<in> set ab \<or> AppButton b \<in> set items"
        by (auto simp: AppButton)
      show ?thesis
      proof (cases "old = Some x")
        case True
        have eq: "fst (snd (collectSlots h c ca old (actor # items) i apps ab cp sp n))
                   = fst (snd (collectSlots h c ca old items (i + 1) apps
                        (mapSet ab (ObjKey n) x) cp sp (Suc n)))"
          using True False by (auto simp: AppButton)
        have "(AppKey (app (buttons h b)), b) \<in> set (mapSet ab (ObjKey n) x) \<or> AppButton b \<in> set items"
          using pre mapSet_other [of "AppKey (app (buttons h b))" b ab "ObjKey n" x] by auto
        from Cons.IH [OF this Cons.prems(2) uniq] show ?thesis unfolding eq .
      next
        case no: False
        have eq: "fst (snd (collectSlots h c ca old (actor # items) i apps ab cp sp n))
                   = fst (snd (collectSlots h c ca old items (i + 1) apps ab cp sp n))"
          using no False by (auto simp: AppButton)
        from Cons.IH [OF pre Cons.prems(2) uniq] show ?thesis unfolding eq .
      qed
    qed
  qed
qed

lemma tracked_same_app:
  assumes "wellTracked w" and "b \<in> set (trackedButtons (snd w))" and "b' \<in> set (trackedButtons (snd w))"
    and "isValid (buttons (fst w) b)" and "isValid (buttons (fst w) b')"
    and "app (buttons (fst w) b') = app (buttons (fst w) b)"
  shows "b' = b"
proof -
  from assms(2) obtain m where m: "appButtons (snd w) = Some m"
    by (cases "appButtons (snd w)") (simp_all add: trackedButtons_def)
  with assms(1) have dm: "distinct (map fst m)" and ok: "\<forall>en \<in> set m. entryOk (fst w) en"
    by (simp_all add: wellTracked_alt)
  from assms(2,3) m obtain k k' where kb: "(k, b) \<in> set m" and kb': "(k', b') \<in> set m"
    by (auto simp: trackedButtons_def)
  from ok kb assms(4) have "k = AppKey (app (buttons (fst w) b))"
    by (cases k) (auto simp: entryOk_def)
  moreover from ok kb' assms(5) have "k' = AppKey (app (buttons (fst w) b'))"
    by (cases k') (auto simp: entryOk_def)
  ultimately have "k' = k" using assms(6) by simp
  with kb kb' dm show ?thesis by (metis eq_key_imp_eq_value)
qed

lemma tracked_key:
  assumes "wellTracked w" and "appButtons (snd w) = Some m" and "b \<in> snd ` set m"
    and "isValid (buttons (fst w) b)"
  shows "mapGet m (AppKey (app (buttons (fst w) b))) = Some b"
proof -
  from assms(1,2) have dm: "distinct (map fst m)" and ok: "\<forall>en \<in> set m. entryOk (fst w) en"
    by (simp_all add: wellTracked_alt)
  from assms(3) obtain k where kb: "(k, b) \<in> set m" by force
  from ok kb assms(4) have "k = AppKey (app (buttons (fst w) b))"
    by (cases k) (auto simp: entryOk_def)
  with kb dm show ?thesis by (simp add: mapGet_distinct)
qed

lemma taskbarHandleDrop_allTracked:
  assumes wt: "wellTracked w" and at: "allTracked w" and dc: "dropCovered e w"
  shows "allTracked (fst (taskbarHandleDrop e w))"
proof (cases "dndHandler (snd w)")
  case None
  with at show ?thesis by (simp add: taskbarHandleDrop_def)
next
  case (Some d)
  note dh = Some
  show ?thesis
  proof (cases "snd (handleDrop (fst w) d)")
    case None
    with dh at show ?thesis by (simp add: taskbarHandleDrop_def)
  next
    case (Some ci)
    obtain c items where ci: "ci = (c, items)" by (cases ci)
    define h where "h = fst w"
    define d' where "d' = fst (handleDrop h d)"
    define t1 where "t1 = (snd w)\<lparr>dndHandler := Some d'\<rparr>"
    from Some ci obtain ss where ss: "slots d = Some ss" and cd: "candidate d = Some c"
      and items: "items = setAdd (setUnion []
                    (map competitor (filter (\<lambda>s. componentValid h (competitor s)) ss))) (AppButton c)"
      and d'eq: "d' = d\<lparr>candidate := None\<rparr>"
      by (auto simp: handleDrop_def Let_def h_def d'_def split: option.splits)
    from wt dh have dok: "handlerOk h d"
      by (simp add: wellTracked_alt h_def)
    from handleDrop_items [OF dok] Some ci
    have alloc: "\<forall>x \<in> set items. componentAllocated h x"
      by (simp add: h_def)
    from dc obtain ws where hs: "hasService e" and ws: "workspace e = Some ws"
      by (auto simp: dropCovered_def)
    from dc dh ss have cov: "\<forall>b \<in> set (trackedButtons (snd w)). isValid (buttons h b)
                               \<longrightarrow> AppButton b \<in> competitor ` set ss"
      by (auto simp: dropCovered_def validButtons_def h_def)
    define ca where "ca = app (buttons h c)"
    define old where "old = (case appButtons t1 of None \<Rightarrow> None | Some m \<Rightarrow> mapGet m (AppKey ca))"
    define r where "r = collectSlots h c ca old items 0 [] [] (-1) (-1) (nextKey t1)"
    define isFav where "isFav = (fst (snd (snd r)) < fst (snd (snd (snd r))))"
    define h' where "h' = dropButton c isFav (destroyOptional old h)"
    define t2 where "t2 = t1\<lparr>runningApps := mapSet (runningApps t1) ws (fst r),
                                  appButtons := Some (fst (snd r)),
                                  nextKey := snd (snd (snd (snd r))),
                                  dndHandler := (if old \<noteq> None \<and> fst (snd (snd (snd r))) > 0
                                                 then None else dndHandler t1)\<rparr>"
    have cases: "fst (taskbarHandleDrop e w) = (destroyButton c h, t1)
                 \<or> fst (taskbarHandleDrop e w) = (h', t2)"
      using dh Some ci hs ws
      unfolding taskbarHandleDrop_def
      by (auto simp: Let_def h_def d'_def t1_def ca_def old_def r_def isFav_def h'_def t2_def
            split: option.splits)
    have cand1: "dragCandidate t1 = []" "dragCandidate (snd w) = [c]"
      by (simp_all add: dragCandidate_def t1_def d'eq dh cd)
    have tr1: "trackedButtons t1 = trackedButtons (snd w)"
      by (simp add: trackedButtons_def t1_def)
    have settled: "\<And>b. b < nextButton h \<Longrightarrow> isValid (buttons h b) \<Longrightarrow> b \<noteq> c
                     \<Longrightarrow> b \<in> set (trackedButtons (snd w))"
      using at by (auto simp: allTracked_iff h_def cand1)
    have reject: "allTracked (destroyButton c h, t1)"
      unfolding allTracked_iff
      using settled by (auto simp: destroyButton_def tr1 split: if_splits)
    have accept: "allTracked (h', t2)"
      unfolding allTracked_iff
    proof (intro allI impI)
      fix b assume "b < nextButton (fst (h', t2))" and "isValid (buttons (fst (h', t2)) b)"
      then have lt: "b < nextButton h" and v: "isValid (buttons h b)" and no: "old \<noteq> Some b"
        by (auto simp: h'_def dropButton_def destroyOptional_def destroyButton_def
              split: option.splits if_splits)
      have inItems: "AppButton b \<in> set items" and side: "b = c \<or> app (buttons h b) \<noteq> ca"
      proof -
        show "AppButton b \<in> set items"
        proof (cases "b = c")
          case True
          then show ?thesis by (simp add: items set_setAdd)
        next
          case False
          from settled [OF lt v False] cov v obtain sl where sl: "sl \<in> set ss"
            and cs: "competitor sl = AppButton b"
            by force
          from cs v have "componentValid h (competitor sl)" by (simp add: componentValid_def)
          with sl cs show ?thesis
            by (force simp: items set_setAdd set_setUnion)
        qed
        show "b = c \<or> app (buttons h b) \<noteq> ca"
        proof (rule ccontr)
          assume "\<not> (b = c \<or> app (buttons h b) \<noteq> ca)"
          then have ne: "b \<noteq> c" and same: "app (buttons h b) = ca" by auto
          from settled [OF lt v ne] obtain m where m: "appButtons (snd w) = Some m"
            and bm: "b \<in> snd ` set m"
            by (cases "appButtons (snd w)") (auto simp: trackedButtons_def)
          from tracked_key [OF wt m bm] v same have "mapGet m (AppKey ca) = Some b"
            by (simp add: h_def)
          then have "old = Some b" by (simp add: old_def t1_def m)
          with no show False by simp
        qed
      qed
      have uniq: "\<forall>b'. AppButton b' \<in> set items \<longrightarrow> (b' = c \<or> app (buttons h b') \<noteq> ca)
           \<longrightarrow> app (buttons h b') = app (buttons h b) \<longrightarrow> b' = b"
      proof (intro allI impI)
        fix b' assume i': "AppButton b' \<in> set items" and s': "b' = c \<or> app (buttons h b') \<noteq> ca"
          and a': "app (buttons h b') = app (buttons h b)"
        show "b' = b"
        proof (cases "b' = c \<or> b = c")
          case True
          with s' side a' show ?thesis by (auto simp: ca_def)
        next
          case False
          then have n': "b' \<noteq> c" and n: "b \<noteq> c" by auto
          from i' n' obtain sl where "sl \<in> set ss" and cs': "competitor sl = AppButton b'"
            and vs: "componentValid h (competitor sl)"
            by (auto simp: items set_setAdd set_setUnion)
          from vs have v': "isValid (buttons h b')"
            by (simp add: cs' componentValid_def)
          from i' alloc have lt': "b' < nextButton h" by (auto simp: componentAllocated_def)
          from tracked_same_app [OF wt settled [OF lt v n] settled [OF lt' v' n']] v v' a'
          show ?thesis by (simp add: h_def)
        qed
      qed
      from collectSlots_entry [of h b "[]" items c ca old 0 "[]" "-1" "-1" "nextKey t1"]
        inItems side uniq
      have "(AppKey (app (buttons h b)), b) \<in> set (fst (snd r))"
        by (simp add: r_def)
      then have "b \<in> snd ` set (fst (snd r))" by force
      then show "b \<in> set (trackedButtons (snd (h', t2))) \<or> b \<in> set (dragCandidate (snd (h', t2)))"
        by (simp add: trackedButtons_def t2_def)
    qed
    from cases reject accept show ?thesis by auto
  qed
qed

lemma destroy_allTracked:
  assumes "allTracked (h, t)" and "trackedButtons t' = trackedButtons t"
    and "set (dragCandidate t') = set (dragCandidate t) \<or> (\<exists>c. ob = Some c \<and> dragCandidate t = [c])"
  shows "allTracked (destroyOptional ob h, t')"
  using assms
  by (auto simp: allTracked_iff destroyOptional_def destroyButton_def split: option.splits if_splits)

lemma dragActorDestroyed_allTracked:
  assumes "allTracked w"
  shows "allTracked (dragActorDestroyed w)"
proof (cases "dndHandler (snd w)")
  case None
  with assms show ?thesis
    by (simp add: dragActorDestroyed_def allTracked_iff trackedButtons_def dragCandidate_def)
next
  case (Some d)
  from assms have a: "allTracked (fst w, snd w)" by simp
  have "allTracked (destroyOptional (candidate d) (fst w), (snd w)\<lparr>dragMode := False, dndHandler := None\<rparr>)"
    using a Some
    by (auto simp: allTracked_iff destroyOptional_def destroyButton_def trackedButtons_def
          dragCandidate_def split: option.splits if_splits)
  with Some show ?thesis by (simp add: dragActorDestroyed_def dndDestroy_def)
qed

lemma dragActorLeft_allTracked:
  assumes "allTracked w"
  shows "allTracked (dragActorLeft w)"
proof (cases "dndHandler (snd w)")
  case None
  with assms show ?thesis by (simp add: dragActorLeft_def)
next
  case (Some d)
  from assms have a: "allTracked (fst w, snd w)" by simp
  have "allTracked (destroyOptional (candidate d) (fst w),
                    (snd w)\<lparr>dndHandler := Some (d\<lparr>candidate := None\<rparr>)\<rparr>)"
    using a Some
    by (auto simp: allTracked_iff destroyOptional_def destroyButton_def trackedButtons_def
          dragCandidate_def split: option.splits if_splits)
  with Some show ?thesis by (simp add: dragActorLeft_def)
qed

lemma step_allTracked:
  assumes "wellTracked w" and "allTracked w" and "admissible op w"
  shows "allTracked (step op w)"
proof (cases op)
  case (Rerender e)
  with assms rerender_allTracked [of w e] show ?thesis by (simp add: admissible_def)
next
  case (DragOver e g tg x y)
  with assms(2) handleDragOver_allTracked show ?thesis by simp
next
  case (Drop e)
  with assms taskbarHandleDrop_allTracked [of w e] show ?thesis by (simp add: admissible_def)
next
  case DragActorDestroyed
  with assms(2) dragActorDestroyed_allTracked show ?thesis by simp
next
  case DragActorLeft
  with assms(2) dragActorLeft_allTracked show ?thesis by simp
next
  case (ButtonDestroyed b)
  from assms(2) have "allTracked (fst w, snd w)" by simp
  then have "allTracked (destroyButton b (fst w), snd w)"
    by (auto simp: allTracked_iff destroyButton_def split: if_splits)
  with ButtonDestroyed show ?thesis by simp
qed

lemma run_allTracked:
  "wellTracked w \<Longrightarrow> allTracked w \<Longrightarrow> disciplined ops w
   \<Longrightarrow> wellTracked (run ops w) \<and> allTracked (run ops w)"
proof (induction ops arbitrary: w)
  case Nil
  then show ?case by (simp add: run_def)
next
  case (Cons op ops)
  from Cons.prems have "wellTracked (step op w)" "allTracked (step op w)" "disciplined ops (step op w)"
    using step_wellTracked step_allTracked by simp_all
  from Cons.IH [OF this] show ?case by (simp add: run_def)
qed

lemma disciplined_take: "disciplined ops w \<Longrightarrow> disciplined (take k ops) w"
proof (induction ops arbitrary: k w)
  case Nil
  then show ?case by simp
next
  case (Cons op ops)
  then show ?case by (cases k) simp_all
qed

lemma initialWorld_allTracked: "allTracked initialWorld"
  by (simp add: allTracked_iff initialWorld_def emptyHeap_def)

lemma tracked_noDuplicate:
  assumes wt: "wellTracked w" and at: "allTracked w"
  shows "noDuplicateSettled w"
proof -
  have d: "distinct (settledButtons w)"
    by (simp add: settledButtons_def validButtons_def allButtons_def)
  have "inj_on (\<lambda>b. app (buttons (fst w) b)) (set (settledButtons w))"
  proof (rule inj_onI)
    fix b b' assume b: "b \<in> set (settledButtons w)" and b': "b' \<in> set (settledButtons w)"
      and eq: "app (buttons (fst w) b) = app (buttons (fst w) b')"
    from b at have tb: "b \<in> set (trackedButtons (snd w))" and vb: "isValid (buttons (fst w) b)"
      by (auto simp: settledButtons_def allTracked_def validButtons_def)
    from b' at have tb': "b' \<in> set (trackedButtons (snd w))" and vb': "isValid (buttons (fst w) b')"
      by (auto simp: settledButtons_def allTracked_def validButtons_def)
    from tracked_same_app [OF wt tb' tb vb' vb] eq show "b = b'" by simp
  qed
  with d show ?thesis
    by (simp add: noDuplicateSettled_def appsOf_def distinct_map)
qed

text \<open>
  C2, as stated, fails: after a reconciliation that shows the applications 1 and 2,
  dragging the button of application 2 over the button of application 1 makes
  \<open>handleDrag\<close> create the candidate, a second valid AppButton bound to application 2, in
  the container. Apart from the candidate, a drop can lose a button: application 1 is
  shown, an external application 3 is dragged to the end of the row, a reconciliation
  during the drag makes a button for application 2, and the drop rebuilds \<open>#appButtons\<close>
  from the slots of the handler, which do not hold that button; the next reconciliation
  makes a second button for application 2.
\<close>

theorem drag_candidate_duplicates_item:
  "\<not> noDuplicateItems
       (run [Rerender (sampleEnv None (Some [1, 2])),
             DragOver (sampleEnv None (Some [1, 2])) rowGeometry (TargetButton 1) 5 0] initialWorld)
   \<and> appsOf (fst (run [Rerender (sampleEnv None (Some [1, 2])),
             DragOver (sampleEnv None (Some [1, 2])) rowGeometry (TargetButton 1) 5 0] initialWorld))
        (validButtons (fst (run [Rerender (sampleEnv None (Some [1, 2])),
             DragOver (sampleEnv None (Some [1, 2])) rowGeometry (TargetButton 1) 5 0] initialWorld))
           (allButtons (fst (run [Rerender (sampleEnv None (Some [1, 2])),
             DragOver (sampleEnv None (Some [1, 2])) rowGeometry (TargetButton 1) 5 0] initialWorld))))
       = [1, 2, 2]
   \<and> \<not> noDuplicateSettled
       (run [Rerender (sampleEnv None (Some [1])),
             DragOver (sampleEnv None (Some [1])) rowGeometry (TargetExternal 3) 50 0,
             Rerender (sampleEnv None (Some [1, 2])),
             Drop (sampleEnv None (Some [1, 2])),
             Rerender (sampleEnv None (Some [1, 2]))] initialWorld)
   \<and> appsOf (fst (run [Rerender (sampleEnv None (Some [1])),
             DragOver (sampleEnv None (Some [1])) rowGeometry (TargetExternal 3) 50 0,
             Rerender (sampleEnv None (Some [1, 2])),
             Drop (sampleEnv None (Some [1, 2])),
             Rerender (sampleEnv None (Some [1, 2]))] initialWorld))
        (settledButtons (run [Rerender (sampleEnv None (Some [1])),
             DragOver (sampleEnv None (Some [1])) rowGeometry (TargetExternal 3) 50 0,
             Rerender (sampleEnv None (Some [1, 2])),
             Drop (sampleEnv None (Some [1, 2])),
             Rerender (sampleEnv None (Some [1, 2]))] initialWorld))
       = [1, 3, 2, 2]"
  by code_simp


text \<open>
  C2, amended. Take any sequence of reconciliations, drags, drops, drag ends and
  destructions of buttons, starting from a new taskbar, in which every reconciliation
  reads sets of applications and every drop finds a workspace and finds every valid
  button of \<open>#appButtons\<close> among the slots of its handler. Then at every point of the
  sequence the valid AppButtons other than the candidate of the running drag are bound
  to pairwise different applications.
\<close>

theorem settled_items_unique:
  assumes "disciplined ops initialWorld"
  shows "\<forall>k \<le> length ops. noDuplicateSettled (run (take k ops) initialWorld)"
proof (intro allI impI)
  fix k
  from run_allTracked [OF initialWorld_wellTracked initialWorld_allTracked
         disciplined_take [OF assms, of k]]
  show "noDuplicateSettled (run (take k ops) initialWorld)"
    using tracked_noDuplicate by blast
qed

theorem settled_items_unique_witness:
  "disciplined sampleSession initialWorld
   \<and> noDuplicateSettled (run sampleSession initialWorld)
   \<and> settledButtons (run sampleSession initialWorld) = [0, 2]
   \<and> appsOf (fst (run sampleSession initialWorld)) (settledButtons (run sampleSession initialWorld))
       = [1, 2]
   \<and> noDuplicateSettled (run (take 2 sampleSession) initialWorld)
   \<and> settledButtons (run (take 2 sampleSession) initialWorld) = [0, 1]
   \<and> dragCandidate (snd (run (take 2 sampleSession) initialWorld)) = [2]
   \<and> \<not> noDuplicateItems (run (take 2 sampleSession) initialWorld)"
proof -
  have d: "disciplined sampleSession initialWorld" by code_simp
  have l: "(5::nat) \<le> length sampleSession" "(2::nat) \<le> length sampleSession"
    by (simp_all add: sampleSession_def)
  have t: "take 5 sampleSession = sampleSession"
    by (simp add: sampleSession_def)
  have e: "settledButtons (run sampleSession initialWorld) = [0, 2]"
    "appsOf (fst (run sampleSession initialWorld)) (settledButtons (run sampleSession initialWorld))
       = [1, 2]"
    "settledButtons (run (take 2 sampleSession) initialWorld) = [0, 1]"
    "dragCandidate (snd (run (take 2 sampleSession) initialWorld)) = [2]"
    "\<not> noDuplicateItems (run (take 2 sampleSession) initialWorld)"
    by code_simp+
  from settled_items_unique [OF d] l t
  have "noDuplicateSettled (run sampleSession initialWorld)"
    "noDuplicateSettled (run (take 2 sampleSession) initialWorld)"
    by metis+
  with d e show ?thesis by simp
qed

subsection \<open>The container after the calls of setParent\<close>

lemma children_setParent:
  "children (setParent c p h) =
     (if p < 0 then removeAll c (children h) @ [c]
      else take (nat p) (removeAll c (children h)) @ [c] @ drop (nat p) (removeAll c (children h)))"
  by (simp add: setParent_def Let_def)

lemma children_placeButtons_from:
  assumes "distinct bs" and "length P = i" and "set P \<inter> AppButton ` set bs = {}"
    and "children h = P @ R"
  shows "children (placeButtons i bs h)
           = P @ map AppButton bs @ filter (\<lambda>c. c \<notin> AppButton ` set bs) R"
  using assms
proof (induction bs arbitrary: i P R h)
  case Nil
  then show ?case by simp
next
  case (Cons b bs)
  let ?h = "setParent (AppButton b) (int i) h"
  from Cons.prems(3) have nb: "AppButton b \<notin> set P" by auto
  have rm: "removeAll (AppButton b) (P @ R) = P @ removeAll (AppButton b) R"
    using nb by simp
  have ch: "children ?h = (P @ [AppButton b]) @ removeAll (AppButton b) R"
    unfolding children_setParent Cons.prems(4) rm using Cons.prems(2) by simp
  have d: "distinct bs" and nin: "b \<notin> set bs" using Cons.prems(1) by simp_all
  have len: "length (P @ [AppButton b]) = Suc i" using Cons.prems(2) by simp
  have disj: "set (P @ [AppButton b]) \<inter> AppButton ` set bs = {}"
    using Cons.prems(3) nin by auto
  from Cons.IH [OF d len disj ch]
  have "children (placeButtons (Suc i) bs ?h)
          = (P @ [AppButton b]) @ map AppButton bs
            @ filter (\<lambda>c. c \<notin> AppButton ` set bs) (removeAll (AppButton b) R)" .
  moreover have "filter (\<lambda>c. c \<notin> AppButton ` set bs) (removeAll (AppButton b) R)
                   = filter (\<lambda>c. c \<notin> AppButton ` set (b # bs)) R"
    by (induction R) auto
  ultimately show ?case by simp
qed

lemma children_placeButtons:
  assumes "distinct bs"
  shows "children (placeButtons 0 bs h)
           = map AppButton bs @ filter (\<lambda>c. c \<notin> AppButton ` set bs) (children h)"
  using children_placeButtons_from [OF assms, of "[]" 0 h "children h"] by simp

lemma indexOf_absent: "v \<notin> set xs \<Longrightarrow> indexOf xs v = -1"
  by (induction xs) auto

lemma indexOf_nonneg: "v \<in> set xs \<Longrightarrow> 0 \<le> indexOf xs v"
  by (induction xs) auto

lemma indexOf_append: "v \<notin> set xs \<Longrightarrow> indexOf (xs @ v # ys) v = int (length xs)"
proof (induction xs)
  case Nil
  show ?case by simp
next
  case (Cons x xs)
  then have "indexOf (xs @ v # ys) v = int (length xs)" by simp
  with Cons.prems show ?case by auto
qed

lemma layout_nth:
  "k < length pre \<Longrightarrow> (map AppButton pre @ Separator # after) ! k = AppButton (pre ! k)"
  "(map AppButton pre @ Separator # after) ! length pre = Separator"
  "length pre < k \<Longrightarrow> (map AppButton pre @ Separator # after) ! k = after ! (k - Suc (length pre))"
  by (simp_all add: nth_append nth_Cons')

lemma favoritesFirst_split:
  assumes pre: "\<forall>b \<in> set pre. fav b"
    and later: "\<forall>c \<in> set after. case c of AppButton b \<Rightarrow> \<not> fav b | _ \<Rightarrow> True"
  shows "favoritesFirst fav (map AppButton pre @ Separator # after)"
  unfolding favoritesFirst_def
proof (intro allI impI)
  define cs where "cs = map AppButton pre @ Separator # after"
  fix i j
  assume a1: "i < length (map AppButton pre @ Separator # after)"
    and a2: "j < length (map AppButton pre @ Separator # after)"
    and a3: "(case (map AppButton pre @ Separator # after) ! i of
            AppButton b \<Rightarrow> fav b | _ \<Rightarrow> False)
         \<and> (case (map AppButton pre @ Separator # after) ! j of
            AppButton b \<Rightarrow> \<not> fav b | _ \<Rightarrow> False)"
  have i: "i < length cs" using a1 unfolding cs_def .
  have j: "j < length cs" using a2 unfolding cs_def .
  have hi: "case cs ! i of AppButton b \<Rightarrow> fav b | _ \<Rightarrow> False"
    using a3 unfolding cs_def by (rule conjunct1)
  have hj: "case cs ! j of AppButton b \<Rightarrow> \<not> fav b | _ \<Rightarrow> False"
    using a3 unfolding cs_def by (rule conjunct2)
  have len: "length cs = Suc (length pre + length after)"
    by (simp add: cs_def)
  have ilow: "i < length pre"
  proof (rule ccontr)
    assume n: "\<not> i < length pre"
    show False
    proof (cases "i = length pre")
      case True
      then have "cs ! i = Separator" unfolding cs_def by (simp only: layout_nth(2))
      with hi show False by simp
    next
      case False
      with n have gt: "length pre < i" by simp
      then have eq: "cs ! i = after ! (i - Suc (length pre))"
        unfolding cs_def by (rule layout_nth(3))
      from gt i len have "i - Suc (length pre) < length after" by simp
      then have "after ! (i - Suc (length pre)) \<in> set after" by (rule nth_mem)
      with later have "case after ! (i - Suc (length pre)) of AppButton b \<Rightarrow> \<not> fav b | _ \<Rightarrow> True"
        by blast
      with hi show False
        unfolding eq by (cases "after ! (i - Suc (length pre))") simp_all
    qed
  qed
  have jhigh: "length pre < j"
  proof (rule ccontr)
    assume n: "\<not> length pre < j"
    show False
    proof (cases "j = length pre")
      case True
      then have "cs ! j = Separator" unfolding cs_def by (simp only: layout_nth(2))
      with hj show False by simp
    next
      case False
      with n have lt: "j < length pre" by simp
      then have eq: "cs ! j = AppButton (pre ! j)"
        unfolding cs_def by (rule layout_nth(1))
      from lt have "pre ! j \<in> set pre" by (rule nth_mem)
      with pre hj show False unfolding eq by simp
    qed
  qed
  from ilow jhigh show "i < j" by simp
qed

lemma favoritesFirst_layout:
  assumes pre: "\<forall>b \<in> set pre. fav b" and post: "\<forall>b \<in> set post. \<not> fav b"
    and rest: "\<forall>c \<in> set rest. case c of AppButton b \<Rightarrow> False | _ \<Rightarrow> True"
  shows "favoritesFirst fav (map AppButton pre @ Separator # map AppButton post @ rest)"
proof (rule favoritesFirst_split [OF pre])
  show "\<forall>c \<in> set (map AppButton post @ rest). case c of AppButton b \<Rightarrow> \<not> fav b | _ \<Rightarrow> True"
    using post rest by (auto split: component.splits)
qed

lemma newAppButton_children: "children (snd (newAppButton a f h)) = children h"
  by (simp add: newAppButton_def)

lemma renderApps_children: "children (fst (renderApps e t m apps h new olds sb)) = children h"
proof (induction apps arbitrary: h new olds sb)
  case Nil
  show ?case by simp
next
  case (Cons a apps)
  show ?case
    by (cases "mapGet m (AppKey a)") (simp_all add: Cons.IH newAppButton_children)
qed

lemma retireChanged_children:
  "set (children (fst (retireChanged olds m h n old))) \<subseteq> set (children h)
   \<and> (\<forall>b. AppButton b \<in> set (children (fst (retireChanged olds m h n old)))
          \<longrightarrow> \<not> (\<exists>a \<in> set olds. (AppKey a, b) \<in> set m))"
proof (induction m arbitrary: h n old)
  case Nil
  show ?case by simp
next
  case (Cons x m)
  obtain k b where x: "x = (k, b)" by (cases x)
  show ?case
  proof (cases "\<exists>a. k = AppKey a \<and> a \<in> set olds")
    case False
    then have eq: "retireChanged olds (x # m) h n old = retireChanged olds m h n (mapSet old k b)"
      by (cases k) (simp_all add: x)
    from False have nd: "\<And>c. (\<exists>a \<in> set olds. (AppKey a, c) \<in> set (x # m))
                          = (\<exists>a \<in> set olds. (AppKey a, c) \<in> set m)"
      by (auto simp: x)
    from Cons.IH [of h n "mapSet old k b"] show ?thesis
      unfolding eq nd .
  next
    case True
    then obtain a where k: "k = AppKey a" and a: "a \<in> set olds" by blast
    let ?old2 = "mapSet (if \<not> isFavorite (buttons h b) then mapSet old (AppKey a) b else old)
                   (ObjKey n) b"
    have eq: "retireChanged olds (x # m) h n old
                = retireChanged olds m (destroyButton b h) (Suc n) ?old2"
      using a by (simp add: x k)
    have ch: "children (destroyButton b h) = removeAll (AppButton b) (children h)"
      by (simp add: destroyButton_def)
    from Cons.IH [of "destroyButton b h" "Suc n" ?old2]
    have ih1: "set (children (fst (retireChanged olds (x # m) h n old)))
                 \<subseteq> set (removeAll (AppButton b) (children h))"
      and ih2: "\<forall>c. AppButton c \<in> set (children (fst (retireChanged olds (x # m) h n old)))
          \<longrightarrow> \<not> (\<exists>a \<in> set olds. (AppKey a, c) \<in> set m)"
      unfolding eq ch by blast+
    have "\<forall>c. AppButton c \<in> set (children (fst (retireChanged olds (x # m) h n old)))
          \<longrightarrow> \<not> (\<exists>a \<in> set olds. (AppKey a, c) \<in> set (x # m))"
    proof (intro allI impI)
      fix c assume c: "AppButton c \<in> set (children (fst (retireChanged olds (x # m) h n old)))"
      with ih1 have "c \<noteq> b" by auto
      with ih2 c show "\<not> (\<exists>a \<in> set olds. (AppKey a, c) \<in> set (x # m))"
        by (auto simp: x)
    qed
    with ih1 show ?thesis by auto
  qed
qed

lemma reconcile_children:
  assumes ok: "\<forall>en \<in> set m. entryOk h en" and da: "distinct apps"
    and c: "AppButton b \<in> set (children (fst (reconcile e t t1 m apps h)))"
  shows "AppButton b \<in> set (children h)
         \<and> (b < nextButton h \<longrightarrow> buttons (fst (reconcile e t t1 m apps h)) b = buttons h b)"
proof -
  define r1 where "r1 = renderApps e t m apps h [] [] []"
  define h1 where "h1 = fst r1"
  define olds where "olds = fst (snd (snd r1))"
  define r2 where "r2 = (if olds = [] then (h1, nextKey t, m)
                          else retireChanged olds m h1 (nextKey t) [])"
  define h2 where "h2 = fst r2"
  have alloc: "\<forall>x \<in> set m. snd x < nextButton h"
    using ok by (simp add: entryOk_def)
  from renderApps_strong [OF alloc da, of "[]" e t "[]" "[]"]
  have keep: "\<forall>b < nextButton h. buttons h1 b = buttons h b"
    by (auto simp: h1_def r1_def)
  have ch1: "children h1 = children h"
    by (simp add: h1_def r1_def renderApps_children)
  have res: "fst (reconcile e t t1 m apps h) = h2"
    unfolding reconcile_def Let_def h2_def r2_def olds_def h1_def r1_def
    by (auto split: option.splits)
  have heap2: "\<forall>b. buttons h2 b
                 = (if \<exists>a \<in> set olds. (AppKey a, b) \<in> set m
                    then (buttons h1 b)\<lparr>isValid := False\<rparr> else buttons h1 b)"
    using retireChanged_effect [of olds m h1 "nextKey t" "[]"]
    by (cases "olds = []") (simp_all add: h2_def r2_def)
  have ch2: "set (children h2) \<subseteq> set (children h1)
             \<and> (\<forall>b. AppButton b \<in> set (children h2)
                    \<longrightarrow> \<not> (\<exists>a \<in> set olds. (AppKey a, b) \<in> set m))"
    using retireChanged_children [of olds m h1 "nextKey t" "[]"]
    by (cases "olds = []") (simp_all add: h2_def r2_def)
  from c res have cb: "AppButton b \<in> set (children h2)" by simp
  with ch2 ch1 have "AppButton b \<in> set (children h)"
    and nd: "\<not> (\<exists>a \<in> set olds. (AppKey a, b) \<in> set m)" by auto
  moreover from nd heap2 have "buttons h2 b = buttons h1 b" by simp
  ultimately show ?thesis using keep res by simp
qed

subsection \<open>The container after a reconciliation that retains no button\<close>

lemma rerender_visible:
  assumes co: "completes e w" and sep: "separator (snd w) = Some s"
  shows "separatorVisible e w"
proof -
  from co obtain m where m: "appButtons (snd w) = Some m"
    and g: "hasAllocation e" "\<not> isQueued e" and ne: "desiredOf e (snd w) \<noteq> []"
    by (auto simp: completes_def)
  have rr: "snd (rerender e w)
              = snd (reconcile e (snd w) (fst (getRunningApps e (snd w))) m (desiredOf e (snd w)) (fst w))"
    using m g ne by (simp add: rerender_eq)
  show ?thesis
    unfolding separatorVisible_def rr
    by (simp add: reconcile_def Let_def sep)
qed

lemma rerender_settled_layout:
  assumes wt: "wellTracked w" and nr: "noRetained e w" and so: "setsOk e"
    and co: "completes e w" and fav: "favorites e = Some f"
    and sep: "separator (snd w) = Some s"
  shows "\<exists>bs rest.
           children (fst (rerender e w))
             = map AppButton (take (length f) bs) @ Separator # map AppButton (drop (length f) bs) @ rest
           \<and> appsOf (fst (rerender e w)) bs = desiredOf e (snd w)
           \<and> (\<forall>b \<in> set bs. isValid (buttons (fst (rerender e w)) b))
           \<and> (onlyTracked w \<longrightarrow> (\<forall>c \<in> set rest. case c of AppButton b \<Rightarrow> False | _ \<Rightarrow> True))
           \<and> (constructorAgrees e \<and> flagsSettled e w
                \<longrightarrow> (\<forall>b \<in> set bs. isFavorite (buttons (fst (rerender e w)) b)
                                      = (app (buttons (fst (rerender e w)) b) \<in> set f)))"
proof -
  from co obtain m where m: "appButtons (snd w) = Some m"
    and g: "hasAllocation e" "\<not> isQueued e" and ne: "desiredOf e (snd w) \<noteq> []"
    by (auto simp: completes_def)
  let ?as = "desiredOf e (snd w)"
  let ?t1 = "fst (getRunningApps e (snd w))"
  let ?R = "reconcile e (snd w) ?t1 m ?as (fst w)"
  have rr: "rerender e w = placeItems ?R"
    using m g ne by (simp add: rerender_eq)
  from wt m have ok: "\<forall>en \<in> set m. entryOk (fst w) en" and dm: "distinct (map fst m)"
    by (simp_all add: wellTracked_alt)
  from nr m have nr': "\<forall>en \<in> set m. isValid (buttons (fst w) (snd en))
                         \<longrightarrow> (\<exists>a \<in> set ?as. fst en = AppKey a)"
    by (simp add: noRetained_def)
  from so fav have df: "distinct f" by (simp add: setsOk_def)
  from desiredOf_favorites [OF fav df, of "snd w"] obtain u
    where u: "?as = f @ u" "set u \<inter> set f = {}" and da: "distinct ?as"
    by blast
  have fs: "favoriteAppsSize e = length f" using fav by (simp add: favoriteAppsSize_def)
  from reconcile_settled [OF ok dm nr' da, of e "snd w" ?t1]
  obtain es nk where snd_eq: "snd ?R
             = (let sp = (if favorites e \<noteq> None then int (favoriteAppsSize e) else -1);
                    t2 = (?t1)\<lparr>appButtons := Some es, separatorPosition := sp,
                            placed := map snd es, nextKey := nk\<rparr>
                in case separator (snd w) of
                     None \<Rightarrow> t2
                   | Some s \<Rightarrow>
                       t2\<lparr>separator := Some \<lparr>sepPosition = sp,
                            sepIsVisible = (enableSeparator e \<and> favoriteAppsSize e > 0
                                            \<and> length ?as > favoriteAppsSize e)\<rparr>\<rparr>)"
    and keys: "map fst es = map AppKey ?as"
    and ents: "\<forall>en \<in> set es. \<forall>a. fst en = AppKey a \<longrightarrow>
                 snd en < nextButton (fst ?R)
                 \<and> isValid (buttons (fst ?R) (snd en))
                 \<and> app (buttons (fst ?R) (snd en)) = a
                 \<and> (isFavorite (buttons (fst ?R) (snd en)) = initialFavorite e a
                    \<or> (isValid (buttons (fst w) (snd en)) \<and> (AppKey a, snd en) \<in> set m
                        \<and> \<not> isFavoriteChanged e (snd w) (fst w) (snd en) a
                        \<and> isFavorite (buttons (fst ?R) (snd en))
                            = isFavorite (buttons (fst w) (snd en))))"
    by blast
  define bs where "bs = map snd es"
  define F where "F = filter (\<lambda>c. c \<notin> AppButton ` set bs) (children (fst ?R))"
  define rest where "rest = removeAll Separator F"
  have pl: "placed (snd ?R) = bs" and ab: "appButtons (snd ?R) = Some es"
    and sp: "separator (snd ?R)
               = Some \<lparr>sepPosition = int (length f),
                       sepIsVisible = (enableSeparator e \<and> 0 < length f \<and> length f < length ?as)\<rparr>"
    using snd_eq fav fs sep by (simp_all add: Let_def bs_def)
  have bt: "buttons (fst (rerender e w)) = buttons (fst ?R)"
    unfolding rr by simp
  have len: "length es = length ?as"
    using keys by (metis length_map)
  have each: "\<forall>i < length es. fst (es ! i) = AppKey (?as ! i)"
    using keys len by (metis length_map nth_map)
  have entry: "\<forall>i < length es. isValid (buttons (fst ?R) (snd (es ! i)))
                 \<and> app (buttons (fst ?R) (snd (es ! i))) = ?as ! i"
    using ents each by (metis nth_mem)
  have apps_eq: "appsOf (fst ?R) bs = ?as"
    using entry len by (auto simp: appsOf_def bs_def intro!: nth_equalityI)
  have valid: "\<forall>b \<in> set bs. isValid (buttons (fst ?R) b)"
  proof
    fix b assume "b \<in> set bs"
    then obtain i where "i < length es" "b = snd (es ! i)"
      by (auto simp: in_set_conv_nth bs_def)
    with entry show "isValid (buttons (fst ?R) b)" by simp
  qed
  have "distinct (map (\<lambda>b. app (buttons (fst ?R) b)) bs)"
    using apps_eq da by (simp add: appsOf_def)
  then have dbs: "distinct bs" by (simp add: distinct_map)
  have lf: "length f \<le> length bs"
    using len u(1) by (simp add: bs_def)
  have ch0: "children (placeButtons 0 bs (fst ?R)) = map AppButton bs @ F"
    using children_placeButtons [OF dbs] by (simp add: F_def)
  have "Separator \<notin> set (map AppButton bs)" by auto
  then have "removeAll Separator (map AppButton bs) = map AppButton bs"
    by (rule removeAll_id)
  then have rm: "removeAll Separator (map AppButton bs @ F) = map AppButton bs @ rest"
    by (simp add: rest_def)
  have ch: "children (fst (rerender e w))
              = map AppButton (take (length f) bs) @ Separator # map AppButton (drop (length f) bs) @ rest"
  proof -
    have "children (fst (rerender e w))
            = take (length f) (removeAll Separator (map AppButton bs @ F)) @ [Separator]
              @ drop (length f) (removeAll Separator (map AppButton bs @ F))"
      unfolding rr placeItems_def sp pl
      by (simp add: children_setParent ch0 del: removeAll_append)
    then show ?thesis
      unfolding rm using lf by (simp add: take_map drop_map)
  qed
  have only: "onlyTracked w \<longrightarrow> (\<forall>c \<in> set rest. case c of AppButton b \<Rightarrow> False | _ \<Rightarrow> True)"
  proof (intro impI ballI)
    fix c assume ot: "onlyTracked w" and c: "c \<in> set rest"
    show "case c of AppButton b \<Rightarrow> False | _ \<Rightarrow> True"
    proof (cases c)
      case (AppButton b)
      with c have nb: "b \<notin> set bs" and cb: "AppButton b \<in> set (children (fst ?R))"
        by (auto simp: rest_def F_def)
      from reconcile_children [OF ok da cb]
      have cw: "AppButton b \<in> set (children (fst w))"
        and same: "b < nextButton (fst w) \<longrightarrow> buttons (fst ?R) b = buttons (fst w) b"
        by blast+
      from ot cw have vw: "isValid (buttons (fst w) b)" and tb: "b \<in> snd ` set m"
        by (auto simp: onlyTracked_def trackedButtons_def m)
      from tb ok have lt: "b < nextButton (fst w)" by (auto simp: entryOk_def)
      from reconcile_wellTracked [OF ok dm, of e "snd w" ?t1 ?as]
      have "heapEvolves (fst w) (fst ?R)" by blast
      with lt have ltR: "b < nextButton (fst ?R)" by (simp add: heapEvolves_def)
      from same lt vw have vR: "isValid (buttons (fst ?R) b)" by simp
      from reconcile_keeps [OF ok dm da, of e "snd w" ?t1] ab ltR vR tb
      have "b \<in> snd ` set es" by auto
      with nb show ?thesis by (simp add: bs_def)
    qed simp_all
  qed
  have flags: "constructorAgrees e \<and> flagsSettled e w
                \<longrightarrow> (\<forall>b \<in> set bs. isFavorite (buttons (fst ?R) b)
                                      = (app (buttons (fst ?R) b) \<in> set f))"
  proof (intro impI ballI)
    fix b assume fl: "constructorAgrees e \<and> flagsSettled e w" and b: "b \<in> set bs"
    from fl fav have init: "\<forall>a. initialFavorite e a = (a \<in> set f)"
      and old: "separatorPosition (snd w) = -1 \<longrightarrow>
                  (\<forall>en \<in> set m. isValid (buttons (fst w) (snd en))
                     \<longrightarrow> isFavorite (buttons (fst w) (snd en))
                           = (app (buttons (fst w) (snd en)) \<in> set f))"
      by (simp_all add: constructorAgrees_def flagsSettled_def m)
    from b obtain i where i: "i < length es" and bi: "b = snd (es ! i)"
      by (auto simp: in_set_conv_nth bs_def)
    let ?a = "?as ! i"
    from i each have ka: "fst (es ! i) = AppKey ?a" by blast
    from entry i bi have appR: "app (buttons (fst ?R) b) = ?a" by simp
    from ents ka i bi have d: "isFavorite (buttons (fst ?R) b) = initialFavorite e ?a
                    \<or> (isValid (buttons (fst w) b) \<and> (AppKey ?a, b) \<in> set m
                        \<and> \<not> isFavoriteChanged e (snd w) (fst w) b ?a
                        \<and> isFavorite (buttons (fst ?R) b) = isFavorite (buttons (fst w) b))"
      by (metis nth_mem)
    have "isFavorite (buttons (fst ?R) b) = (?a \<in> set f)"
      using d
    proof
      assume "isFavorite (buttons (fst ?R) b) = initialFavorite e ?a"
      with init show ?thesis by simp
    next
      assume r: "isValid (buttons (fst w) b) \<and> (AppKey ?a, b) \<in> set m
                        \<and> \<not> isFavoriteChanged e (snd w) (fst w) b ?a
                        \<and> isFavorite (buttons (fst ?R) b) = isFavorite (buttons (fst w) b)"
      with ok have appb: "app (buttons (fst w) b) = ?a" by (auto simp: entryOk_def)
      show ?thesis
      proof (cases "separatorPosition (snd w) = -1")
        case True
        with old r appb show ?thesis by auto
      next
        case False
        with r fav show ?thesis by (simp add: isFavoriteChanged_def)
      qed
    qed
    with appR show "isFavorite (buttons (fst ?R) b) = (app (buttons (fst ?R) b) \<in> set f)"
      by simp
  qed
  show ?thesis
    using ch apps_eq valid only flags
    by (intro exI [of _ bs] exI [of _ rest]) (simp add: bt appsOf_def)
qed


text \<open>
  C1, as stated, fails in three ways. (1) Application 1 is the only favorite and is shown;
  then application 2 becomes the only favorite. The button of application 1 is still
  valid, so the reconciliation keeps it and counts it: the separator gets the index 2,
  while the desired set has one favorite. (2) The applications 1 and 2 run and there is
  no favorite; then application 3 becomes a favorite and application 1 leaves while its
  button is still valid: the kept button is spliced in at index 0, before the favorite.
  (3) While the button of the favorite application 1 is dragged over the button of
  application 2, the container holds the candidate, and a reconciliation leaves the
  candidate behind the button of application 2.
\<close>

theorem separator_counts_retained_button:
  "children (fst (rerender (sampleEnv (Some [2]) None)
                    (run [Rerender (sampleEnv (Some [1]) None)] initialWorld)))
     = [AppButton 0, AppButton 1, Separator]
   \<and> favoriteAppsSize (sampleEnv (Some [2]) None) = 1
   \<and> \<not> separatorClaim (sampleEnv (Some [2]) None)
          (run [Rerender (sampleEnv (Some [1]) None)] initialWorld)
   \<and> children (fst (rerender (sampleEnv (Some [3]) (Some [2]))
                      (run [Rerender (sampleEnv (Some []) (Some [1, 2]))] initialWorld)))
       = [AppButton 0, Separator, AppButton 2, AppButton 1]
   \<and> \<not> separatorClaim (sampleEnv (Some [3]) (Some [2]))
          (run [Rerender (sampleEnv (Some []) (Some [1, 2]))] initialWorld)
   \<and> children (fst (rerender (sampleEnv (Some [1]) (Some [1, 2]))
                      (run [Rerender (sampleEnv (Some [1]) (Some [1, 2])),
                            DragOver (sampleEnv (Some [1]) (Some [1, 2])) rowGeometry
                              (TargetButton 0) 15 0] initialWorld)))
       = [AppButton 0, Separator, AppButton 1, AppButton 2]
   \<and> \<not> separatorClaim (sampleEnv (Some [1]) (Some [1, 2]))
          (run [Rerender (sampleEnv (Some [1]) (Some [1, 2])),
                DragOver (sampleEnv (Some [1]) (Some [1, 2])) rowGeometry
                  (TargetButton 0) 15 0] initialWorld)"
proof -
  let ?e1 = "sampleEnv (Some [2]) None"
  let ?w1 = "run [Rerender (sampleEnv (Some [1]) None)] initialWorld"
  let ?e2 = "sampleEnv (Some [3]) (Some [2])"
  let ?w2 = "run [Rerender (sampleEnv (Some []) (Some [1, 2]))] initialWorld"
  let ?e3 = "sampleEnv (Some [1]) (Some [1, 2])"
  let ?w3 = "run [Rerender (sampleEnv (Some [1]) (Some [1, 2])),
                  DragOver (sampleEnv (Some [1]) (Some [1, 2])) rowGeometry
                    (TargetButton 0) 15 0] initialWorld"
  have c1: "children (fst (rerender ?e1 ?w1)) = [AppButton 0, AppButton 1, Separator]"
    by code_simp
  have f1: "favoriteAppsSize ?e1 = 1" by code_simp
  have "indexOf (children (fst (rerender ?e1 ?w1))) Separator = 2"
    unfolding c1 by simp
  then have n1: "\<not> separatorClaim ?e1 ?w1"
    by (simp add: separatorClaim_def separatorIndexed_def f1)
  have c2: "children (fst (rerender ?e2 ?w2)) = [AppButton 0, Separator, AppButton 2, AppButton 1]"
    by code_simp
  have v2: "isFavorite (buttons (fst (rerender ?e2 ?w2)) 2)"
    "\<not> isFavorite (buttons (fst (rerender ?e2 ?w2)) 0)"
    by code_simp+
  have n2: "\<not> separatorClaim ?e2 ?w2"
  proof
    assume "separatorClaim ?e2 ?w2"
    then have "favoritesFirst (\<lambda>b. isFavorite (buttons (fst (rerender ?e2 ?w2)) b))
                 (children (fst (rerender ?e2 ?w2)))"
      unfolding separatorClaim_def by (rule conjunct1)
    then have "favoritesFirst (\<lambda>b. isFavorite (buttons (fst (rerender ?e2 ?w2)) b))
                 [AppButton 0, Separator, AppButton 2, AppButton 1]"
      unfolding c2 .
    from this [unfolded favoritesFirst_def, rule_format, of 2 0] v2
    show False by simp
  qed
  have c3: "children (fst (rerender ?e3 ?w3)) = [AppButton 0, Separator, AppButton 1, AppButton 2]"
    by code_simp
  have v3: "isFavorite (buttons (fst (rerender ?e3 ?w3)) 2)"
    "\<not> isFavorite (buttons (fst (rerender ?e3 ?w3)) 1)"
    by code_simp+
  have n3: "\<not> separatorClaim ?e3 ?w3"
  proof
    assume "separatorClaim ?e3 ?w3"
    then have "favoritesFirst (\<lambda>b. isFavorite (buttons (fst (rerender ?e3 ?w3)) b))
                 (children (fst (rerender ?e3 ?w3)))"
      unfolding separatorClaim_def by (rule conjunct1)
    then have "favoritesFirst (\<lambda>b. isFavorite (buttons (fst (rerender ?e3 ?w3)) b))
                 [AppButton 0, Separator, AppButton 1, AppButton 2]"
      unfolding c3 .
    from this [unfolded favoritesFirst_def, rule_format, of 3 2] v3
    show False by simp
  qed
  from c1 f1 n1 c2 n2 c3 n3 show ?thesis by simp
qed

text \<open>
  C1, amended. After a completed reconciliation with a favorites list, in a taskbar that
  has its separator: the separator is visible exactly when it is enabled, there is a
  favorite and there are more applications than favorites. When the state is consistent,
  the favorites and the query result are sets and no valid button of \<open>#appButtons\<close> is
  bound to an application outside the desired set, the separator's index in the
  container is the number of favorites of the desired set. When moreover every AppButton
  in the container is a valid button of \<open>#appButtons\<close>, every AppButton of a favorite
  application has a smaller index than every AppButton of another application; and when
  the \<open>isFavorite\<close> getter agrees with the favorites list, the invariant holds as the claim
  words it.
\<close>

theorem separator_invariant_settled:
  assumes co: "completes e w" and fav: "favorites e = Some f"
    and sep: "separator (snd w) = Some s"
  shows "separatorVisible e w
         \<and> (wellTracked w \<and> setsOk e \<and> noRetained e w \<longrightarrow>
              separatorIndexed e w
              \<and> (onlyTracked w \<longrightarrow>
                   separatorClaimByApp e w
                   \<and> (constructorAgrees e \<and> flagsSettled e w \<longrightarrow> separatorClaim e w)))"
proof -
  have vis: "separatorVisible e w"
    using co sep by (rule rerender_visible)
  have rest: "wellTracked w \<and> setsOk e \<and> noRetained e w \<longrightarrow>
              separatorIndexed e w
              \<and> (onlyTracked w \<longrightarrow>
                   separatorClaimByApp e w
                   \<and> (constructorAgrees e \<and> flagsSettled e w \<longrightarrow> separatorClaim e w))"
  proof
    assume h: "wellTracked w \<and> setsOk e \<and> noRetained e w"
    then have wt: "wellTracked w" and so: "setsOk e" and nr: "noRetained e w" by simp_all
    let ?h = "fst (rerender e w)"
    from rerender_settled_layout [OF wt nr so co fav sep]
    obtain bs rest where ch: "children ?h
             = map AppButton (take (length f) bs) @ Separator # map AppButton (drop (length f) bs) @ rest"
      and apps: "appsOf ?h bs = desiredOf e (snd w)"
      and only: "onlyTracked w \<longrightarrow> (\<forall>c \<in> set rest. case c of AppButton b \<Rightarrow> False | _ \<Rightarrow> True)"
      and flags: "constructorAgrees e \<and> flagsSettled e w
                \<longrightarrow> (\<forall>b \<in> set bs. isFavorite (buttons ?h b) = (app (buttons ?h b) \<in> set f))"
      by blast
    from so fav have df: "distinct f" by (simp add: setsOk_def)
    from desiredOf_favorites [OF fav df, of "snd w"] obtain u
      where u: "desiredOf e (snd w) = f @ u" "set u \<inter> set f = {}"
      by blast
    have fs: "favoriteAppsSize e = length f" using fav by (simp add: favoriteAppsSize_def)
    have mp: "map (\<lambda>b. app (buttons ?h b)) bs = f @ u"
      using apps u(1) by (simp add: appsOf_def)
    then have "length bs = length (f @ u)" by (metis length_map)
    then have lf: "length f \<le> length bs" by simp
    have pre: "\<forall>b \<in> set (take (length f) bs). app (buttons ?h b) \<in> set f"
    proof
      fix b assume "b \<in> set (take (length f) bs)"
      then have "app (buttons ?h b) \<in> set (map (\<lambda>b. app (buttons ?h b)) (take (length f) bs))"
        by simp
      also have "map (\<lambda>b. app (buttons ?h b)) (take (length f) bs) = take (length f) (f @ u)"
        by (simp add: take_map [symmetric] mp del: take_append)
      finally show "app (buttons ?h b) \<in> set f" by simp
    qed
    have post: "\<forall>b \<in> set (drop (length f) bs). app (buttons ?h b) \<notin> set f"
    proof
      fix b assume "b \<in> set (drop (length f) bs)"
      then have "app (buttons ?h b) \<in> set (map (\<lambda>b. app (buttons ?h b)) (drop (length f) bs))"
        by simp
      also have "map (\<lambda>b. app (buttons ?h b)) (drop (length f) bs) = drop (length f) (f @ u)"
        by (simp add: drop_map [symmetric] mp del: drop_append)
      finally have "app (buttons ?h b) \<in> set u" by simp
      with u(2) show "app (buttons ?h b) \<notin> set f" by auto
    qed
    have "Separator \<notin> set (map AppButton (take (length f) bs))" by auto
    from indexOf_append [OF this, of "map AppButton (drop (length f) bs) @ rest"] lf
    have idx: "separatorIndexed e w"
      unfolding separatorIndexed_def ch fs by simp
    have ord: "onlyTracked w \<longrightarrow>
                   separatorClaimByApp e w
                   \<and> (constructorAgrees e \<and> flagsSettled e w \<longrightarrow> separatorClaim e w)"
    proof
      assume "onlyTracked w"
      with only have r: "\<forall>c \<in> set rest. case c of AppButton b \<Rightarrow> False | _ \<Rightarrow> True" by simp
      have "favoritesFirst (\<lambda>b. app (buttons ?h b) \<in> set f) (children ?h)"
        unfolding ch using pre post r by (rule favoritesFirst_layout)
      then have byApp: "separatorClaimByApp e w"
        using idx vis by (simp add: separatorClaimByApp_def fav)
      have "constructorAgrees e \<and> flagsSettled e w \<longrightarrow> separatorClaim e w"
      proof
        assume "constructorAgrees e \<and> flagsSettled e w"
        with flags have fl: "\<forall>b \<in> set bs. isFavorite (buttons ?h b) = (app (buttons ?h b) \<in> set f)"
          by simp
        have pre': "\<forall>b \<in> set (take (length f) bs). isFavorite (buttons ?h b)"
          using pre fl by (auto dest: in_set_takeD)
        have post': "\<forall>b \<in> set (drop (length f) bs). \<not> isFavorite (buttons ?h b)"
          using post fl by (auto dest: in_set_dropD)
        have "favoritesFirst (\<lambda>b. isFavorite (buttons ?h b)) (children ?h)"
          unfolding ch using pre' post' r by (rule favoritesFirst_layout)
        then show "separatorClaim e w"
          using idx vis by (simp add: separatorClaim_def)
      qed
      with byApp show "separatorClaimByApp e w
                   \<and> (constructorAgrees e \<and> flagsSettled e w \<longrightarrow> separatorClaim e w)" by simp
    qed
    from idx ord show "separatorIndexed e w
              \<and> (onlyTracked w \<longrightarrow>
                   separatorClaimByApp e w
                   \<and> (constructorAgrees e \<and> flagsSettled e w \<longrightarrow> separatorClaim e w))" by simp
  qed
  from vis rest show ?thesis by simp
qed

theorem separator_invariant_settled_witness:
  "completes (sampleEnv (Some [1]) (Some [2, 3])) separatedWorld
   \<and> wellTracked separatedWorld
   \<and> setsOk (sampleEnv (Some [1]) (Some [2, 3]))
   \<and> noRetained (sampleEnv (Some [1]) (Some [2, 3])) separatedWorld
   \<and> onlyTracked separatedWorld
   \<and> constructorAgrees (sampleEnv (Some [1]) (Some [2, 3]))
   \<and> flagsSettled (sampleEnv (Some [1]) (Some [2, 3])) separatedWorld
   \<and> children (fst separatedWorld) = [AppButton 0, Separator, AppButton 1]
   \<and> desiredOf (sampleEnv (Some [1]) (Some [2, 3])) (snd separatedWorld) = [1, 2, 3]
   \<and> children (fst (rerender (sampleEnv (Some [1]) (Some [2, 3])) separatedWorld))
       = [AppButton 0, Separator, AppButton 1, AppButton 2]
   \<and> separator (snd (rerender (sampleEnv (Some [1]) (Some [2, 3])) separatedWorld))
       = Some \<lparr>sepPosition = 1, sepIsVisible = True\<rparr>
   \<and> separatorVisible (sampleEnv (Some [1]) (Some [2, 3])) separatedWorld
   \<and> separatorIndexed (sampleEnv (Some [1]) (Some [2, 3])) separatedWorld
   \<and> separatorClaimByApp (sampleEnv (Some [1]) (Some [2, 3])) separatedWorld
   \<and> separatorClaim (sampleEnv (Some [1]) (Some [2, 3])) separatedWorld"
proof -
  let ?e = "sampleEnv (Some [1]) (Some [2, 3])"
  have wt: "wellTracked separatedWorld"
    unfolding separatedWorld_def by (rule run_wellTracked [OF initialWorld_wellTracked])
  have d: "desiredOf ?e (snd separatedWorld) = [1, 2, 3]" by code_simp
  have co: "completes ?e separatedWorld" by code_simp
  have so: "setsOk ?e" by code_simp
  have nr: "noRetained ?e separatedWorld" by code_simp
  have ot: "onlyTracked separatedWorld" by code_simp
  have ca: "constructorAgrees ?e" by (simp add: constructorAgrees_def sampleEnv_def)
  have sp: "separatorPosition (snd separatedWorld) = 1" by code_simp
  have fl: "flagsSettled ?e separatedWorld"
    using sp by (simp add: flagsSettled_def sampleEnv_def)
  have f: "favorites ?e = Some [1]" by (simp add: sampleEnv_def)
  have s: "separator (snd separatedWorld) = Some \<lparr>sepPosition = 1, sepIsVisible = True\<rparr>"
    by code_simp
  have c0: "children (fst separatedWorld) = [AppButton 0, Separator, AppButton 1]" by code_simp
  have c: "children (fst (rerender ?e separatedWorld))
             = [AppButton 0, Separator, AppButton 1, AppButton 2]" by code_simp
  have s': "separator (snd (rerender ?e separatedWorld))
              = Some \<lparr>sepPosition = 1, sepIsVisible = True\<rparr>" by code_simp
  from separator_invariant_settled [OF co f s] wt so nr ot ca fl
  have "separatorVisible ?e separatedWorld \<and> separatorIndexed ?e separatedWorld
        \<and> separatorClaimByApp ?e separatedWorld \<and> separatorClaim ?e separatedWorld"
    by simp
  with co wt so nr ot ca fl c0 d c s' show ?thesis by simp
qed

subsection \<open>The second of two reconciliations\<close>

lemma reconcile_desired:
  assumes ok: "\<forall>en \<in> set m. entryOk h en" and dm: "distinct (map fst m)"
    and da: "distinct apps"
  shows "\<exists>m'. appButtons (snd (reconcile e t t1 m apps h)) = Some m'
           \<and> separatorPosition (snd (reconcile e t t1 m apps h))
               = (if favorites e \<noteq> None then int (favoriteAppsSize e) else -1)
           \<and> runningApps (snd (reconcile e t t1 m apps h)) = runningApps t1
           \<and> (\<forall>a \<in> set apps. \<exists>b.
                 mapGet m' (AppKey a) = Some b
                 \<and> isValid (buttons (fst (reconcile e t t1 m apps h)) b)
                 \<and> (isFavorite (buttons (fst (reconcile e t t1 m apps h)) b) = initialFavorite e a
                    \<or> (isValid (buttons h b) \<and> (AppKey a, b) \<in> set m
                        \<and> \<not> isFavoriteChanged e t h b a
                        \<and> isFavorite (buttons (fst (reconcile e t t1 m apps h)) b)
                            = isFavorite (buttons h b))))"
proof -
  define r1 where "r1 = renderApps e t m apps h [] [] []"
  define h1 where "h1 = fst r1"
  define new where "new = fst (snd r1)"
  define olds where "olds = fst (snd (snd r1))"
  define sb where "sb = snd (snd (snd r1))"
  define r2 where "r2 = (if olds = [] then (h1, nextKey t, m)
                          else retireChanged olds m h1 (nextKey t) [])"
  define h2 where "h2 = fst r2"
  define sp where "sp = (if favorites e \<noteq> None then int (favoriteAppsSize e) else -1)"
  define merged where "merged = mapMerge (snd (snd r2)) new"
  define r3 where "r3 = (if length merged \<noteq> length new
                then mergeRetained (favorites e \<noteq> None) h2 merged (-1) new sb sp
                else (new, sb, sp))"
  define D where "D = (\<lambda>b. \<exists>a \<in> set olds. (AppKey a, b) \<in> set m)"
  have alloc: "\<forall>x \<in> set m. snd x < nextButton h"
    using ok by (simp add: entryOk_def)
  from renderApps_strong [OF alloc da, of "[]" e t "[]" "[]"]
  have es: "map fst new = map AppKey apps" "sb = map snd new"
    "\<forall>en \<in> set new. renderedFrom e t m h h1 en"
    "\<forall>b < nextButton h. buttons h1 b = buttons h b"
    "nextButton h \<le> nextButton h1"
    "set olds \<subseteq> {a \<in> set apps. flippedApp e t m h a}"
    by (auto simp: new_def sb_def h1_def olds_def r1_def)
  have heap2: "\<forall>b. buttons h2 b = (if D b then (buttons h1 b)\<lparr>isValid := False\<rparr> else buttons h1 b)"
    using retireChanged_effect [of olds m h1 "nextKey t" "[]"]
    by (cases "olds = []") (simp_all add: h2_def r2_def D_def)
  have notD: "\<forall>en \<in> set new. \<not> D (snd en)"
  proof (intro ballI notI)
    fix en assume en: "en \<in> set new" and d: "D (snd en)"
    from d obtain a' where a': "a' \<in> set olds" "(AppKey a', snd en) \<in> set m"
      by (auto simp: D_def)
    from ok a'(2) have lt: "snd en < nextButton h" and app': "app (buttons h (snd en)) = a'"
      by (auto simp: entryOk_def)
    from es(3) en have r: "renderedFrom e t m h h1 en" by blast
    from es(1) en obtain a where ka: "fst en = AppKey a"
      by (metis (no_types, lifting) image_iff in_set_conv_nth length_map list.set_map nth_map)
    from r ka lt have g: "mapGet m (AppKey a) = Some (snd en)"
      and v: "isValid (buttons h (snd en))" and c: "\<not> isFavoriteChanged e t h (snd en) a"
      by (simp_all add: renderedFrom_def)
    from mapGet_mem [OF g] ok have "app (buttons h (snd en)) = a" by (auto simp: entryOk_def)
    with app' have "a' = a" by simp
    with a'(1) es(6) have "flippedApp e t m h a" by auto
    with g c show False by (simp add: flippedApp_def)
  qed
  have dnew: "distinct (map fst new)"
    using da by (simp add: es(1) distinct_map inj_on_def)
  have sub3: "set new \<subseteq> set (fst r3)"
    using mergeRetained_new [of new "favorites e \<noteq> None" h2 merged "-1" sb sp]
    by (auto simp: r3_def)
  have d3: "distinct (map fst (fst r3))"
    using mergeRetained_ok [of "favorites e \<noteq> None" h2 merged "-1" new sb sp] dnew
    by (auto simp: r3_def)
  have res: "fst (reconcile e t t1 m apps h) = h2"
    "appButtons (snd (reconcile e t t1 m apps h)) = Some (fst r3)"
    "separatorPosition (snd (reconcile e t t1 m apps h)) = sp"
    "runningApps (snd (reconcile e t t1 m apps h)) = runningApps t1"
    unfolding reconcile_def Let_def r3_def merged_def sp_def h2_def r2_def sb_def olds_def
      new_def h1_def r1_def
    by (auto split: option.splits)
  have each: "\<forall>a \<in> set apps. \<exists>b.
                 mapGet (fst r3) (AppKey a) = Some b
                 \<and> isValid (buttons h2 b)
                 \<and> (isFavorite (buttons h2 b) = initialFavorite e a
                    \<or> (isValid (buttons h b) \<and> (AppKey a, b) \<in> set m
                        \<and> \<not> isFavoriteChanged e t h b a
                        \<and> isFavorite (buttons h2 b) = isFavorite (buttons h b)))"
  proof
    fix a assume "a \<in> set apps"
    then have "AppKey a \<in> set (map fst new)" by (simp add: es(1))
    then obtain b where inn: "(AppKey a, b) \<in> set new" by auto
    with sub3 d3 have g3: "mapGet (fst r3) (AppKey a) = Some b"
      by (auto intro: mapGet_distinct)
    from notD inn heap2 have same: "buttons h2 b = buttons h1 b" by auto
    from es(3) inn have r: "renderedFrom e t m h h1 (AppKey a, b)" by blast
    have "isValid (buttons h2 b)
          \<and> (isFavorite (buttons h2 b) = initialFavorite e a
              \<or> (isValid (buttons h b) \<and> (AppKey a, b) \<in> set m
                  \<and> \<not> isFavoriteChanged e t h b a
                  \<and> isFavorite (buttons h2 b) = isFavorite (buttons h b)))"
    proof (cases "b < nextButton h")
      case True
      with r have g: "mapGet m (AppKey a) = Some b"
        and v: "isValid (buttons h b)" and c: "\<not> isFavoriteChanged e t h b a"
        by (simp_all add: renderedFrom_def)
      from True es(4) have "buttons h1 b = buttons h b" by simp
      then show ?thesis
        using same v c mapGet_mem [OF g] by simp
    next
      case False
      with r show ?thesis
        using same by (simp add: renderedFrom_def)
    qed
    with g3 show "\<exists>b. mapGet (fst r3) (AppKey a) = Some b
                 \<and> isValid (buttons h2 b)
                 \<and> (isFavorite (buttons h2 b) = initialFavorite e a
                    \<or> (isValid (buttons h b) \<and> (AppKey a, b) \<in> set m
                        \<and> \<not> isFavoriteChanged e t h b a
                        \<and> isFavorite (buttons h2 b) = isFavorite (buttons h b)))"
      by blast
  qed
  show ?thesis
    using res each by (simp add: sp_def)
qed

lemma renderApps_reuse:
  assumes "\<forall>a \<in> set apps. \<exists>b. mapGet m (AppKey a) = Some b \<and> isValid (buttons h b)
             \<and> \<not> isFavoriteChanged e t h b a"
  shows "fst (renderApps e t m apps h new olds sb) = h
         \<and> fst (snd (snd (renderApps e t m apps h new olds sb))) = olds"
  using assms
proof (induction apps arbitrary: new sb)
  case Nil
  show ?case by simp
next
  case (Cons a apps)
  from Cons.prems obtain b where g: "mapGet m (AppKey a) = Some b" and v: "isValid (buttons h b)"
    and c: "\<not> isFavoriteChanged e t h b a"
    by auto
  from Cons.prems have rest: "\<forall>a \<in> set apps. \<exists>b. mapGet m (AppKey a) = Some b
             \<and> isValid (buttons h b) \<and> \<not> isFavoriteChanged e t h b a"
    by simp
  have eq: "renderApps e t m (a # apps) h new olds sb
              = renderApps e t m apps h (mapSet new (AppKey a) b) olds (sb @ [b])"
    using g v c by simp
  show ?case unfolding eq by (rule Cons.IH [OF rest])
qed

lemma reconcile_heap_reuse:
  assumes "\<forall>a \<in> set apps. \<exists>b. mapGet m (AppKey a) = Some b \<and> isValid (buttons h b)
             \<and> \<not> isFavoriteChanged e t h b a"
  shows "fst (reconcile e t t1 m apps h) = h"
  using renderApps_reuse [OF assms, of "[]" "[]" "[]"]
  by (simp add: reconcile_def Let_def split: option.splits)

lemma setParent_heap: "setParent c p h = h\<lparr>children := children (setParent c p h)\<rparr>"
  by (simp add: setParent_def Let_def)

lemma placeButtons_heap: "placeButtons i bs h = h\<lparr>children := children (placeButtons i bs h)\<rparr>"
proof (induction bs arbitrary: i h)
  case Nil
  show ?case by simp
next
  case (Cons b bs)
  have "placeButtons (Suc i) bs (setParent (AppButton b) (int i) h)
          = (setParent (AppButton b) (int i) h)
              \<lparr>children := children (placeButtons (Suc i) bs (setParent (AppButton b) (int i) h))\<rparr>"
    by (rule Cons.IH)
  also have "\<dots> = h\<lparr>children := children (placeButtons (Suc i) bs (setParent (AppButton b) (int i) h))\<rparr>"
    by (subst setParent_heap) simp
  finally show ?case by simp
qed

lemma placeItems_heap:
  "fst (placeItems w) = (fst w)\<lparr>children := children (fst (placeItems w))\<rparr>"
proof (cases "separator (snd w)")
  case None
  then show ?thesis
    using placeButtons_heap [of 0 "placed (snd w)" "fst w"] by (simp add: placeItems_def)
next
  case (Some s)
  let ?h = "placeButtons 0 (placed (snd w)) (fst w)"
  have "setParent Separator (sepPosition s) ?h
          = ?h\<lparr>children := children (setParent Separator (sepPosition s) ?h)\<rparr>"
    by (rule setParent_heap)
  also have "\<dots> = (fst w)\<lparr>children := children (setParent Separator (sepPosition s) ?h)\<rparr>"
    by (subst placeButtons_heap) simp
  finally show ?thesis using Some by (simp add: placeItems_def)
qed

lemma removeAll_insert:
  "removeAll c (if p < 0 then removeAll c xs @ [c]
                else take (nat p) (removeAll c xs) @ [c] @ drop (nat p) (removeAll c xs))
     = removeAll c xs"
proof -
  define ys where "ys = removeAll c xs"
  have n: "c \<notin> set ys" by (simp add: ys_def)
  then have "c \<notin> set (take (nat p) ys)" and "c \<notin> set (drop (nat p) ys)"
    by (auto dest: in_set_takeD in_set_dropD)
  then have t: "removeAll c (take (nat p) ys) = take (nat p) ys"
    and d: "removeAll c (drop (nat p) ys) = drop (nat p) ys"
    by (simp_all add: removeAll_id)
  have y: "removeAll c ys = ys" using n by (rule removeAll_id)
  have "removeAll c (if p < 0 then ys @ [c] else take (nat p) ys @ [c] @ drop (nat p) ys) = ys"
    by (simp add: t d y)
  then show ?thesis unfolding ys_def .
qed

lemma placeItems_children_idem:
  assumes "distinct (placed (snd w))"
  shows "children (fst (placeItems (placeItems w))) = children (fst (placeItems w))"
proof -
  define bs where "bs = placed (snd w)"
  define B where "B = map AppButton bs"
  define P where "P = (\<lambda>c. c \<notin> AppButton ` set bs)"
  have d: "distinct bs" using assms by (simp add: bs_def)
  have pb: "\<And>h. children (placeButtons 0 bs h) = B @ filter P (children h)"
    using children_placeButtons [OF d] by (simp add: B_def P_def)
  have fB: "filter P B = []" by (auto simp: P_def B_def)
  have snd_eq: "snd (placeItems w) = snd w" by simp
  show ?thesis
  proof (cases "separator (snd w)")
    case None
    have c1: "children (fst (placeItems w)) = B @ filter P (children (fst w))"
      using None pb by (simp add: placeItems_def bs_def)
    have "children (fst (placeItems (placeItems w)))
            = B @ filter P (children (fst (placeItems w)))"
      using None pb by (simp add: placeItems_def bs_def)
    also have "\<dots> = B @ filter P (children (fst w))"
      unfolding c1 by (simp add: fB)
    finally show ?thesis using c1 by simp
  next
    case (Some s)
    define p where "p = sepPosition s"
    define ins where "ins = (\<lambda>xs. if p < 0 then removeAll Separator xs @ [Separator]
                else take (nat p) (removeAll Separator xs) @ [Separator]
                     @ drop (nat p) (removeAll Separator xs))"
    have sepB: "removeAll Separator B = B" by (rule removeAll_id) (auto simp: B_def)
    have PS: "P Separator" by (auto simp: P_def)
    have step: "\<And>v. separator (snd v) = Some s \<Longrightarrow> placed (snd v) = bs
                  \<Longrightarrow> children (fst (placeItems v)) = ins (B @ filter P (children (fst v)))"
      by (simp add: placeItems_def children_setParent pb ins_def p_def)
    have c1: "children (fst (placeItems w)) = ins (B @ filter P (children (fst w)))"
      using Some by (intro step) (simp_all add: bs_def)
    have c2: "children (fst (placeItems (placeItems w)))
                = ins (B @ filter P (children (fst (placeItems w))))"
      using Some by (intro step) (simp_all add: bs_def)
    have rm: "\<And>xs. removeAll Separator (ins xs) = removeAll Separator xs"
      unfolding ins_def by (rule removeAll_insert)
    have dep: "\<And>xs ys. removeAll Separator xs = removeAll Separator ys \<Longrightarrow> ins xs = ins ys"
      by (simp add: ins_def)
    have comm: "\<And>xs. removeAll Separator (filter P xs) = filter P (removeAll Separator xs)"
      by (simp add: removeAll_filter_not_eq conj_commute)
    have "removeAll Separator (B @ filter P (ins (B @ filter P (children (fst w)))))
            = B @ filter P (removeAll Separator (ins (B @ filter P (children (fst w)))))"
      by (simp add: sepB comm)
    also have "\<dots> = B @ filter P (removeAll Separator (B @ filter P (children (fst w))))"
      by (simp only: rm)
    also have "\<dots> = B @ removeAll Separator (filter P (children (fst w)))"
      by (simp add: sepB fB comm [symmetric])
    also have "\<dots> = removeAll Separator (B @ filter P (children (fst w)))"
      by (simp add: sepB)
    finally have "ins (B @ filter P (ins (B @ filter P (children (fst w)))))
                    = ins (B @ filter P (children (fst w)))"
      by (rule dep)
    then show ?thesis unfolding c2 c1 .
  qed
qed

lemma placeItems_idem:
  assumes "distinct (placed (snd w))"
  shows "placeItems (placeItems w) = placeItems w"
proof -
  have "fst (placeItems (placeItems w))
          = (fst (placeItems w))\<lparr>children := children (fst (placeItems (placeItems w)))\<rparr>"
    by (rule placeItems_heap)
  also have "\<dots> = (fst (placeItems w))\<lparr>children := children (fst (placeItems w))\<rparr>"
    by (simp only: placeItems_children_idem [OF assms])
  also have "\<dots> = fst (placeItems w)" by simp
  finally have "fst (placeItems (placeItems w)) = fst (placeItems w)" .
  then show ?thesis by (simp add: prod_eq_iff)
qed


lemma sameButtons_fields:
  "buttons h' = buttons h \<Longrightarrow> nextButton h' = nextButton h \<Longrightarrow> sameButtons h h'"
  by (simp add: sameButtons_def)

text \<open>
  C3, as stated, fails. Application 3 is shown, then application 4 runs instead while the
  button of application 3 is still valid: the first reconciliation for application 4
  keeps the old button at index 0; the second one, with the same favorites and the same
  query result, creates and destroys nothing but moves the old button to index 1. And a
  button made while there was no favorites list, for an application of the list that
  arrives: the first reconciliation with the list reuses the button (\<open>#separatorPosition\<close>
  is still -1), the second one destroys it and makes a new one.
\<close>

theorem repeated_rerender_reorders:
  "children (fst (rerender (sampleEnv None (Some [4]))
                    (run [Rerender (sampleEnv None (Some [3]))] initialWorld)))
     = [AppButton 0, AppButton 1, Separator]
   \<and> children (fst (rerender (sampleEnv None (Some [4]))
                      (rerender (sampleEnv None (Some [4]))
                         (run [Rerender (sampleEnv None (Some [3]))] initialWorld))))
       = [AppButton 1, AppButton 0, Separator]
   \<and> \<not> rerenderIdempotent (sampleEnv None (Some [4]))
          (run [Rerender (sampleEnv None (Some [3]))] initialWorld)
   \<and> nextButton (fst (rerender (sampleEnv (Some [1]) (Some [1]))
                        (run [Rerender (sampleEnv None (Some [1]))] initialWorld))) = 1
   \<and> nextButton (fst (rerender (sampleEnv (Some [1]) (Some [1]))
                        (rerender (sampleEnv (Some [1]) (Some [1]))
                           (run [Rerender (sampleEnv None (Some [1]))] initialWorld)))) = 2
   \<and> \<not> isValid (buttons (fst (rerender (sampleEnv (Some [1]) (Some [1]))
                        (rerender (sampleEnv (Some [1]) (Some [1]))
                           (run [Rerender (sampleEnv None (Some [1]))] initialWorld)))) 0)
   \<and> \<not> rerenderIdempotent (sampleEnv (Some [1]) (Some [1]))
          (run [Rerender (sampleEnv None (Some [1]))] initialWorld)"
proof -
  let ?e = "sampleEnv None (Some [4])"
  let ?w = "run [Rerender (sampleEnv None (Some [3]))] initialWorld"
  let ?e' = "sampleEnv (Some [1]) (Some [1])"
  let ?w' = "run [Rerender (sampleEnv None (Some [1]))] initialWorld"
  have p1: "children (fst (rerender ?e ?w)) = [AppButton 0, AppButton 1, Separator]"
    by code_simp
  have p2: "children (fst (rerender ?e (rerender ?e ?w))) = [AppButton 1, AppButton 0, Separator]"
    by code_simp
  have n: "\<not> rerenderIdempotent ?e ?w"
    unfolding rerenderIdempotent_def p1 p2 by simp
  have q1: "nextButton (fst (rerender ?e' ?w')) = 1" by code_simp
  have q2: "nextButton (fst (rerender ?e' (rerender ?e' ?w'))) = 2" by code_simp
  have q3: "\<not> isValid (buttons (fst (rerender ?e' (rerender ?e' ?w'))) 0)" by code_simp
  have n': "\<not> rerenderIdempotent ?e' ?w'"
    unfolding rerenderIdempotent_def sameButtons_def q1 q2 by simp
  from p1 p2 n q1 q2 q3 n' show ?thesis by simp
qed

text \<open>
  C3, amended. Take a consistent state in which the buttons of \<open>#appButtons\<close> agree with
  the favorites list while \<open>#separatorPosition\<close> is -1, and collaborators whose favorites
  and query result are sets and for which a new AppButton reports \<open>isFavorite\<close> exactly
  when its application is in the favorites list. Then the second of two calls of
  \<open>#rerender\<close> with the same collaborators creates no AppButton and destroys none. When
  moreover no valid button of \<open>#appButtons\<close> is bound to an application outside the desired
  set, the second call changes nothing at all: the order of the container, the map
  \<open>#appButtons\<close>, the separator and the running-apps cache stay as the first call left
  them.
\<close>

theorem rerender_idempotent_settled:
  assumes wt: "wellTracked w" and so: "setsOk e"
    and ca: "constructorAgrees e" and fl: "flagsSettled e w"
  shows "sameButtons (fst (rerender e w)) (fst (rerender e (rerender e w)))
         \<and> (noRetained e w \<longrightarrow>
              rerender e (rerender e w) = rerender e w \<and> rerenderIdempotent e w)"
proof -
  have fixed: "rerender e (rerender e w) = rerender e w
               \<Longrightarrow> sameButtons (fst (rerender e w)) (fst (rerender e (rerender e w)))
                   \<and> (noRetained e w \<longrightarrow>
                        rerender e (rerender e w) = rerender e w \<and> rerenderIdempotent e w)"
    by (simp add: sameButtons_def rerenderIdempotent_def)
  show ?thesis
  proof (cases "appButtons (snd w) = None \<or> \<not> hasAllocation e \<or> isQueued e")
    case True
    then have "rerender e w = w" by (simp add: rerender_eq)
    then have "rerender e (rerender e w) = rerender e w" by simp
    then show ?thesis by (rule fixed)
  next
    case guards: False
    then obtain m where m: "appButtons (snd w) = Some m"
      and g: "hasAllocation e" "\<not> isQueued e"
      by auto
    let ?as = "desiredOf e (snd w)"
    let ?t1 = "fst (getRunningApps e (snd w))"
    show ?thesis
    proof (cases "?as = []")
      case True
      then have r: "rerender e w = (fst w, ?t1)"
        using m g by (simp add: rerender_eq)
      from getRunningApps_fixed [OF so, of ?t1 "snd w"]
      have fx: "fst (getRunningApps e ?t1) = ?t1" and ds: "desiredOf e ?t1 = ?as"
        by simp_all
      have "rerender e (rerender e w) = rerender e w"
        unfolding r using m g True fx ds
        by (simp add: rerender_eq getRunningApps_fields)
      then show ?thesis by (rule fixed)
    next
      case ne: False
      let ?R = "reconcile e (snd w) ?t1 m ?as (fst w)"
      let ?hP = "fst (placeItems ?R)"
      have rr: "rerender e w = placeItems ?R"
        using m g ne by (simp add: rerender_eq)
      from wt m have ok: "\<forall>en \<in> set m. entryOk (fst w) en" and dm: "distinct (map fst m)"
        by (simp_all add: wellTracked_alt)
      have da: "distinct ?as" using so by (rule desiredOf_distinct)
      define sp where "sp = (if favorites e \<noteq> None then int (favoriteAppsSize e) else -1)"
      from reconcile_desired [OF ok dm da, of e "snd w" ?t1]
      obtain m1 where ab1: "appButtons (snd ?R) = Some m1"
        and sp1: "separatorPosition (snd ?R) = sp"
        and ra1: "runningApps (snd ?R) = runningApps ?t1"
        and each: "\<forall>a \<in> set ?as. \<exists>b.
                 mapGet m1 (AppKey a) = Some b
                 \<and> isValid (buttons (fst ?R) b)
                 \<and> (isFavorite (buttons (fst ?R) b) = initialFavorite e a
                    \<or> (isValid (buttons (fst w) b) \<and> (AppKey a, b) \<in> set m
                        \<and> \<not> isFavoriteChanged e (snd w) (fst w) b a
                        \<and> isFavorite (buttons (fst ?R) b) = isFavorite (buttons (fst w) b)))"
        unfolding sp_def by blast
      from getRunningApps_fixed [OF so ra1]
      have fx: "fst (getRunningApps e (snd ?R)) = snd ?R" and ds: "desiredOf e (snd ?R) = ?as"
        by simp_all
      have bP: "buttons ?hP = buttons (fst ?R)" and nP: "nextButton ?hP = nextButton (fst ?R)"
        by simp_all
      have reuse: "\<forall>a \<in> set ?as. \<exists>b. mapGet m1 (AppKey a) = Some b \<and> isValid (buttons ?hP b)
                     \<and> \<not> isFavoriteChanged e (snd ?R) ?hP b a"
      proof
        fix a assume "a \<in> set ?as"
        with each obtain b where g1: "mapGet m1 (AppKey a) = Some b"
          and v: "isValid (buttons (fst ?R) b)"
          and d: "isFavorite (buttons (fst ?R) b) = initialFavorite e a
                    \<or> (isValid (buttons (fst w) b) \<and> (AppKey a, b) \<in> set m
                        \<and> \<not> isFavoriteChanged e (snd w) (fst w) b a
                        \<and> isFavorite (buttons (fst ?R) b) = isFavorite (buttons (fst w) b))"
          by blast
        have "\<not> isFavoriteChanged e (snd ?R) (fst ?R) b a"
        proof (cases "favorites e")
          case None
          then show ?thesis by (simp add: isFavoriteChanged_def)
        next
          case (Some f)
          with ca fl have init: "\<forall>a. initialFavorite e a = (a \<in> set f)"
            and old: "separatorPosition (snd w) = -1 \<longrightarrow>
                  (\<forall>en \<in> set m. isValid (buttons (fst w) (snd en))
                     \<longrightarrow> isFavorite (buttons (fst w) (snd en))
                           = (app (buttons (fst w) (snd en)) \<in> set f))"
            by (simp_all add: constructorAgrees_def flagsSettled_def m)
          have "isFavorite (buttons (fst ?R) b) = (a \<in> set f)"
            using d
          proof
            assume "isFavorite (buttons (fst ?R) b) = initialFavorite e a"
            with init show ?thesis by simp
          next
            assume r: "isValid (buttons (fst w) b) \<and> (AppKey a, b) \<in> set m
                        \<and> \<not> isFavoriteChanged e (snd w) (fst w) b a
                        \<and> isFavorite (buttons (fst ?R) b) = isFavorite (buttons (fst w) b)"
            with ok have appb: "app (buttons (fst w) b) = a" by (auto simp: entryOk_def)
            show ?thesis
            proof (cases "separatorPosition (snd w) = -1")
              case True
              with old r appb show ?thesis by auto
            next
              case False
              with r Some show ?thesis by (simp add: isFavoriteChanged_def)
            qed
          qed
          then show ?thesis using Some by (simp add: isFavoriteChanged_def)
        qed
        then have "\<not> isFavoriteChanged e (snd ?R) ?hP b a"
          using isFavoriteChanged_cong [of ?hP b "fst ?R" e "snd ?R" a] by (simp add: bP)
        with g1 v show "\<exists>b. mapGet m1 (AppKey a) = Some b \<and> isValid (buttons ?hP b)
                     \<and> \<not> isFavoriteChanged e (snd ?R) ?hP b a"
          by (auto simp: bP)
      qed
      have second: "rerender e (rerender e w)
                      = placeItems (reconcile e (snd ?R) (snd ?R) m1 ?as ?hP)"
        unfolding rr using g ne ab1 fx ds by (simp add: rerender_eq)
      have heap: "fst (reconcile e (snd ?R) (snd ?R) m1 ?as ?hP) = ?hP"
        using reuse by (rule reconcile_heap_reuse)
      have same: "sameButtons (fst (rerender e w)) (fst (rerender e (rerender e w)))"
        unfolding second by (rule sameButtons_fields) (simp_all add: heap rr)
      have all: "noRetained e w \<longrightarrow>
              rerender e (rerender e w) = rerender e w \<and> rerenderIdempotent e w"
      proof
        assume nr: "noRetained e w"
        with m have nr': "\<forall>en \<in> set m. isValid (buttons (fst w) (snd en))
                             \<longrightarrow> (\<exists>a \<in> set ?as. fst en = AppKey a)"
          by (simp add: noRetained_def)
        define vis where "vis = (enableSeparator e \<and> favoriteAppsSize e > 0
                                            \<and> length ?as > favoriteAppsSize e)"
        from reconcile_settled [OF ok dm nr' da, of e "snd w" ?t1]
        obtain es nk where snd_eq: "snd ?R
             = (case separator (snd w) of
                     None \<Rightarrow> (?t1)\<lparr>appButtons := Some es, separatorPosition := sp,
                            placed := map snd es, nextKey := nk\<rparr>
                   | Some s \<Rightarrow>
                       (?t1)\<lparr>appButtons := Some es, separatorPosition := sp,
                            placed := map snd es, nextKey := nk,
                            separator := Some \<lparr>sepPosition = sp, sepIsVisible = vis\<rparr>\<rparr>)"
          and keys: "map fst es = map AppKey ?as"
          and ents: "\<forall>en \<in> set es. \<forall>a. fst en = AppKey a \<longrightarrow>
                 snd en < nextButton (fst ?R)
                 \<and> isValid (buttons (fst ?R) (snd en))
                 \<and> app (buttons (fst ?R) (snd en)) = a
                 \<and> (isFavorite (buttons (fst ?R) (snd en)) = initialFavorite e a
                    \<or> (isValid (buttons (fst w) (snd en)) \<and> (AppKey a, snd en) \<in> set m
                        \<and> \<not> isFavoriteChanged e (snd w) (fst w) (snd en) a
                        \<and> isFavorite (buttons (fst ?R) (snd en))
                            = isFavorite (buttons (fst w) (snd en))))"
          unfolding sp_def vis_def Let_def by blast
        have fields: "appButtons (snd ?R) = Some es" "placed (snd ?R) = map snd es"
          "separator (snd ?R) = None \<or> separator (snd ?R) = Some \<lparr>sepPosition = sp, sepIsVisible = vis\<rparr>"
          using snd_eq by (auto simp: getRunningApps_fields split: option.splits)
        from fields(1) ab1 have m1: "m1 = es" by simp
        have dk: "distinct (map fst es)"
          using da by (simp add: keys distinct_map inj_on_def)
        have unchanged: "\<forall>en \<in> set es. \<forall>a. fst en = AppKey a \<longrightarrow>
                 isValid (buttons ?hP (snd en))
                 \<and> \<not> isFavoriteChanged e (snd ?R) ?hP (snd en) a"
        proof (intro ballI allI impI)
          fix en a assume en: "en \<in> set es" and ka: "fst en = AppKey a"
          then have "AppKey a \<in> set (map fst es)" by force
          then have "a \<in> set ?as" by (auto simp: keys)
          with reuse obtain b where gb: "mapGet es (AppKey a) = Some b"
            and vb: "isValid (buttons ?hP b) \<and> \<not> isFavoriteChanged e (snd ?R) ?hP b a"
            unfolding m1 by blast
          from en ka have "(AppKey a, snd en) \<in> set es" by (metis prod.collapse)
          from mapGet_distinct [OF dk this] gb have "b = snd en" by simp
          with vb show "isValid (buttons ?hP (snd en))
                 \<and> \<not> isFavoriteChanged e (snd ?R) ?hP (snd en) a" by simp
        qed
        have st: "reconcile e (snd ?R) (snd ?R) es ?as ?hP = (?hP, snd ?R)"
          using reconcile_stable [OF keys da unchanged fields(1,2)] sp1 fields(3)
          by (simp add: sp_def vis_def)
        have len: "length es = length ?as"
          using keys by (metis length_map)
        have eachk: "\<forall>i < length es. fst (es ! i) = AppKey (?as ! i)"
          using keys len by (metis length_map nth_map)
        have entry: "\<forall>i < length es. app (buttons (fst ?R) (snd (es ! i))) = ?as ! i"
          using ents eachk by (metis nth_mem)
        have "map (\<lambda>b. app (buttons (fst ?R) b)) (map snd es) = ?as"
          using entry len by (auto intro!: nth_equalityI)
        with da have "distinct (map (\<lambda>b. app (buttons (fst ?R) b)) (map snd es))" by simp
        then have "distinct (map snd es)" by (simp only: distinct_map)
        then have dp: "distinct (placed (snd ?R))" by (simp add: fields(2))
        have "rerender e (rerender e w) = placeItems (?hP, snd ?R)"
          unfolding second m1 st ..
        also have "(?hP, snd ?R) = placeItems ?R" by (simp add: prod_eq_iff)
        also have "placeItems (placeItems ?R) = placeItems ?R"
          using dp by (rule placeItems_idem)
        finally have "rerender e (rerender e w) = rerender e w" by (simp add: rr)
        with fixed show "rerender e (rerender e w) = rerender e w \<and> rerenderIdempotent e w"
          using nr by simp
      qed
      from same all show ?thesis by simp
    qed
  qed
qed

theorem rerender_idempotent_settled_witness:
  "wellTracked separatedWorld
   \<and> setsOk (sampleEnv (Some [1]) (Some [2, 3]))
   \<and> constructorAgrees (sampleEnv (Some [1]) (Some [2, 3]))
   \<and> flagsSettled (sampleEnv (Some [1]) (Some [2, 3])) separatedWorld
   \<and> noRetained (sampleEnv (Some [1]) (Some [2, 3])) separatedWorld
   \<and> children (fst (rerender (sampleEnv (Some [1]) (Some [2, 3])) separatedWorld))
       = [AppButton 0, Separator, AppButton 1, AppButton 2]
   \<and> sameButtons (fst (rerender (sampleEnv (Some [1]) (Some [2, 3])) separatedWorld))
        (fst (rerender (sampleEnv (Some [1]) (Some [2, 3]))
                (rerender (sampleEnv (Some [1]) (Some [2, 3])) separatedWorld)))
   \<and> rerender (sampleEnv (Some [1]) (Some [2, 3]))
        (rerender (sampleEnv (Some [1]) (Some [2, 3])) separatedWorld)
       = rerender (sampleEnv (Some [1]) (Some [2, 3])) separatedWorld
   \<and> rerenderIdempotent (sampleEnv (Some [1]) (Some [2, 3])) separatedWorld
   \<and> wellTracked (run [Rerender (sampleEnv None (Some [3]))] initialWorld)
   \<and> setsOk (sampleEnv None (Some [4]))
   \<and> constructorAgrees (sampleEnv None (Some [4]))
   \<and> flagsSettled (sampleEnv None (Some [4])) (run [Rerender (sampleEnv None (Some [3]))] initialWorld)
   \<and> \<not> noRetained (sampleEnv None (Some [4])) (run [Rerender (sampleEnv None (Some [3]))] initialWorld)
   \<and> sameButtons (fst (rerender (sampleEnv None (Some [4]))
                          (run [Rerender (sampleEnv None (Some [3]))] initialWorld)))
        (fst (rerender (sampleEnv None (Some [4]))
                (rerender (sampleEnv None (Some [4]))
                   (run [Rerender (sampleEnv None (Some [3]))] initialWorld))))"
proof -
  let ?e = "sampleEnv (Some [1]) (Some [2, 3])"
  let ?e' = "sampleEnv None (Some [4])"
  let ?w' = "run [Rerender (sampleEnv None (Some [3]))] initialWorld"
  have wt: "wellTracked separatedWorld"
    unfolding separatedWorld_def by (rule run_wellTracked [OF initialWorld_wellTracked])
  have so: "setsOk ?e" by code_simp
  have ca: "constructorAgrees ?e" by (simp add: constructorAgrees_def sampleEnv_def)
  have sp: "separatorPosition (snd separatedWorld) = 1" by code_simp
  have fl: "flagsSettled ?e separatedWorld"
    using sp by (simp add: flagsSettled_def sampleEnv_def)
  have nr: "noRetained ?e separatedWorld" by code_simp
  have c: "children (fst (rerender ?e separatedWorld))
             = [AppButton 0, Separator, AppButton 1, AppButton 2]" by code_simp
  have wt': "wellTracked ?w'"
    by (rule run_wellTracked [OF initialWorld_wellTracked])
  have so': "setsOk ?e'" by code_simp
  have ca': "constructorAgrees ?e'" by (simp add: constructorAgrees_def sampleEnv_def)
  have fl': "flagsSettled ?e' ?w'" by (simp add: flagsSettled_def sampleEnv_def)
  have nr': "\<not> noRetained ?e' ?w'" by code_simp
  note th = rerender_idempotent_settled [OF wt so ca fl]
  have a1: "sameButtons (fst (rerender ?e separatedWorld)) (fst (rerender ?e (rerender ?e separatedWorld)))"
    using th by (rule conjunct1)
  have a23: "rerender ?e (rerender ?e separatedWorld) = rerender ?e separatedWorld
             \<and> rerenderIdempotent ?e separatedWorld"
    using th nr by blast
  note a = a1 a23
  have b: "sameButtons (fst (rerender ?e' ?w')) (fst (rerender ?e' (rerender ?e' ?w')))"
    using rerender_idempotent_settled [OF wt' so' ca' fl'] by (rule conjunct1)
  from wt so ca fl nr c a wt' so' ca' fl' nr' b show ?thesis by blast
qed

end
